(* ===== verification/Prelude.thy ===== *)
theory Prelude
  imports Main "HOL-Library.Word"
begin

text \<open>
  Shared vocabulary of the development: the machine types of the 32-bit loader,
  the ways a run can stop early (a failed \<^verbatim>\<open>assert\<close>, a
  \<^verbatim>\<open>FATAL\<close>, a fault, an exit), sequencing of computations that may
  stop, little-endian encoding of 32-bit words, and the facts on words and lists the
  component theories share.  Three collections carry the automation:
  \<open>word_arith\<close> (from word arithmetic to \<^typ>\<open>nat\<close>), \<open>run_simps\<close>
  (sequencing of fallible steps) and \<open>le_simps\<close> (byte encodings).
\<close>

unbundle bit_operations_syntax

named_theorems word_arith
named_theorems run_simps
named_theorems le_simps

subsection \<open>Machine types\<close>

type_synonym byte = "8 word"
type_synonym u16 = "16 word"
type_synonym u32 = "32 word"
type_synonym u64 = "64 word"

text \<open>A 32-bit address of the traced process.\<close>

type_synonym addr = u32

subsection \<open>Runs that may stop\<close>

text \<open>
  How a C function of the loader can fail to return: \<open>Assertion\<close> is the
  \<^verbatim>\<open>assert\<close> of \<^verbatim>\<open>debug.h\<close>, \<open>Fatal\<close> its
  \<^verbatim>\<open>FATAL\<close>, \<open>Segv\<close> an access outside the mapped memory or
  through a null pointer, \<open>Trap\<close> a breakpoint or a division by zero and
  \<open>Exited\<close> a call of \<^verbatim>\<open>sys_exit\<close>.
\<close>

datatype fault = Assertion | Fatal | Segv | Trap | Exited int

type_synonym 'a run = "fault + 'a"

abbreviation Ok :: "'a \<Rightarrow> 'e + 'a" where
  "Ok \<equiv> Inr"

abbreviation Stop :: "'e \<Rightarrow> 'e + 'a" where
  "Stop \<equiv> Inl"

definition bindR :: "'e + 'a \<Rightarrow> ('a \<Rightarrow> 'e + 'b) \<Rightarrow> 'e + 'b" where
  "bindR m f = (case m of Inl e \<Rightarrow> Inl e | Inr a \<Rightarrow> f a)"

definition assert_that :: "bool \<Rightarrow> unit run" where
  "assert_that b = (if b then Ok () else Stop Assertion)"

text \<open>\<^verbatim>\<open>CASSERT\<close> ends the program with a fatal error.\<close>

definition CASSERT :: "bool \<Rightarrow> unit run" where
  "CASSERT P = (if P then Inr () else Inl Fatal)"

lemma bindR_simps [simp]:
  "bindR (Ok a) f = f a"
  "bindR (Stop e) f = Stop e"
  by (simp_all add: bindR_def)

lemma bindR_Ok_iff [run_simps]: "bindR m f = Ok b \<longleftrightarrow> (\<exists>a. m = Ok a \<and> f a = Ok b)"
  by (cases m) simp_all

lemma bindR_OkE:
  assumes "bindR m f = Ok b"
  obtains a where "m = Ok a" "f a = Ok b"
  using assms by (auto simp: bindR_Ok_iff)

lemma bindR_Stop_iff [run_simps]:
  "bindR m f = Stop e \<longleftrightarrow> m = Stop e \<or> (\<exists>a. m = Ok a \<and> f a = Stop e)"
  by (cases m) simp_all

lemma bindR_assoc [run_simps]: "bindR (bindR m f) g = bindR m (\<lambda>a. bindR (f a) g)"
  by (cases m) simp_all

lemma bindR_cong [fundef_cong]:
  "m = m' \<Longrightarrow> (\<And>a. m' = Ok a \<Longrightarrow> f a = f' a) \<Longrightarrow> bindR m f = bindR m' f'"
  by (cases m') simp_all

lemma assert_that_iff [simp]:
  "assert_that b = Ok () \<longleftrightarrow> b"
  "assert_that b = Ok u \<longleftrightarrow> b"
  "assert_that b = Stop e \<longleftrightarrow> \<not> b \<and> e = Assertion"
  by (auto simp: assert_that_def)

lemma assert_that_simps [simp]:
  "assert_that True = Ok ()"
  "assert_that False = Stop Assertion"
  by (simp_all add: assert_that_def)

lemma CASSERT_iff [simp]:
  "CASSERT P = Ok u \<longleftrightarrow> P" "CASSERT P = Stop f \<longleftrightarrow> \<not> P \<and> f = Fatal"
  by (auto simp: CASSERT_def)

lemma CASSERT_simps [simp]: "CASSERT True = Ok ()" "CASSERT False = Stop Fatal"
  by (simp_all add: CASSERT_def)

subsection \<open>Words as numbers\<close>

lemma unat_less_32 [simp, intro]: "unat (w :: u32) < 2 ^ 32"
  by (rule order_less_le_trans [OF unsigned_less]) simp

lemma unat_less_32' [simp]: "unat (w :: u32) < 4294967296"
  using unat_less_32 [of w] by simp

lemma unat_less_8 [simp]: "unat (w :: byte) < 256"
  by (rule order_less_le_trans [OF unsigned_less]) simp

lemma unat_and [word_arith]: "unat (a AND b) = unat a AND unat (b :: 'a::len word)"
  by (simp add: and_nat_def flip: unat_eq_nat_uint) (metis nat_uint_eq uint_and)

lemma unat_drop_bit [word_arith]: "unat (drop_bit n w) = unat w div 2 ^ n" for w :: "'a::len word"
  by (metis drop_bit_eq_div unat_drop_bit_eq)

lemma unat_add_32 [word_arith]:
  "unat a + unat b < 2 ^ 32 \<Longrightarrow> unat (a + b :: u32) = unat a + unat b"
  by (simp add: unat_word_ariths)

lemma unat_sub_32 [word_arith]:
  "unat b \<le> unat a \<Longrightarrow> unat (a - b :: u32) = unat a - unat b"
  by (rule unat_sub) (simp add: word_le_nat_alt)

lemma unat_take_bit [word_arith]: "unat (take_bit n w) = unat w mod 2 ^ n" for w :: "'a::len word"
  by (metis take_bit_eq_mod unsigned_take_bit_eq)

lemma unat_word_of_nat_32 [word_arith]: "n < 2 ^ 32 \<Longrightarrow> unat (word_of_nat n :: u32) = n"
  by (simp add: unat_of_nat)

lemma unat_pow2_32 [word_arith]: "n < 32 \<Longrightarrow> unat (2 ^ n :: u32) = 2 ^ n"
  using unat_word_of_nat_32 [of "2 ^ n"] power_strict_increasing [of n 32 "2 :: nat"] by simp

subsection \<open>Lists\<close>

lemma sorted_wrt_neq_distinct: "sorted_wrt (\<noteq>) xs \<Longrightarrow> distinct xs"
  by (induction xs) auto

lemma sorted_wrt_sym_mem:
  assumes "sorted_wrt R xs" "symp R" "x \<in> set xs" "y \<in> set xs" "x \<noteq> y"
  shows "R x y"
  using assms by (induction xs) (auto dest: sympD)

lemma sorted_wrt_remove1: "sorted_wrt R xs \<Longrightarrow> sorted_wrt R (remove1 x xs)"
  by (induction xs) (auto dest: notin_set_remove1)

lemma and_take_bit_right: "take_bit n a = a \<Longrightarrow> a AND b = a AND take_bit n b" for a b :: nat
  unfolding take_bit_eq_mask by (metis and.assoc and.commute)

end
