(* ===== verification/Bithacks.thy ===== *)
theory Bithacks
  imports Prelude
begin

text \<open>
  The word-level helpers of the loader: the alignment macros of
  \<^verbatim>\<open>src/include/defs.h\<close> and the bit tricks of
  \<^verbatim>\<open>src/include/bithacks.h\<close>.  Each trick is proved equal to the plain
  description of what it computes: \<open>ALIGN_DOWN\<close> and \<open>ALIGN_UP\<close> are rounding to
  a multiple, \<open>count_1s\<close> is the number of set bits, \<open>last_0_pos\<close> the index of the
  lowest clear bit, \<open>set_last_0\<close> sets exactly that bit and \<open>unset_bit_n\<close> clears
  exactly bit \<open>n\<close>.
\<close>

subsection \<open>Alignment (defs.h)\<close>

definition ALIGN_DOWN :: "u32 \<Rightarrow> u32 \<Rightarrow> u32" where
  "ALIGN_DOWN v a = v AND NOT (a - 1)"

definition ALIGN_UP :: "u32 \<Rightarrow> u32 \<Rightarrow> u32" where
  "ALIGN_UP v a = ALIGN_DOWN (v + a - 1) a"

lemma ALIGN_DOWN_pow2: "ALIGN_DOWN v (2 ^ n) = v - take_bit n v"
proof -
  let ?h = "v AND NOT (mask n)"
  have "?h AND (v AND mask n) = 0"
    by (rule bit_eqI) (auto simp: bit_simps)
  then have "?h + (v AND mask n) = ?h OR (v AND mask n)"
    by (rule disjunctive_add_eq_or)
  also have "\<dots> = v"
    by (rule bit_eqI) (auto simp: bit_simps)
  finally show ?thesis
    by (simp add: ALIGN_DOWN_def take_bit_eq_mask mask_eq_exp_minus_1 algebra_simps)
qed

lemma unat_ALIGN_DOWN [word_arith]: "unat (ALIGN_DOWN v (2 ^ n)) = unat v - unat v mod 2 ^ n"
  by (simp add: ALIGN_DOWN_pow2 unat_sub_32 unat_take_bit)

lemma unat_ALIGN_UP [word_arith]:
  assumes "unat v + 2 ^ n \<le> 2 ^ 32" "n < 32"
  shows "unat (ALIGN_UP v (2 ^ n)) = (unat v + 2 ^ n - 1) div 2 ^ n * 2 ^ n"
proof -
  have "unat (2 ^ n - 1 :: u32) = 2 ^ n - 1"
    using assms(2) by (simp add: unat_sub_32 unat_pow2_32)
  moreover have "0 < (2 :: nat) ^ n" by simp
  ultimately have "unat (v + (2 ^ n - 1)) = unat v + 2 ^ n - 1"
    using assms(1) by (subst unat_add_32) auto
  then show ?thesis
    by (simp add: ALIGN_UP_def unat_ALIGN_DOWN minus_mod_eq_div_mult flip: add_diff_eq)
qed

subsection \<open>Counting bits (bithacks.h)\<close>

text \<open>
  The octal constants \<^verbatim>\<open>033333333333\<close>, \<^verbatim>\<open>030707070707\<close> and
  \<^verbatim>\<open>077\<close> in hexadecimal and decimal.  The result is below 63, so the
  conversion to the C return type \<^verbatim>\<open>int\<close> is exact.
\<close>

definition count_1s :: "u32 \<Rightarrow> int" where
  "count_1s c1 =
    (let c2 = drop_bit 1 c1 AND 0xDB6DB6DB;
         c2 = c1 - c2 - (drop_bit 1 c2 AND 0xDB6DB6DB)
     in int (unat (((c2 + drop_bit 3 c2) AND 0xC71C71C7) mod 63)))"

definition last_0_pos :: "u32 \<Rightarrow> int" where
  "last_0_pos x = (let tmp = (x + 1) XOR x in count_1s tmp - 1)"

definition set_last_0 :: "u32 \<Rightarrow> u32" where
  "set_last_0 x = x OR (x + 1)"

definition unset_bit_n :: "u32 \<Rightarrow> nat \<Rightarrow> u32" where
  "unset_bit_n x n = (let mask = NOT (push_bit n 1) in x AND mask)"

text \<open>
  The proof that \<^const>\<open>count_1s\<close> counts bits follows the octal digits of its argument:
  \<open>fields k f n x\<close> applies \<open>f\<close> to each of the \<open>n\<close> lowest \<open>k\<close>-bit digits
  of \<open>x\<close>, \<open>rep k m n\<close> repeats the digit \<open>m\<close>, and masking with a repeated
  digit acts digit by digit.  The remainder modulo 63 adds up base-64 digits.
\<close>

lemma and_field:
  fixes a m x y :: nat
  assumes "a < 2 ^ k" "m < 2 ^ k"
  shows "(a + 2 ^ k * x) AND (m + 2 ^ k * y) = (a AND m) + 2 ^ k * (x AND y)" (is "?l = ?r")
proof -
  have "take_bit k (a + 2 ^ k * x) = a" "take_bit k (m + 2 ^ k * y) = m"
    "drop_bit k (a + 2 ^ k * x) = x" "drop_bit k (m + 2 ^ k * y) = y"
    using assms by (simp_all add: take_bit_eq_mod drop_bit_eq_div)
  then have "take_bit k ?l = a AND m" "drop_bit k ?l = x AND y"
    by (simp_all only: take_bit_and drop_bit_and)
  moreover have "?l = take_bit k ?l + 2 ^ k * drop_bit k ?l"
    by (simp add: take_bit_eq_mod drop_bit_eq_div)
  ultimately show ?thesis by simp
qed

primrec rep :: "nat \<Rightarrow> nat \<Rightarrow> nat \<Rightarrow> nat" where
  "rep k m 0 = 0"
| "rep k m (Suc n) = m + 2 ^ k * rep k m n"

primrec fields :: "nat \<Rightarrow> (nat \<Rightarrow> nat) \<Rightarrow> nat \<Rightarrow> nat \<Rightarrow> nat" where
  "fields k f 0 x = 0"
| "fields k f (Suc n) x = f (x mod 2 ^ k) + 2 ^ k * fields k f n (x div 2 ^ k)"

primrec field_sum :: "nat \<Rightarrow> (nat \<Rightarrow> nat) \<Rightarrow> nat \<Rightarrow> nat \<Rightarrow> nat" where
  "field_sum k f 0 x = 0"
| "field_sum k f (Suc n) x = f (x mod 2 ^ k) + field_sum k f n (x div 2 ^ k)"

lemma fields_id: "x < 2 ^ (k * n) \<Longrightarrow> fields k (\<lambda>d. d) n x = x"
  by (induction n arbitrary: x) (auto simp: power_add less_mult_imp_div_less mult.commute)

lemma fields_zero: "f 0 = 0 \<Longrightarrow> fields k f n 0 = 0"
  by (induction n) auto

lemma fields_fields:
  "(\<And>d. d < 2 ^ k \<Longrightarrow> f d < 2 ^ k) \<Longrightarrow> fields k g n (fields k f n x) = fields k (\<lambda>d. g (f d)) n x"
  by (induction n arbitrary: x) auto

lemma fields_le: "(\<And>d. d < 2 ^ k \<Longrightarrow> g d \<le> f d) \<Longrightarrow> fields k g n x \<le> fields k f n x"
  by (induction n arbitrary: x) (auto intro!: add_mono)

lemma fields_diff:
  "(\<And>d. d < 2 ^ k \<Longrightarrow> g d \<le> f d) \<Longrightarrow>
    fields k f n x - fields k g n x = fields k (\<lambda>d. f d - g d) n x"
proof (induction n arbitrary: x)
  case (Suc n)
  have "g (x mod 2 ^ k) \<le> f (x mod 2 ^ k)" using Suc.prems by simp
  moreover have "fields k g n (x div 2 ^ k) \<le> fields k f n (x div 2 ^ k)"
    using Suc.prems by (rule fields_le)
  ultimately show ?case
    using Suc.IH [OF Suc.prems, of "x div 2 ^ k"]
    by (simp add: diff_mult_distrib2 flip: Suc.IH [OF Suc.prems])
qed simp

lemma fields_more:
  "f 0 = 0 \<Longrightarrow> x < 2 ^ (k * n) \<Longrightarrow> fields k f (Suc n) x = fields k f n x"
proof (induction n arbitrary: x)
  case (Suc n)
  have "x div 2 ^ k < 2 ^ (k * n)"
    using Suc.prems by (simp add: power_add less_mult_imp_div_less mult.commute)
  then have "fields k f (Suc n) (x div 2 ^ k) = fields k f n (x div 2 ^ k)"
    by (rule Suc.IH [OF Suc.prems(1)])
  then show ?case by (simp only: fields.simps)
qed simp

lemma fields_linear:
  "(\<And>d. d < 8 \<Longrightarrow> 2 * f d \<le> d + 1) \<Longrightarrow> 2 * fields 3 f n x \<le> x + rep 3 1 n"
proof (induction n arbitrary: x)
  case (Suc n)
  have "2 * f (x mod 8) \<le> x mod 8 + 1" using Suc.prems by simp
  moreover have "2 * fields 3 f n (x div 8) \<le> x div 8 + rep 3 1 n" using Suc by blast
  ultimately have "2 * f (x mod 8) + 8 * (2 * fields 3 f n (x div 8)) \<le> x mod 8 + 1 + 8 * (x div 8 + rep 3 1 n)"
    by (intro add_mono) simp_all
  then show ?case by simp
qed simp

lemma half_fields:
  "(x div 2) AND rep 3 3 n = fields 3 (\<lambda>d. d div 2) n x"
proof (induction n arbitrary: x)
  case (Suc n)
  let ?d = "x mod 8" and ?y = "x div 8"
  have "x div 2 = (?d + 8 * ?y) div 2" by simp
  also have "\<dots> = ?d div 2 + 4 * ?y" using div_mult_self2 [of 2 ?d "4 * ?y"] by simp
  also have "\<dots> = ?d div 2 + 4 * (?y mod 2 + 2 * (?y div 2))" by simp
  finally have "x div 2 = (?d div 2 + 4 * (?y mod 2)) + 2 ^ 3 * (?y div 2)"
    by (simp only: distrib_left) simp
  moreover have "?d div 2 + 4 * (?y mod 2) < 2 ^ 3" by (simp add: less_mult_imp_div_less)
  ultimately have "(x div 2) AND rep 3 3 (Suc n) = ((?d div 2 + 4 * (?y mod 2)) AND 3) + 2 ^ 3 * (?y div 2 AND rep 3 3 n)"
    using and_field [of "?d div 2 + 4 * (?y mod 2)" 3 3 "?y div 2" "rep 3 3 n"] by simp
  also have "(?d div 2 + 4 * (?y mod 2)) AND 3 = ?d div 2"
  proof -
    have "(a + 4 * b) AND 3 = a" if "a < 4" for a b :: nat
      using that and_field [of a 2 3 b 0] take_bit_eq_mask [of 2 a]
      by (simp add: take_bit_eq_mod mask_eq_exp_minus_1)
    then show ?thesis by simp
  qed
  finally show ?case by (simp add: Suc)
qed simp

lemma mod_64:
  fixes x :: nat
  shows "x mod 64 mod 8 = x mod 8" "x mod 64 div 8 = x div 8 mod 8" "x div 8 div 8 = x div 64"
  using mod_mult2_eq [of x 8 8] by (simp_all flip: div_mult2_eq)

lemma pair_fields:
  assumes "\<And>d. d < 8 \<Longrightarrow> f d \<le> 3"
  shows "(fields 3 f (2 * n) x + fields 3 f (2 * n) x div 8) AND rep 6 7 n
    = fields 6 (\<lambda>e. f (e mod 8) + f (e div 8)) n x"
proof (induction n arbitrary: x)
  case (Suc n)
  define a b y where "a = f (x mod 8)" and "b = f (x div 8 mod 8)" and "y = x div 64"
  define q where "q = fields 3 f (2 * n) y"
  define r where "r = q mod 8"
  have ab: "a \<le> 3" "b \<le> 3" by (simp_all add: a_def b_def assms)
  have "(f (y mod 8) + (8 * z + 64 * z')) mod 8 = f (y mod 8)" for z z'
    using assms [of "y mod 8"] mod_mult_self2 [of "f (y mod 8)" 8 "z + 8 * z'"] by simp
  then have r: "r \<le> 3"
    using assms [of "y mod 8"] unfolding r_def q_def by (cases n) simp_all
  have p: "fields 3 f (2 * Suc n) x = a + 8 * b + 64 * q"
    by (simp add: a_def b_def q_def y_def mod_64)
  have eight: "8 * q = 8 * (q mod 8) + 64 * (q div 8)"
    using mult_div_mod_eq [of 8 q] by linarith
  have "(a + 8 * b + 64 * q) div 8 = b + 8 * q" using ab by simp
  then have "(fields 3 f (2 * Suc n) x + fields 3 f (2 * Suc n) x div 8)
      = ((a + b) + 2 ^ 3 * (b + r)) + 2 ^ 6 * (q + q div 8)"
    unfolding p r_def using eight by simp
  then have "(fields 3 f (2 * Suc n) x + fields 3 f (2 * Suc n) x div 8) AND rep 6 7 (Suc n)
      = (((a + b) + 2 ^ 3 * (b + r)) AND 7) + 2 ^ 6 * ((q + q div 8) AND rep 6 7 n)"
    using and_field [of "(a + b) + 2 ^ 3 * (b + r)" 6 7 "q + q div 8" "rep 6 7 n"] ab r by simp
  also have "((a + b) + 2 ^ 3 * (b + r)) AND 7 = a + b"
    using ab and_field [of "a + b" 3 7 "b + r" 0] take_bit_eq_mask [of 3 "a + b"]
    by (simp add: take_bit_eq_mod mask_eq_exp_minus_1)
  also have "(q + q div 8) AND rep 6 7 n = fields 6 (\<lambda>e. f (e mod 8) + f (e div 8)) n y"
    unfolding q_def by (rule Suc)
  finally show ?case
    by (simp add: a_def b_def y_def mod_64)
qed simp

lemma fields_mod_sum: "fields 6 f n x mod 63 = field_sum 6 f n x mod 63"
proof (induction n arbitrary: x)
  case (Suc n)
  have "64 * F mod 63 = F mod 63" for F :: nat
    using mod_mult_self2 [of F 63 F] by simp
  then have "(a + 64 * F) mod 63 = (a + F mod 63) mod 63" for a F :: nat
    by (metis mod_add_right_eq)
  then have "fields 6 f (Suc n) x mod 63 = (f (x mod 64) + field_sum 6 f n (x div 64) mod 63) mod 63"
    using Suc [of "x div 64"] by simp
  then show ?case by (simp add: mod_add_right_eq)
qed simp

lemma field_sum_pairs:
  "field_sum 6 (\<lambda>e. f (e mod 8) + f (e div 8)) n x = field_sum 3 f (2 * n) x"
proof (induction n arbitrary: x)
  case (Suc n)
  then show ?case by (simp add: mod_64)
qed simp

lemma sum_three_more: "(\<Sum>i<3 * Suc n. g i :: nat) = g 0 + g 1 + g 2 + (\<Sum>i<3 * n. g (i + 3))"
  by (simp only: mult_Suc_right numeral_3_eq_3 add_Suc add_0 sum.lessThan_Suc_shift)
    (simp add: numeral_2_eq_2)

lemma bit_add_three: "bit (x :: nat) (i + 3) = bit (x div 8) i"
  by (simp add: bit_iff_odd div_mult2_eq power_add mult.commute)

lemma less_8_cases: "d < 8 \<Longrightarrow> d = 0 \<or> d = 1 \<or> d = 2 \<or> d = 3 \<or> d = 4 \<or> d = 5 \<or> d = 6 \<or> d = (7::nat)"
  by auto

lemma bit_nat_small: "bit (d::nat) 0 = odd d" "bit d 1 = odd (d div 2)" "bit d (Suc 0) = odd (d div 2)" "bit d 2 = odd (d div 4)"
  by (simp_all add: bit_iff_odd)

definition pop3 :: "nat \<Rightarrow> nat" where
  "pop3 d = d - d div 2 - d div 4"

lemma pop3_bits: "d < 8 \<Longrightarrow> pop3 d = of_bool (bit d 0) + of_bool (bit d 1) + of_bool (bit d 2)"
  unfolding pop3_def by (drule less_8_cases, elim disjE) (simp_all add: bit_nat_small)

lemma pop3_le: "d < 8 \<Longrightarrow> pop3 d \<le> 3" "d < 8 \<Longrightarrow> 2 * pop3 d \<le> d + 1"
  unfolding pop3_def by (drule less_8_cases, elim disjE, simp_all)+

lemma field_sum_bits:
  "field_sum 3 pop3 n x = (\<Sum>i<3 * n. of_bool (bit x i))"
proof (induction n arbitrary: x)
  case (Suc n)
  have "pop3 (x mod 8) = of_bool (bit x 0) + of_bool (bit x 1) + of_bool (bit x 2)"
    using pop3_bits [OF mod_less_divisor [of 8 x]]
    by (simp add: bit_take_bit_iff flip: take_bit_eq_mod [of 3, simplified])
  then show ?case
    by (simp only: sum_three_more bit_add_three field_sum.simps Suc) simp
qed simp

lemma rep_numeral: "rep k m (numeral n) = m + 2 ^ k * rep k m (pred_numeral n)"
  by (simp add: numeral_eq_Suc)

lemma rep_vals: "rep 3 3 11 = 0xDB6DB6DB" "rep 6 7 6 = 0x1C71C71C7" "rep 3 1 11 = 0x49249249"
  by (simp_all add: rep_numeral)

lemma pop3_sub:
  fixes x :: nat
  assumes "x < 2 ^ 32"
  shows "fields 3 (\<lambda>d. d div 2) 11 x \<le> x"
    and "fields 3 (\<lambda>d. d div 4) 11 x \<le> x - fields 3 (\<lambda>d. d div 2) 11 x"
    and "x - fields 3 (\<lambda>d. d div 2) 11 x - fields 3 (\<lambda>d. d div 4) 11 x = fields 3 pop3 11 x"
proof -
  have id: "fields 3 (\<lambda>d. d) 11 x = x" using assms by (intro fields_id) simp
  show le: "fields 3 (\<lambda>d. d div 2) 11 x \<le> x"
    using fields_le [of 3 "\<lambda>d. d div 2" "\<lambda>d. d" 11 x] id by simp
  have d1: "x - fields 3 (\<lambda>d. d div 2) 11 x = fields 3 (\<lambda>d. d - d div 2) 11 x"
    using fields_diff [of 3 "\<lambda>d. d div 2" "\<lambda>d. d" 11 x] id by simp
  show "fields 3 (\<lambda>d. d div 4) 11 x \<le> x - fields 3 (\<lambda>d. d div 2) 11 x"
    unfolding d1 by (rule fields_le) linarith
  show "x - fields 3 (\<lambda>d. d div 2) 11 x - fields 3 (\<lambda>d. d div 4) 11 x = fields 3 pop3 11 x"
    unfolding d1 pop3_def by (rule fields_diff) linarith
qed

lemma pop3_sum:
  fixes x :: nat
  assumes "x < 2 ^ 32"
  defines "p \<equiv> fields 3 pop3 11 x"
  shows "p + p div 8 < 2 ^ 32"
    and "((p + p div 8) AND rep 6 7 6) mod 63 = (\<Sum>i<32. of_bool (bit x i))"
proof -
  have "2 * p \<le> x + rep 3 1 11"
    unfolding p_def by (rule fields_linear) (rule pop3_le)
  then have "2 * p \<le> x + 0x49249249" by (simp only: rep_vals)
  then show "p + p div 8 < 2 ^ 32" using assms(1) by simp
  have "p = fields 3 pop3 (Suc 11) x"
    unfolding p_def by (rule fields_more [symmetric]) (use assms(1) in \<open>simp_all add: pop3_def\<close>)
  then have "(p + p div 8) AND rep 6 7 6 = fields 6 (\<lambda>e. pop3 (e mod 8) + pop3 (e div 8)) 6 x"
    using pair_fields [of pop3 6 x] pop3_le(1) by simp
  then have "((p + p div 8) AND rep 6 7 6) mod 63 = field_sum 3 pop3 (2 * 6) x mod 63"
    by (simp only: fields_mod_sum field_sum_pairs)
  also have "field_sum 3 pop3 (2 * 6) x = (\<Sum>i<36. of_bool (bit x i))"
    by (simp only: field_sum_bits) simp
  also have "\<dots> = (\<Sum>i<32. of_bool (bit x i))"
  proof (rule sum.mono_neutral_right)
    show "\<forall>i\<in>{..<36} - {..<32}. of_bool (bit x i) = (0 :: nat)"
      using assms(1) by (metis Diff_iff bit_take_bit_iff lessThan_iff of_bool_eq(1) take_bit_nat_eq_self_iff)
  qed auto
  also have "\<dots> mod 63 = \<dots>"
    using card_mono [of "{..<32}" "{..<32} \<inter> Collect (bit x)"] by simp
  finally show "((p + p div 8) AND rep 6 7 6) mod 63 = (\<Sum>i<32. of_bool (bit x i))" .
qed

lemma count_1s_popcount: "count_1s c = int (card {i. i < 32 \<and> bit c i})"
proof -
  let ?x = "unat c"
  have x: "?x < 2 ^ 32" by (rule unat_less_32)
  define h where "h = drop_bit 1 c AND 0xDB6DB6DB"
  have h: "unat h = fields 3 (\<lambda>d. d div 2) 11 ?x"
    using half_fields [of ?x 11] unfolding h_def by (simp add: unat_and unat_drop_bit rep_vals)
  define q where "q = drop_bit 1 h AND 0xDB6DB6DB"
  have q: "unat q = fields 3 (\<lambda>d. d div 4) 11 ?x"
    using half_fields [of "unat h" 11] fields_fields [of 3 "\<lambda>d. d div 2" "\<lambda>d. d div 2" 11 ?x]
    unfolding q_def by (simp add: unat_and unat_drop_bit rep_vals h flip: div_mult2_eq)
  define p where "p = c - h - q"
  have ch: "unat (c - h) = ?x - unat h"
    by (rule unat_sub) (use pop3_sub(1) [OF x] in \<open>simp add: word_le_nat_alt h\<close>)
  have p: "unat p = fields 3 pop3 11 ?x"
    unfolding p_def pop3_sub(3) [OF x, symmetric] h [symmetric] q [symmetric] ch [symmetric]
    by (rule unat_sub) (use pop3_sub(2) [OF x] in \<open>simp add: word_le_nat_alt h q ch\<close>)
  have s: "unat (p + drop_bit 3 p) = unat p + unat p div 8"
    using pop3_sum(1) [OF x] by (simp add: unat_word_ariths unat_drop_bit p)
  have "take_bit 32 (unat (p + drop_bit 3 p)) = unat (p + drop_bit 3 p)"
    by (rule take_bit_nat_eq_self) (rule unat_less_32)
  then have "unat (p + drop_bit 3 p) AND rep 6 7 6 = unat (p + drop_bit 3 p) AND take_bit 32 (rep 6 7 6)"
    by (rule and_take_bit_right)
  also have "take_bit 32 (rep 6 7 6) = 0xC71C71C7"
    by (simp add: rep_vals take_bit_eq_mod)
  finally have "unat (((p + drop_bit 3 p) AND 0xC71C71C7) mod 63) = (\<Sum>i<32. of_bool (bit ?x i))"
    using pop3_sum(2) [OF x] s p by (simp add: unat_mod_distrib unat_and)
  also have "\<dots> = card {i. i < 32 \<and> bit c i}"
    by (simp add: bit_unsigned_iff Collect_conj_eq lessThan_def)
  finally show ?thesis
    unfolding count_1s_def Let_def h_def [symmetric] q_def [symmetric] p_def [symmetric] by simp
qed

subsection \<open>The lowest clear bit\<close>

lemma succ_lowest_zero:
  fixes x :: "'a::len word"
  assumes "\<not> bit x k" "\<forall>i<k. bit x i" "k < LENGTH('a)"
  shows "x + 1 = (x OR 2 ^ k) AND NOT (mask k)"
proof -
  define h where "h = x AND NOT (mask (Suc k))"
  have x: "x = h OR mask k"
    unfolding h_def
    by (rule bit_eqI) (use assms in \<open>auto simp: bit_simps less_Suc_eq not_less dest: le_neq_implies_less\<close>)
  have "h AND mask k = 0"
    unfolding h_def by (rule bit_eqI) (auto simp: bit_simps)
  then have "x = h + mask k" using x by (simp add: disjunctive_add_eq_or)
  then have "x + 1 = h + 2 ^ k" by (simp add: mask_eq_exp_minus_1)
  also have "h AND 2 ^ k = 0"
    unfolding h_def by (rule bit_eqI) (auto simp: bit_simps)
  then have "h + 2 ^ k = h OR 2 ^ k" by (simp add: disjunctive_add_eq_or)
  also have "\<dots> = (x OR 2 ^ k) AND NOT (mask k)"
    unfolding h_def
    by (rule bit_eqI) (use assms in \<open>auto simp: bit_simps less_Suc_eq not_less dest: le_neq_implies_less\<close>)
  finally show ?thesis .
qed

lemma obtain_lowest_zero:
  fixes x :: "'a::len word"
  assumes "x \<noteq> - 1"
  obtains k where "k < LENGTH('a)" "\<not> bit x k" "\<forall>i<k. bit x i"
proof -
  have "\<exists>k. k < LENGTH('a) \<and> \<not> bit x k"
    using assms by (auto simp: bit_eq_iff bit_simps)
  then obtain k where "k < LENGTH('a) \<and> \<not> bit x k"
    and "\<And>i. i < k \<Longrightarrow> \<not> (i < LENGTH('a) \<and> \<not> bit x i)"
    using exists_least_iff [of "\<lambda>k. k < LENGTH('a) \<and> \<not> bit x k"] by blast
  then show thesis by (intro that [of k]) (auto intro: order.strict_trans)
qed

lemma last_0_pos_lowest:
  assumes "\<not> bit x k" "\<forall>i<k. bit x i" "k < 32"
  shows "last_0_pos x = int k"
proof -
  have "(x + 1) XOR x = mask (Suc k)"
    by (subst succ_lowest_zero [of x k], (use assms in simp_all)[3], rule bit_word_eqI)
      (use assms in \<open>auto simp: bit_simps less_Suc_eq not_less dest: le_neq_implies_less\<close>)
  moreover have "{i. i < 32 \<and> bit (mask (Suc k) :: u32) i} = {..<Suc k}"
    using assms(3) by (auto simp: bit_simps)
  ultimately show ?thesis
    by (simp add: last_0_pos_def count_1s_popcount)
qed

lemma set_last_0_lowest:
  assumes "\<not> bit x k" "\<forall>i<k. bit x i" "k < 32"
  shows "set_last_0 x = set_bit k x"
  unfolding set_last_0_def
  by (subst succ_lowest_zero [of x k], (use assms in simp_all)[3], rule bit_word_eqI)
    (use assms in \<open>auto simp: bit_simps\<close>)

lemma bit_unset_bit_n [simp]: "bit (unset_bit_n x n) i \<longleftrightarrow> bit x i \<and> i \<noteq> n"
  by (cases "n < 32") (auto simp: unset_bit_n_def bit_simps dest: bit_imp_le_length)

end
