(* ===== verification/Signals.thy ===== *)
theory Signals
  imports Prelude
begin

text \<open>
  Signal masking (\<^verbatim>\<open>src/include/signal.h\<close>,
  \<^verbatim>\<open>src/core/loader/signal.c\<close>).  The kernel's
  \<^verbatim>\<open>rt_sigprocmask(SIG_SETMASK, ...)\<close> is a parameter
  \<open>procmask :: sigset \<Rightarrow> sigset \<Rightarrow> int \<times> sigset\<close> that maps the current and the
  requested mask to the error code and the mask now in force; the documented behaviour
  of the call is the predicate \<open>sigprocmask_spec\<close>.
\<close>

record sigset =
  sig0 :: u32
  sig1 :: u32

definition RECORD_PROCMASK :: sigset where
  "RECORD_PROCMASK = \<lparr>sig0 = 0x3ffbfa37, sig1 = 0xfffffffe\<rparr>"

definition set_maskall_sigset :: "sigset \<Rightarrow> sigset" where
  "set_maskall_sigset s = s\<lparr>sig0 := 0x3ffbfa37, sig1 := 0xfffffffe\<rparr>"

definition unblock_sigkill_replace :: "sigset \<Rightarrow> sigset" where
  "unblock_sigkill_replace s = s\<lparr>sig1 := sig1 s AND 0xfffffffe\<rparr>"

definition is_block_sigkill_replace :: "sigset \<Rightarrow> bool" where
  "is_block_sigkill_replace s \<longleftrightarrow> sig1 s AND 1 \<noteq> 0"

text \<open>Signal \<open>n\<close> (numbered from 1) is bit \<open>n - 1\<close> of the two-word set.\<close>

definition blocked :: "sigset \<Rightarrow> nat \<Rightarrow> bool" where
  "blocked s n = (if n \<le> 32 then bit (sig0 s) (n - 1) else bit (sig1 s) (n - 33))"

type_synonym procmask = "sigset \<Rightarrow> sigset \<Rightarrow> int \<times> sigset"

definition block_signals :: "procmask \<Rightarrow> sigset \<Rightarrow> (sigset \<times> sigset) run" where
  "block_signals procmask cur =
    (let mask_in = set_maskall_sigset \<lparr>sig0 = 0, sig1 = 0\<rparr>;
         (err, cur') = procmask cur mask_in;
         mask_out = cur
     in bindR (assert_that (err = 0)) (\<lambda>_. Ok (mask_out, cur')))"

definition restore_signals :: "procmask \<Rightarrow> sigset \<Rightarrow> sigset \<Rightarrow> sigset run" where
  "restore_signals procmask saved cur =
    (let (err, cur') = procmask cur saved
     in bindR (assert_that (err = 0)) (\<lambda>_. Ok cur'))"

text \<open>
  \<^verbatim>\<open>restore_sigactions\<close> reinstalls the recorded handlers: the kernel call
  \<^verbatim>\<open>rt_sigaction\<close> is the parameter \<open>act\<close>, which maps the kernel's handler
  table, the signal number and the handler to the error code and the new table.
\<close>

definition SIGKILL :: nat where "SIGKILL = 9"
definition SIGSTOP :: nat where "SIGSTOP = 19"
definition NSIG :: nat where "NSIG = 64"

fun restore_sigactions_from ::
  "('k \<Rightarrow> nat \<Rightarrow> 'h \<Rightarrow> int \<times> 'k) \<Rightarrow> (nat \<Rightarrow> 'h) \<Rightarrow> nat list \<Rightarrow> 'k \<Rightarrow> 'k run" where
  "restore_sigactions_from act user_sigactions [] k = Ok k"
| "restore_sigactions_from act user_sigactions (i # is) k =
    (if i = SIGKILL \<or> i = SIGSTOP then restore_sigactions_from act user_sigactions is k
     else (let (err, k') = act k i (user_sigactions i)
           in bindR (assert_that (err = 0)) (\<lambda>_. restore_sigactions_from act user_sigactions is k')))"

definition restore_sigactions ::
  "('k \<Rightarrow> nat \<Rightarrow> 'h \<Rightarrow> int \<times> 'k) \<Rightarrow> (nat \<Rightarrow> 'h) \<Rightarrow> 'k \<Rightarrow> 'k run" where
  "restore_sigactions act user_sigactions k =
    restore_sigactions_from act user_sigactions [1..<NSIG] k"

subsection \<open>Documented behaviour of the kernel calls\<close>

text \<open>The kernel silently keeps SIGKILL and SIGSTOP out of every mask.\<close>

definition kernel_sane :: "sigset \<Rightarrow> sigset" where
  "kernel_sane s = s\<lparr>sig0 := sig0 s AND NOT (2 ^ (SIGKILL - 1) OR 2 ^ (SIGSTOP - 1))\<rparr>"

definition sigprocmask_spec :: "procmask \<Rightarrow> bool" where
  "sigprocmask_spec procmask \<longleftrightarrow> (\<forall>cur new. procmask cur new = (0, kernel_sane new))"

definition sigaction_spec :: "(('n \<Rightarrow> 'h) \<Rightarrow> 'n \<Rightarrow> 'h \<Rightarrow> int \<times> ('n \<Rightarrow> 'h)) \<Rightarrow> bool" where
  "sigaction_spec act \<longleftrightarrow> (\<forall>k i h. act k i h = (0, k(i := h)))"

subsection \<open>Lemmas\<close>

lemma kernel_sane_idem [simp]: "kernel_sane (kernel_sane s) = kernel_sane s"
  by (simp add: kernel_sane_def and.assoc)

lemma kernel_sane_record [simp]: "kernel_sane RECORD_PROCMASK = RECORD_PROCMASK"
  by (simp add: kernel_sane_def RECORD_PROCMASK_def SIGKILL_def SIGSTOP_def)

lemma set_maskall_record: "set_maskall_sigset s = RECORD_PROCMASK" for s :: sigset
  by (simp add: set_maskall_sigset_def RECORD_PROCMASK_def)

lemma block_signals_Ok:
  "sigprocmask_spec procmask \<Longrightarrow> block_signals procmask cur = Ok (cur, RECORD_PROCMASK)"
  by (simp add: block_signals_def sigprocmask_spec_def set_maskall_record)

lemma restore_signals_Ok:
  "sigprocmask_spec procmask \<Longrightarrow> restore_signals procmask saved cur = Ok (kernel_sane saved)"
  by (simp add: restore_signals_def sigprocmask_spec_def)

lemma restore_sigactions_from_Ok:
  assumes "sigaction_spec act"
  shows "restore_sigactions_from act ua is k
    = Ok (\<lambda>i. if i \<in> set is \<and> i \<noteq> SIGKILL \<and> i \<noteq> SIGSTOP then ua i else k i)"
  using assms by (induction "is" arbitrary: k) (auto simp: sigaction_spec_def fun_eq_iff)

lemma blocked_record:
  "\<not> blocked RECORD_PROCMASK n \<longleftrightarrow> n \<in> {4, 7, 8, 9, 11, 19, 31, 32, 33}"
  if "n \<in> {1..64}" for n
proof -
  have "n \<in> set [1..<65]" using that by auto
  then show ?thesis
    by (simp add: upt_rec) (elim disjE; simp add: blocked_def RECORD_PROCMASK_def)
qed

subsection \<open>Properties\<close>

text \<open>
  The mask the loader installs while it works leaves exactly the nine signals 4, 7, 8, 9,
  11, 19, 31, 32 and 33 deliverable: SIGILL, SIGBUS, SIGFPE, SIGKILL, SIGSEGV, SIGSTOP, the
  two reserved signals and the replacement for SIGKILL.
\<close>

theorem record_procmask_unblocked:
  "{n \<in> {1..64}. \<not> blocked RECORD_PROCMASK n} = {4, 7, 8, 9, 11, 19, 31, 32, 33}"
proof -
  have "{n \<in> {1..64}. \<not> blocked RECORD_PROCMASK n} = {n \<in> {1..64}. n \<in> {4, 7, 8, 9, 11, 19, 31, 32, 33}}"
    using blocked_record by (intro Collect_cong conj_cong refl) blast
  also have "\<dots> = {4, 7, 8, 9, 11, 19, 31, 32, 33}" by auto
  finally show ?thesis .
qed



end
