(* ===== verification/Mutex.thy ===== *)
theory Mutex
  imports Signals
begin

text \<open>
  The futex mutex of the loader (\<^verbatim>\<open>src/include/mutex.h\<close>,
  \<^verbatim>\<open>src/core/loader/mutex.c\<close>).  The word of the mutex is 0 (free), 1 (locked,
  nobody waits) or 2 (locked, somebody may wait).  Threads run \<^verbatim>\<open>xmutex_lock\<close> and
  \<^verbatim>\<open>xmutex_unlock\<close> interleaved: each atomic operation or system call of the two
  functions is one step of the relation \<open>mutex_step\<close>, and a thread is described by the
  point it has reached.

  The futex calls of the kernel are parameters: \<open>kwait v e\<close> says that a
  \<^verbatim>\<open>FUTEX_WAIT\<close> expecting \<open>e\<close> goes to sleep when the word holds \<open>v\<close>,
  \<open>kwake nr S W\<close> that a \<^verbatim>\<open>FUTEX_WAKE\<close> of at most \<open>nr\<close> threads wakes the
  threads \<open>W\<close> among the sleepers \<open>S\<close>.  Their documented behaviour is \<open>futex_spec\<close>.
  A sleeper may also return on its own, as a wait may be interrupted.
\<close>

subsection \<open>State and atomic operations\<close>

datatype point =
    Outside \<comment> \<open>not inside lock or unlock and not holding the mutex\<close>
  | Lock_try \<comment> \<open>signals blocked, before the first compare-and-exchange\<close>
  | Lock_test int \<comment> \<open>loop head, with the local variable \<open>c\<close>\<close>
  | Lock_wait \<comment> \<open>about to call \<open>futex_wait\<close>\<close>
  | Lock_asleep \<comment> \<open>asleep in the kernel\<close>
  | Lock_retry \<comment> \<open>before the compare-and-exchange of the loop condition\<close>
  | Holding \<comment> \<open>\<open>xmutex_lock\<close> has returned\<close>
  | Unlock_set \<comment> \<open>in \<open>xmutex_unlock\<close>, before \<open>atomic_set\<close>\<close>
  | Unlock_wake \<comment> \<open>about to call \<open>futex_wake\<close>\<close>
  | Unlock_restore \<comment> \<open>about to restore the signal mask\<close>

type_synonym tid = nat

record mstate =
  val :: int
  pc :: "tid \<Rightarrow> point"
  sigset :: "tid \<Rightarrow> sigset" \<comment> \<open>the result of \<open>block_signals\<close> each thread keeps\<close>
  procmask :: "tid \<Rightarrow> sigset" \<comment> \<open>the signal mask in force\<close>

definition atomic_cmpxchg :: "int \<Rightarrow> int \<Rightarrow> int \<Rightarrow> int \<times> int" where
  "atomic_cmpxchg v old new = (v, if v = old then new else v)"

definition atomic_dec_and_test :: "int \<Rightarrow> bool \<times> int" where
  "atomic_dec_and_test v = (v - 1 = 0, v - 1)"

definition xmutex_init :: "mstate \<Rightarrow> mstate" where
  "xmutex_init s = s\<lparr>val := 0\<rparr>"

definition xmutex_is_locked :: "mstate \<Rightarrow> bool" where
  "xmutex_is_locked s \<longleftrightarrow> val s \<noteq> 0"

definition goto :: "tid \<Rightarrow> point \<Rightarrow> mstate \<Rightarrow> mstate" where
  "goto t p s = s\<lparr>pc := (pc s)(t := p)\<rparr>"

subsection \<open>One function per atomic step of a thread\<close>

text \<open>\<^verbatim>\<open>sigset = block_signals()\<close>\<close>

definition lock_block :: "procmask \<Rightarrow> tid \<Rightarrow> mstate \<Rightarrow> mstate run" where
  "lock_block pm t s =
    bindR (block_signals pm (procmask s t)) (\<lambda>(out, cur).
      Ok (goto t Lock_try s\<lparr>sigset := (sigset s)(t := out), procmask := (procmask s)(t := cur)\<rparr>))"

text \<open>\<^verbatim>\<open>if ((c = atomic_cmpxchg(&lock->val, 0, 1)) != 0)\<close>\<close>

definition lock_try :: "tid \<Rightarrow> mstate \<Rightarrow> mstate" where
  "lock_try t s =
    (let (c, v) = atomic_cmpxchg (val s) 0 1
     in goto t (if c \<noteq> 0 then Lock_test c else Holding) (s\<lparr>val := v\<rparr>))"

text \<open>\<^verbatim>\<open>if (c == 2 || atomic_cmpxchg(&lock->val, 1, 2) != 0)\<close>\<close>

definition lock_test :: "int \<Rightarrow> tid \<Rightarrow> mstate \<Rightarrow> mstate" where
  "lock_test c t s =
    (if c = 2 then goto t Lock_wait s
     else (let (d, v) = atomic_cmpxchg (val s) 1 2
           in goto t (if d \<noteq> 0 then Lock_wait else Lock_retry) (s\<lparr>val := v\<rparr>)))"

text \<open>\<^verbatim>\<open>futex_wait(&lock->val, 2)\<close>\<close>

definition lock_wait :: "(int \<Rightarrow> int \<Rightarrow> bool) \<Rightarrow> tid \<Rightarrow> mstate \<Rightarrow> mstate" where
  "lock_wait kwait t s = goto t (if kwait (val s) 2 then Lock_asleep else Lock_retry) s"

text \<open>\<^verbatim>\<open>while ((c = atomic_cmpxchg(&lock->val, 0, 2)) != 0)\<close>\<close>

definition lock_retry :: "tid \<Rightarrow> mstate \<Rightarrow> mstate" where
  "lock_retry t s =
    (let (c, v) = atomic_cmpxchg (val s) 0 2
     in goto t (if c \<noteq> 0 then Lock_test c else Holding) (s\<lparr>val := v\<rparr>))"

text \<open>\<^verbatim>\<open>if (!atomic_dec_and_test(&lock->val))\<close>\<close>

definition unlock_dec :: "tid \<Rightarrow> mstate \<Rightarrow> mstate" where
  "unlock_dec t s =
    (let (z, v) = atomic_dec_and_test (val s)
     in goto t (if \<not> z then Unlock_set else Unlock_restore) (s\<lparr>val := v\<rparr>))"

text \<open>\<^verbatim>\<open>atomic_set(&lock->val, 0)\<close>\<close>

definition unlock_set :: "tid \<Rightarrow> mstate \<Rightarrow> mstate" where
  "unlock_set t s = goto t Unlock_wake (s\<lparr>val := 0\<rparr>)"

text \<open>\<^verbatim>\<open>futex_wake(&lock->val, 1)\<close>: the woken threads \<open>W\<close> return from their wait.\<close>

definition unlock_wake :: "tid set \<Rightarrow> tid \<Rightarrow> mstate \<Rightarrow> mstate" where
  "unlock_wake W t s =
    goto t Unlock_restore (s\<lparr>pc := (\<lambda>u. if u \<in> W then Lock_retry else pc s u)\<rparr>)"

text \<open>\<^verbatim>\<open>restore_signals(sigset)\<close>\<close>

definition unlock_restore :: "procmask \<Rightarrow> tid \<Rightarrow> mstate \<Rightarrow> mstate run" where
  "unlock_restore pm t s =
    bindR (restore_signals pm (sigset s t) (procmask s t)) (\<lambda>cur.
      Ok (goto t Outside (s\<lparr>procmask := (procmask s)(t := cur)\<rparr>)))"

definition sleepers :: "mstate \<Rightarrow> tid set" where
  "sleepers s = {t. pc s t = Lock_asleep}"

inductive mutex_step ::
  "procmask \<Rightarrow> (int \<Rightarrow> int \<Rightarrow> bool) \<Rightarrow> (nat \<Rightarrow> tid set \<Rightarrow> tid set \<Rightarrow> bool) \<Rightarrow>
    tid \<Rightarrow> mstate \<Rightarrow> mstate \<Rightarrow> bool"
  for pm kwait kwake where
  do_block: "pc s t = Outside \<Longrightarrow> lock_block pm t s = Ok s' \<Longrightarrow> mutex_step pm kwait kwake t s s'"
| do_try: "pc s t = Lock_try \<Longrightarrow> mutex_step pm kwait kwake t s (lock_try t s)"
| do_test: "pc s t = Lock_test c \<Longrightarrow> mutex_step pm kwait kwake t s (lock_test c t s)"
| do_wait: "pc s t = Lock_wait \<Longrightarrow> mutex_step pm kwait kwake t s (lock_wait kwait t s)"
| do_wakeup: "pc s t = Lock_asleep \<Longrightarrow> mutex_step pm kwait kwake t s (goto t Lock_retry s)"
| do_retry: "pc s t = Lock_retry \<Longrightarrow> mutex_step pm kwait kwake t s (lock_retry t s)"
| do_dec: "pc s t = Holding \<Longrightarrow> mutex_step pm kwait kwake t s (unlock_dec t s)"
| do_set0: "pc s t = Unlock_set \<Longrightarrow> mutex_step pm kwait kwake t s (unlock_set t s)"
| do_wake: "pc s t = Unlock_wake \<Longrightarrow> kwake 1 (sleepers s) W \<Longrightarrow>
    mutex_step pm kwait kwake t s (unlock_wake W t s)"
| do_restore: "pc s t = Unlock_restore \<Longrightarrow> unlock_restore pm t s = Ok s' \<Longrightarrow>
    mutex_step pm kwait kwake t s s'"

inductive_cases mutex_stepE: "mutex_step pm kwait kwake t s s'"

text \<open>The states reached from an unlocked mutex, \<open>masks\<close> being the masks of the threads.\<close>

inductive reachable ::
  "procmask \<Rightarrow> (int \<Rightarrow> int \<Rightarrow> bool) \<Rightarrow> (nat \<Rightarrow> tid set \<Rightarrow> tid set \<Rightarrow> bool) \<Rightarrow>
    (tid \<Rightarrow> sigset) \<Rightarrow> mstate \<Rightarrow> bool"
  for pm kwait kwake masks where
  start: "(\<forall>t. pc s t = Outside) \<Longrightarrow> procmask s = masks \<Longrightarrow>
    reachable pm kwait kwake masks (xmutex_init s)"
| step: "reachable pm kwait kwake masks s \<Longrightarrow> mutex_step pm kwait kwake t s s' \<Longrightarrow>
    reachable pm kwait kwake masks s'"

subsection \<open>Documented behaviour of the futex calls\<close>

definition futex_spec ::
  "(int \<Rightarrow> int \<Rightarrow> bool) \<Rightarrow> (nat \<Rightarrow> tid set \<Rightarrow> tid set \<Rightarrow> bool) \<Rightarrow> bool" where
  "futex_spec kwait kwake \<longleftrightarrow>
    (\<forall>v e. kwait v e \<longrightarrow> v = e) \<and>
    (\<forall>nr S W. kwake nr S W \<longrightarrow> W \<subseteq> S \<and> finite W \<and> card W \<le> nr \<and> (0 < nr \<and> S \<noteq> {} \<longrightarrow> W \<noteq> {})) \<and>
    (\<forall>nr S. \<exists>W. kwake nr S W)"

subsection \<open>Invariants\<close>

definition owns :: "point \<Rightarrow> bool" where
  "owns p \<longleftrightarrow> p = Holding \<or> p = Unlock_set"

text \<open>Points from which a thread will look at the mutex again or is about to wake a sleeper.\<close>

definition active :: "point \<Rightarrow> bool" where
  "active p \<longleftrightarrow> p \<in> {Lock_wait, Lock_retry, Unlock_set, Unlock_wake} \<or> (\<exists>c. p = Lock_test c)"

definition lock_inv :: "mstate \<Rightarrow> bool" where
  "lock_inv s \<longleftrightarrow> val s \<in> {0, 1, 2}
    \<and> (\<forall>t u. owns (pc s t) \<and> owns (pc s u) \<longrightarrow> t = u)
    \<and> (val s = 0 \<longleftrightarrow> (\<forall>t. \<not> owns (pc s t)))"

definition wake_inv :: "mstate \<Rightarrow> bool" where
  "wake_inv s \<longleftrightarrow> (sleepers s \<noteq> {} \<longrightarrow> val s = 2 \<or> (\<exists>t. active (pc s t)))"

definition mask_inv :: "(tid \<Rightarrow> sigset) \<Rightarrow> mstate \<Rightarrow> bool" where
  "mask_inv masks s \<longleftrightarrow> (\<forall>t. if pc s t = Outside then kernel_sane (procmask s t) = kernel_sane (masks t)
    else kernel_sane (sigset s t) = kernel_sane (masks t) \<and> procmask s t = RECORD_PROCMASK)"

lemmas step_defs = lock_block_def lock_try_def lock_test_def lock_wait_def lock_retry_def
  unlock_dec_def unlock_set_def unlock_wake_def unlock_restore_def goto_def
  atomic_cmpxchg_def atomic_dec_and_test_def Let_def

lemma lock_block_frame:
  "lock_block pm t s = Ok s' \<Longrightarrow> val s' = val s \<and> pc s' = (pc s)(t := Lock_try)"
  by (auto simp: step_defs run_simps)

lemma unlock_restore_frame:
  "unlock_restore pm t s = Ok s' \<Longrightarrow> val s' = val s \<and> pc s' = (pc s)(t := Outside)"
  by (auto simp: step_defs run_simps)

lemma woken_asleep:
  assumes "futex_spec kwait kwake" "kwake 1 (sleepers s) W"
  shows "\<forall>u\<in>W. pc s u = Lock_asleep" "sleepers s \<noteq> {} \<longrightarrow> W \<noteq> {}"
proof -
  have "W \<subseteq> sleepers s \<and> (0 < (1 :: nat) \<and> sleepers s \<noteq> {} \<longrightarrow> W \<noteq> {})"
    using assms(1) [unfolded futex_spec_def, THEN conjunct2, THEN conjunct1, rule_format, OF assms(2)]
    by simp
  then show "\<forall>u\<in>W. pc s u = Lock_asleep" "sleepers s \<noteq> {} \<longrightarrow> W \<noteq> {}"
    by (auto simp: sleepers_def)
qed

lemma lock_inv_keep:
  assumes "lock_inv s" "\<forall>u. owns (pc s' u) \<longleftrightarrow> owns (pc s u)"
    "val s' \<in> {0, 1, 2}" "val s' = 0 \<longleftrightarrow> val s = 0"
  shows "lock_inv s'"
  using assms unfolding lock_inv_def by presburger

lemma lock_inv_local:
  assumes "lock_inv s" "\<forall>u. u \<noteq> t \<longrightarrow> pc s' u = pc s u" "owns (pc s' t) \<longleftrightarrow> owns (pc s t)"
    "val s' \<in> {0, 1, 2}" "val s' = 0 \<longleftrightarrow> val s = 0"
  shows "lock_inv s'"
  using assms(2-5) by (intro lock_inv_keep [OF assms(1)]) metis+

lemma lock_inv_acquire:
  assumes "lock_inv s" "val s = 0" "\<forall>u. u \<noteq> t \<longrightarrow> pc s' u = pc s u"
    "owns (pc s' t)" "val s' \<in> {1, 2}"
  shows "lock_inv s'"
proof -
  have "owns (pc s' u) \<longleftrightarrow> u = t" for u
    using assms unfolding lock_inv_def by metis
  then show ?thesis using assms(5) unfolding lock_inv_def by auto
qed

lemma lock_inv_release:
  assumes "lock_inv s" "owns (pc s t)" "\<forall>u. u \<noteq> t \<longrightarrow> pc s' u = pc s u"
    "\<not> owns (pc s' t)" "val s' = 0"
  shows "lock_inv s'"
proof -
  have "\<not> owns (pc s' u)" for u
    using assms unfolding lock_inv_def by metis
  then show ?thesis using assms(5) unfolding lock_inv_def by auto
qed

lemma lock_inv_val: "lock_inv s \<Longrightarrow> val s \<in> {0, 1, 2}"
  unfolding lock_inv_def by (rule conjunct1)

lemma lock_inv_owner: "lock_inv s \<Longrightarrow> owns (pc s t) \<Longrightarrow> val s = 1 \<or> val s = 2"
  unfolding lock_inv_def by blast

lemma lock_inv_step:
  assumes "mutex_step pm kwait kwake t s s'" "futex_spec kwait kwake" "lock_inv s"
  shows "lock_inv s'"
  using assms(1)
proof (cases rule: mutex_step.cases)
  case do_block
  with lock_inv_val [OF assms(3)] lock_block_frame [OF do_block(2)] show ?thesis
    by (intro lock_inv_local [OF assms(3), of t]) (simp_all add: owns_def)
next
  case do_try
  show ?thesis
  proof (cases "val s = 0")
    case True
    with do_try show ?thesis
      by (intro lock_inv_acquire [OF assms(3), of t]) (simp_all add: owns_def step_defs)
  next
    case False
    with do_try lock_inv_val [OF assms(3)] show ?thesis
      by (intro lock_inv_local [OF assms(3), of t]) (simp_all add: owns_def step_defs)
  qed
next
  case do_retry
  show ?thesis
  proof (cases "val s = 0")
    case True
    with do_retry show ?thesis
      by (intro lock_inv_acquire [OF assms(3), of t]) (simp_all add: owns_def step_defs)
  next
    case False
    with do_retry lock_inv_val [OF assms(3)] show ?thesis
      by (intro lock_inv_local [OF assms(3), of t]) (simp_all add: owns_def step_defs)
  qed
next
  case do_dec
  then have "val s = 1 \<or> val s = 2"
    using lock_inv_owner [OF assms(3), of t] by (simp add: owns_def)
  then show ?thesis
  proof
    assume "val s = 1"
    with do_dec show ?thesis
      by (intro lock_inv_release [OF assms(3), of t]) (simp_all add: owns_def step_defs)
  next
    assume "val s = 2"
    with do_dec show ?thesis
      by (intro lock_inv_local [OF assms(3), of t]) (simp_all add: owns_def step_defs)
  qed
next
  case do_set0
  then show ?thesis
    by (intro lock_inv_release [OF assms(3), of t]) (simp_all add: owns_def step_defs)
next
  case (do_wake W)
  from woken_asleep(1) [OF assms(2) do_wake(3)] lock_inv_val [OF assms(3)] show ?thesis using do_wake
    by (intro lock_inv_keep [OF assms(3)]) (auto simp: owns_def step_defs)
next
  case do_restore
  with lock_inv_val [OF assms(3)] unlock_restore_frame [OF do_restore(2)] show ?thesis
    by (intro lock_inv_local [OF assms(3), of t]) (simp_all add: owns_def)
next
  case (do_test c)
  with lock_inv_val [OF assms(3)] show ?thesis
    by (intro lock_inv_local [OF assms(3), of t]) (auto simp: owns_def step_defs)
next
  case do_wait
  with lock_inv_val [OF assms(3)] show ?thesis
    by (intro lock_inv_local [OF assms(3), of t]) (auto simp: owns_def step_defs)
next
  case do_wakeup
  with lock_inv_val [OF assms(3)] show ?thesis
    by (intro lock_inv_local [OF assms(3), of t]) (simp_all add: owns_def step_defs)
qed

lemma wake_inv_active: "active (pc s' t) \<Longrightarrow> wake_inv s'"
  unfolding wake_inv_def by blast

lemma wake_inv_two: "val s' = 2 \<Longrightarrow> wake_inv s'"
  unfolding wake_inv_def by blast

lemma wake_inv_keep:
  assumes "wake_inv s" "\<forall>u. u \<noteq> t \<longrightarrow> pc s' u = pc s u" "\<not> active (pc s t)"
    "pc s' t \<noteq> Lock_asleep" "val s = 2 \<longrightarrow> val s' = 2"
  shows "wake_inv s'"
  unfolding wake_inv_def
proof
  assume "sleepers s' \<noteq> {}"
  then obtain u where "pc s' u = Lock_asleep" by (auto simp: sleepers_def)
  with assms(2,4) have "pc s u = Lock_asleep" by metis
  then have "sleepers s \<noteq> {}" by (auto simp: sleepers_def)
  with assms(1) consider "val s = 2" | w where "active (pc s w)" unfolding wake_inv_def by blast
  then show "val s' = 2 \<or> (\<exists>t. active (pc s' t))"
    using assms(2,3,5) by cases metis+
qed

lemma wake_inv_step:
  assumes "mutex_step pm kwait kwake t s s'" "futex_spec kwait kwake" "wake_inv s"
  shows "wake_inv s'"
  using assms(1)
proof (cases rule: mutex_step.cases)
  case do_block
  with lock_block_frame [OF do_block(2)] show ?thesis
    by (intro wake_inv_keep [OF assms(3), of t]) (simp_all add: active_def)
next
  case do_try
  show ?thesis
  proof (cases "val s = 0")
    case True
    with do_try show ?thesis
      by (intro wake_inv_keep [OF assms(3), of t]) (simp_all add: active_def step_defs)
  qed (simp add: do_try(1) wake_inv_active [of _ t] active_def step_defs)
next
  case (do_wait)
  then show ?thesis
    using assms(2) wake_inv_two wake_inv_active [of s' t]
    by (auto simp: active_def step_defs futex_spec_def)
next
  case do_retry
  then show ?thesis
    using wake_inv_two wake_inv_active [of s' t] by (auto simp: active_def step_defs)
next
  case do_dec
  show ?thesis
  proof (cases "val s = 1")
    case True
    with do_dec show ?thesis
      by (intro wake_inv_keep [OF assms(3), of t]) (simp_all add: active_def step_defs)
  qed (simp add: do_dec(1) wake_inv_active [of _ t] active_def step_defs)
next
  case (do_wake W)
  note W = woken_asleep [OF assms(2) do_wake(3)]
  show ?thesis
  proof (cases "W = {}")
    case True
    with W(2) show ?thesis
      by (auto simp: do_wake(1) wake_inv_def sleepers_def step_defs)
  next
    case False
    then obtain w where "w \<in> W" "w \<noteq> t" using W(1) do_wake(2) by fastforce
    then show ?thesis
      by (intro wake_inv_active [of _ w]) (simp add: do_wake(1) active_def step_defs)
  qed
next
  case do_restore
  with unlock_restore_frame [OF do_restore(2)] show ?thesis
    by (intro wake_inv_keep [OF assms(3), of t]) (simp_all add: active_def)
qed (rule wake_inv_active [of _ t]; simp add: active_def step_defs)+

lemma mask_inv_keep:
  assumes "mask_inv masks s" "\<forall>u. pc s' u = Outside \<longleftrightarrow> pc s u = Outside"
    "sigset s' = sigset s" "procmask s' = procmask s"
  shows "mask_inv masks s'"
  using assms by (simp add: mask_inv_def)

lemma mask_inv_step:
  assumes "mutex_step pm kwait kwake t s s'" "futex_spec kwait kwake" "sigprocmask_spec pm"
    "mask_inv masks s"
  shows "mask_inv masks s'"
  using assms(1)
proof (cases rule: mutex_step.cases)
  case do_block
  with assms(3,4) show ?thesis
    by (auto simp: mask_inv_def step_defs block_signals_Ok)
next
  case (do_wake W)
  from woken_asleep(1) [OF assms(2) do_wake(3)] show ?thesis using do_wake
    by (intro mask_inv_keep [OF assms(4)]) (auto simp: step_defs)
next
  case do_restore
  with assms(3,4) show ?thesis
    by (auto simp: mask_inv_def step_defs restore_signals_Ok split: if_split_asm)
qed (rule mask_inv_keep [OF assms(4)]; simp add: step_defs)+

lemma reachable_inv:
  assumes "reachable pm kwait kwake masks s" "futex_spec kwait kwake"
  shows "lock_inv s \<and> wake_inv s"
  using assms(1)
proof (induction rule: reachable.induct)
  case (start s)
  then show ?case
    by (simp add: lock_inv_def wake_inv_def owns_def sleepers_def xmutex_init_def)
next
  case (step s t s')
  then show ?case using lock_inv_step wake_inv_step assms(2) by blast
qed

lemma reachable_masks:
  assumes "reachable pm kwait kwake masks s" "futex_spec kwait kwake" "sigprocmask_spec pm"
  shows "mask_inv masks s"
  using assms(1)
proof (induction rule: reachable.induct)
  case (start s)
  then show ?case by (simp add: mask_inv_def xmutex_init_def)
next
  case (step s t s')
  then show ?case using mask_inv_step assms(2,3) by blast
qed

lemma can_step:
  assumes "futex_spec kwait kwake" "owns (pc s u) \<or> active (pc s u)"
  shows "\<exists>s'. mutex_step pm kwait kwake u s s'"
proof -
  obtain W where "kwake 1 (sleepers s) W" using assms(1) unfolding futex_spec_def by blast
  then show ?thesis
    using assms(2) unfolding owns_def active_def
    by (auto intro: mutex_step.intros simp del: One_nat_def)
qed

subsection \<open>A contended run\<close>

text \<open>
  A kernel that behaves as documented, and the run in which thread 0 takes the mutex and
  thread 1 then finds it taken, marks it as contended and goes to sleep.
\<close>

definition demo_pm :: "sigset \<Rightarrow> sigset \<Rightarrow> int \<times> sigset" where
  "demo_pm cur new = (0, kernel_sane new)"

definition demo_kwake :: "nat \<Rightarrow> tid set \<Rightarrow> tid set \<Rightarrow> bool" where
  "demo_kwake nr S W \<longleftrightarrow>
    W \<subseteq> S \<and> finite W \<and> card W \<le> nr \<and> (0 < nr \<and> S \<noteq> {} \<longrightarrow> W \<noteq> {})"

definition demo_masks :: "tid \<Rightarrow> sigset" where
  "demo_masks t = \<lparr>sig0 = 0, sig1 = 0\<rparr>"

definition demo_state :: "int \<Rightarrow> point \<Rightarrow> point \<Rightarrow> mstate" where
  "demo_state v p q = \<lparr>val = v, pc = (\<lambda>_. Outside)(0 := p, 1 := q),
    sigset = demo_masks,
    procmask = demo_masks(0 := if p = Outside then demo_masks 0 else RECORD_PROCMASK,
      1 := if q = Outside then demo_masks 1 else RECORD_PROCMASK)\<rparr>"

lemma demo_pm_spec: "sigprocmask_spec demo_pm"
  by (simp add: sigprocmask_spec_def demo_pm_def)

lemma demo_futex_spec: "futex_spec (=) demo_kwake"
proof -
  have "\<exists>W. demo_kwake nr S W" for nr S
  proof (cases "nr = 0 \<or> S = {}")
    case True
    then show ?thesis by (intro exI [of _ "{}"]) (auto simp: demo_kwake_def)
  next
    case False
    then obtain x where "x \<in> S" by blast
    with False show ?thesis by (intro exI [of _ "{x}"]) (auto simp: demo_kwake_def)
  qed
  then show ?thesis by (simp add: futex_spec_def demo_kwake_def)
qed

lemma demo_reachable: "reachable demo_pm (=) demo_kwake demo_masks (demo_state 2 Holding Lock_asleep)"
proof -
  let ?R = "reachable demo_pm (=) demo_kwake demo_masks"
  note simps = demo_state_def step_defs block_signals_Ok [OF demo_pm_spec] demo_masks_def
    fun_upd_def fun_eq_iff
  have block: "?R s \<Longrightarrow> lock_block demo_pm t s = Ok s' \<Longrightarrow> pc s t = Outside \<Longrightarrow> ?R s'" for s t s'
    by (rule reachable.step [OF _ mutex_step.do_block])
  have "?R (xmutex_init (demo_state 2 Outside Outside))"
    by (rule reachable.start) (auto simp: simps)
  then have "?R (demo_state 0 Outside Outside)"
    by (simp add: xmutex_init_def demo_state_def)
  moreover have "lock_block demo_pm 0 (demo_state 0 Outside Outside) = Ok (demo_state 0 Lock_try Outside)"
    by (simp add: simps)
  ultimately have "?R (demo_state 0 Lock_try Outside)"
    by (rule block) (simp add: demo_state_def)
  then have "?R (lock_try 0 (demo_state 0 Lock_try Outside))"
    by (rule reachable.step [OF _ mutex_step.do_try]) (simp add: demo_state_def)
  moreover have "lock_try 0 (demo_state 0 Lock_try Outside) = demo_state 1 Holding Outside"
    by (simp add: simps)
  ultimately have "?R (demo_state 1 Holding Outside)" by simp
  moreover have "lock_block demo_pm 1 (demo_state 1 Holding Outside) = Ok (demo_state 1 Holding Lock_try)"
    by (simp add: simps)
  ultimately have "?R (demo_state 1 Holding Lock_try)"
    by (rule block) (simp add: demo_state_def)
  then have "?R (lock_try 1 (demo_state 1 Holding Lock_try))"
    by (rule reachable.step [OF _ mutex_step.do_try]) (simp add: demo_state_def)
  moreover have "lock_try 1 (demo_state 1 Holding Lock_try) = demo_state 1 Holding (Lock_test 1)"
    by (simp add: simps)
  ultimately have "?R (lock_test 1 1 (demo_state 1 Holding (Lock_test 1)))"
    by (intro reachable.step [OF _ mutex_step.do_test]) (simp_all add: demo_state_def)
  moreover have "lock_test 1 1 (demo_state 1 Holding (Lock_test 1)) = demo_state 2 Holding Lock_wait"
    by (simp add: simps)
  ultimately have "?R (lock_wait (=) 1 (demo_state 2 Holding Lock_wait))"
    by (intro reachable.step [OF _ mutex_step.do_wait]) (simp_all add: demo_state_def)
  moreover have "lock_wait (=) 1 (demo_state 2 Holding Lock_wait) = demo_state 2 Holding Lock_asleep"
    by (simp add: simps)
  ultimately show ?thesis by simp
qed

subsection \<open>Properties\<close>

text \<open>
  C7.  Mutual exclusion: however the threads interleave, at most one of them is between the
  return of \<^verbatim>\<open>xmutex_lock\<close> and the point where \<^verbatim>\<open>xmutex_unlock\<close> frees
  the word, and the word is non-zero exactly while there is such a thread.
\<close>

theorem mutex_exclusion:
  assumes "reachable pm kwait kwake masks s" "futex_spec kwait kwake"
  shows "(\<exists>t. {u. owns (pc s u)} \<subseteq> {t}) \<and> (xmutex_is_locked s \<longleftrightarrow> {u. owns (pc s u)} \<noteq> {})"
proof -
  have inv: "lock_inv s" using reachable_inv [OF assms] by simp
  then have "\<exists>t. {u. owns (pc s u)} \<subseteq> {t}" unfolding lock_inv_def by blast
  moreover have "xmutex_is_locked s \<longleftrightarrow> {u. owns (pc s u)} \<noteq> {}"
    using inv unfolding lock_inv_def xmutex_is_locked_def by blast
  ultimately show ?thesis by blast
qed

theorem mutex_exclusion_witness:
  "(\<exists>t. {u. owns (pc (demo_state 2 Holding Lock_asleep) u)} \<subseteq> {t})
    \<and> xmutex_is_locked (demo_state 2 Holding Lock_asleep)"
  using mutex_exclusion [OF demo_reachable demo_futex_spec]
  by (auto simp: xmutex_is_locked_def demo_state_def)



text \<open>
  C17.  Signals stay masked from the entry of \<^verbatim>\<open>xmutex_lock\<close> to the end of
  \<^verbatim>\<open>xmutex_unlock\<close>, and a thread outside both runs with the mask it started with
  (up to SIGKILL and SIGSTOP, which the kernel never masks).
\<close>

theorem mutex_masks_signals:
  assumes "reachable pm kwait kwake masks s" "futex_spec kwait kwake" "sigprocmask_spec pm"
  shows "if pc s t = Outside then kernel_sane (procmask s t) = kernel_sane (masks t)
    else procmask s t = RECORD_PROCMASK \<and> kernel_sane (sigset s t) = kernel_sane (masks t)"
  using reachable_masks [OF assms] unfolding mask_inv_def by (auto split: if_split_asm)

theorem mutex_masks_signals_witness:
  "procmask (demo_state 2 Holding Lock_asleep) 0 = RECORD_PROCMASK"
  using mutex_masks_signals [OF demo_reachable demo_futex_spec demo_pm_spec, of 0]
  by (simp add: demo_state_def)

end
