(* ===== verification/Mm.thy ===== *)
theory Mm
  imports Bithacks
begin

text \<open>
  Page and object allocation (\<^verbatim>\<open>src/core/loader/mm.c\<close>,
  \<^verbatim>\<open>src/core/loader/mm.h\<close>).  Objects are carved from 32 MB buckets by moving a
  pointer; buckets come from \<^verbatim>\<open>mmap\<close> and go back only when the whole allocator is
  cleaned.  A bucket header lives at the start of its own bucket, so a pointer to it is its
  \<open>buk_addr\<close>, and 0 is the null pointer; the bucket list is the linked list
  \<^verbatim>\<open>buk_list\<close> in order.

  The kernel is a parameter: \<open>mmap\<close> and \<open>munmap\<close> take and return the set of mapped
  byte addresses.  What the code relies on is \<open>mmap_spec\<close> and \<open>munmap_spec\<close>.
\<close>

type_synonym vm = "nat set"
type_synonym mmap = "vm \<Rightarrow> u32 \<Rightarrow> u32 \<Rightarrow> u32 \<times> vm" \<comment> \<open>length, protection\<close>
type_synonym munmap = "vm \<Rightarrow> u32 \<Rightarrow> u32 \<Rightarrow> int \<times> vm" \<comment> \<open>address, length\<close>

definition PAGE_SIZE :: u32 where "PAGE_SIZE = 4096"
definition PROT_READ :: u32 where "PROT_READ = 1"
definition PROT_WRITE :: u32 where "PROT_WRITE = 2"
definition PROT_EXEC :: u32 where "PROT_EXEC = 4"

definition is_valid_page :: "u32 \<Rightarrow> bool" where
  "is_valid_page p \<longleftrightarrow> p AND (PAGE_SIZE - 1) = 0"

definition is_valid_ptr :: "u32 \<Rightarrow> bool" where
  "is_valid_ptr p \<longleftrightarrow> 0x1000 < p"

subsection \<open>Pages\<close>

definition xalloc_pages :: "mmap \<Rightarrow> u32 \<Rightarrow> bool \<Rightarrow> vm \<Rightarrow> (u32 \<times> vm) run" where
  "xalloc_pages mmap sz exec k =
    bindR (assert_that (0 < sz)) (\<lambda>_.
      let sz = ALIGN_UP sz PAGE_SIZE;
          prot = PROT_READ OR PROT_WRITE;
          prot = (if exec then prot OR PROT_EXEC else prot);
          (ptr, k') = mmap k sz prot
      in bindR (assert_that (is_valid_page ptr)) (\<lambda>_. Ok (ptr, k')))"

definition xdealloc_pages :: "munmap \<Rightarrow> u32 \<Rightarrow> u32 \<Rightarrow> vm \<Rightarrow> vm run" where
  "xdealloc_pages munmap ptr sz k =
    bindR (assert_that (is_valid_page ptr)) (\<lambda>_.
      let sz = ALIGN_UP sz PAGE_SIZE;
          (err, k') = munmap k ptr sz
      in bindR (assert_that (err = 0)) (\<lambda>_. Ok k'))"

subsection \<open>Buckets\<close>

definition OBJ_BUCKET_SIZE :: u32 where
  "OBJ_BUCKET_SIZE = 32 * push_bit 20 1"

text \<open>\<^verbatim>\<open>sizeof(struct obj_buk_head)\<close>: two list pointers, three pointers, two sizes.\<close>

definition sizeof_obj_buk_head :: u32 where
  "sizeof_obj_buk_head = 28"

definition MAX_AVAL_OBJ_SIZE :: u32 where
  "MAX_AVAL_OBJ_SIZE = OBJ_BUCKET_SIZE - sizeof_obj_buk_head"

record obj_buk_head =
  buk_addr :: u32
  buk_end :: u32
  cur_ptr :: u32
  total_size :: u32
  aval_size :: u32

record obj_mm_tpd_stub =
  buk_list :: "obj_buk_head list"
  cur_buk :: u32
  executable :: bool

definition get_buk :: "obj_buk_head list \<Rightarrow> u32 \<Rightarrow> obj_buk_head run" where
  "get_buk bs p = (case List.find (\<lambda>b. buk_addr b = p) bs of None \<Rightarrow> Stop Segv | Some b \<Rightarrow> Ok b)"

definition put_buk :: "obj_buk_head \<Rightarrow> obj_buk_head list \<Rightarrow> obj_buk_head list" where
  "put_buk b bs = map (\<lambda>c. if buk_addr c = buk_addr b then b else c) bs"

definition alloc_obj_buk :: "mmap \<Rightarrow> bool \<Rightarrow> vm \<Rightarrow> (obj_buk_head \<times> vm) run" where
  "alloc_obj_buk mmap exec k =
    bindR (xalloc_pages mmap OBJ_BUCKET_SIZE exec k) (\<lambda>(mem, k').
      bindR (assert_that (mem \<noteq> 0)) (\<lambda>_.
        let cur_ptr = mem + sizeof_obj_buk_head;
            buk_end = mem + OBJ_BUCKET_SIZE;
            total_size = buk_end - cur_ptr
        in Ok (\<lparr>buk_addr = mem, buk_end = buk_end, cur_ptr = cur_ptr,
                total_size = total_size, aval_size = total_size\<rparr>, k')))"

definition free_obj_buk :: "munmap \<Rightarrow> obj_buk_head \<Rightarrow> vm \<Rightarrow> vm run" where
  "free_obj_buk munmap buk k =
    bindR (assert_that (buk_addr buk \<noteq> 0)) (\<lambda>_. xdealloc_pages munmap (buk_addr buk) OBJ_BUCKET_SIZE k)"

definition init_mm_obj :: "bool \<Rightarrow> obj_mm_tpd_stub" where
  "init_mm_obj exec = \<lparr>buk_list = [], cur_buk = 0, executable = exec\<rparr>"

fun free_buks :: "munmap \<Rightarrow> obj_buk_head list \<Rightarrow> vm \<Rightarrow> vm run" where
  "free_buks munmap [] k = Ok k"
| "free_buks munmap (buk # bs) k =
    bindR (free_obj_buk munmap buk k) (\<lambda>k'. free_buks munmap bs k')"

definition clean_mm_obj :: "munmap \<Rightarrow> obj_mm_tpd_stub \<Rightarrow> vm \<Rightarrow> (obj_mm_tpd_stub \<times> vm) run" where
  "clean_mm_obj munmap objmm k =
    bindR (free_buks munmap (buk_list objmm) k) (\<lambda>k'.
      Ok (\<lparr>buk_list = [], cur_buk = 0, executable = False\<rparr>, k'))"

text \<open>The pointer is 0 when the bucket is null or has too little room left.\<close>

definition alloc_from_buk ::
  "obj_buk_head list \<Rightarrow> u32 \<Rightarrow> u32 \<Rightarrow> (u32 \<times> obj_buk_head list) run" where
  "alloc_from_buk bs buk sz =
    (if buk = 0 then Ok (0, bs)
     else bindR (get_buk bs buk) (\<lambda>b.
       if aval_size b < sz then Ok (0, bs)
       else
         let ptr = cur_ptr b;
             b = b\<lparr>cur_ptr := cur_ptr b + sz\<rparr>
         in bindR (assert_that (cur_ptr b < buk_end b)) (\<lambda>_.
              Ok (ptr, put_buk (b\<lparr>aval_size := aval_size b - sz\<rparr>) bs))))"

text \<open>The loop that looks for the bucket with most room: its pointer and the room.\<close>

fun find_max_buk :: "obj_buk_head list \<Rightarrow> u32 \<times> u32 \<Rightarrow> u32 \<times> u32" where
  "find_max_buk [] acc = acc"
| "find_max_buk (buk # bs) (max_buk, max_aval) =
    find_max_buk bs (if max_aval < aval_size buk then (buk_addr buk, aval_size buk)
                     else (max_buk, max_aval))"

definition alloc_obj ::
  "mmap \<Rightarrow> obj_mm_tpd_stub \<Rightarrow> u32 \<Rightarrow> vm \<Rightarrow> (u32 \<times> obj_mm_tpd_stub \<times> vm) run" where
  "alloc_obj mmap objmm sz k =
    (if MAX_AVAL_OBJ_SIZE \<le> sz then Stop Fatal
     else bindR (assert_that (0 < sz)) (\<lambda>_.
       let cur = cur_buk objmm
       in bindR (alloc_from_buk (buk_list objmm) cur sz) (\<lambda>(ptr, bs).
         if ptr \<noteq> 0 then Ok (ptr, objmm\<lparr>buk_list := bs\<rparr>, k)
         else
           let (max_buk, max_aval) = find_max_buk bs (0, 0)
           in if max_buk \<noteq> 0 \<and> max_buk \<noteq> cur \<and> sz < max_aval then
                bindR (alloc_from_buk bs max_buk sz) (\<lambda>(ptr, bs).
                bindR (assert_that (ptr \<noteq> 0)) (\<lambda>_.
                bindR (get_buk bs max_buk) (\<lambda>m.
                bindR (get_buk bs cur) (\<lambda>c.
                  Ok (ptr, objmm\<lparr>buk_list := bs,
                        cur_buk := (if aval_size c < aval_size m then max_buk else cur)\<rparr>, k)))))
              else
                bindR (alloc_obj_buk mmap (executable objmm) k) (\<lambda>(new, k').
                let bs = new # bs
                in bindR (alloc_from_buk bs (buk_addr new) sz) (\<lambda>(ptr, bs).
                bindR (assert_that (ptr \<noteq> 0)) (\<lambda>_.
                bindR (get_buk bs (buk_addr new)) (\<lambda>n.
                bindR (if max_buk = 0 then Ok (buk_addr new)
                       else bindR (get_buk bs max_buk) (\<lambda>m.
                         Ok (if aval_size m < aval_size n then buk_addr new else max_buk))) (\<lambda>max_buk.
                bindR (assert_that (max_buk \<noteq> 0)) (\<lambda>_.
                  Ok (ptr, objmm\<lparr>buk_list := bs, cur_buk := max_buk\<rparr>, k'))))))))))"

subsection \<open>Documented behaviour of the kernel\<close>

definition bytes :: "u32 \<Rightarrow> u32 \<Rightarrow> nat set" where
  "bytes a n = {unat a ..< unat a + unat n}"

text \<open>
  A successful \<^verbatim>\<open>mmap\<close> returns fresh memory that ends below the top of the address
  space; a failed one returns an error code, which is not the address of a page.
\<close>

definition mmap_spec :: "mmap \<Rightarrow> bool" where
  "mmap_spec mmap \<longleftrightarrow> (\<forall>k len prot a k'. mmap k len prot = (a, k') \<and> is_valid_page a \<longrightarrow>
    unat a + unat len < 2 ^ 32 \<and> bytes a len \<inter> k = {} \<and> k' = k \<union> bytes a len)"

definition munmap_spec :: "munmap \<Rightarrow> bool" where
  "munmap_spec munmap \<longleftrightarrow> (\<forall>k a len. is_valid_page a \<longrightarrow> munmap k a len = (0, k - bytes a len))"

subsection \<open>Invariant\<close>

definition buk_ok :: "obj_buk_head \<Rightarrow> bool" where
  "buk_ok b \<longleftrightarrow> buk_addr b \<noteq> 0 \<and> is_valid_page (buk_addr b)
    \<and> unat (buk_addr b) + 2 ^ 25 < 2 ^ 32
    \<and> buk_end b = buk_addr b + OBJ_BUCKET_SIZE
    \<and> unat (buk_addr b) + 28 \<le> unat (cur_ptr b)
    \<and> unat (cur_ptr b) + unat (aval_size b) = unat (buk_addr b) + 2 ^ 25
    \<and> 0 < aval_size b"

definition buks_inv :: "obj_buk_head list \<Rightarrow> vm \<Rightarrow> bool" where
  "buks_inv bs k \<longleftrightarrow> (\<forall>b\<in>set bs. buk_ok b \<and> bytes (buk_addr b) OBJ_BUCKET_SIZE \<subseteq> k)
    \<and> sorted_wrt (\<lambda>p q. bytes p OBJ_BUCKET_SIZE \<inter> bytes q OBJ_BUCKET_SIZE = {}) (map buk_addr bs)"

text \<open>Objects handed out, as address and size: each lies in the used part of a bucket.\<close>

type_synonym obj = "u32 \<times> u32"

definition in_buk :: "obj \<Rightarrow> obj_buk_head \<Rightarrow> bool" where
  "in_buk ob b \<longleftrightarrow> unat (buk_addr b) + 28 \<le> unat (fst ob)
    \<and> unat (fst ob) + unat (snd ob) \<le> unat (cur_ptr b)"

definition objs_inv :: "obj list \<Rightarrow> obj_buk_head list \<Rightarrow> bool" where
  "objs_inv objs bs \<longleftrightarrow> (\<forall>ob\<in>set objs. 0 < snd ob) \<and> (\<forall>ob\<in>set objs. \<exists>b\<in>set bs. in_buk ob b)
    \<and> sorted_wrt (\<lambda>p q. bytes (fst p) (snd p) \<inter> bytes (fst q) (snd q) = {}) objs"

definition mm_inv :: "obj_mm_tpd_stub \<Rightarrow> vm \<Rightarrow> obj list \<Rightarrow> bool" where
  "mm_inv objmm k objs \<longleftrightarrow> buks_inv (buk_list objmm) k \<and> objs_inv objs (buk_list objmm)
    \<and> (if buk_list objmm = [] then cur_buk objmm = 0 else cur_buk objmm \<in> buk_addr ` set (buk_list objmm))"

subsection \<open>Lemmas on bucket lists\<close>

lemma unat_bucket_size [simp]: "unat OBJ_BUCKET_SIZE = 2 ^ 25"
  by (simp add: OBJ_BUCKET_SIZE_def)

lemma buk_bytes_nonempty: "unat a \<in> bytes a OBJ_BUCKET_SIZE"
  by (simp add: bytes_def)

lemma buks_distinct: "buks_inv bs k \<Longrightarrow> distinct (map buk_addr bs)"
proof -
  assume "buks_inv bs k"
  then have "sorted_wrt (\<lambda>p q. bytes p OBJ_BUCKET_SIZE \<inter> bytes q OBJ_BUCKET_SIZE = {}) (map buk_addr bs)"
    by (simp add: buks_inv_def)
  then have "sorted_wrt (\<noteq>) (map buk_addr bs)"
    by (rule sorted_wrt_mono_rel [rotated]) (use buk_bytes_nonempty in blast)
  then show ?thesis by (rule sorted_wrt_neq_distinct)
qed

lemma get_buk_mem:
  assumes "distinct (map buk_addr bs)" "b \<in> set bs"
  shows "get_buk bs (buk_addr b) = Ok b"
  using assms by (induction bs) (auto simp: get_buk_def)

lemma buk_addr_nonzero: "buks_inv bs k \<Longrightarrow> b \<in> set bs \<Longrightarrow> buk_addr b \<noteq> 0"
  by (simp add: buks_inv_def buk_ok_def)

lemma put_buk_mem:
  assumes "b \<in> set bs" "buk_addr b' = buk_addr b"
  shows "b' \<in> set (put_buk b' bs)"
  using assms by (auto simp: put_buk_def image_iff)

lemma put_buk_addrs [simp]: "map buk_addr (put_buk b bs) = map buk_addr bs"
  by (simp add: put_buk_def)

lemma buk_addr_put_buk [simp]: "buk_addr ` set (put_buk b bs) = buk_addr ` set bs"
  by (metis list.set_map put_buk_addrs)

lemma put_buk_Nil_iff [simp]: "put_buk b bs = [] \<longleftrightarrow> bs = []"
  by (simp add: put_buk_def)

lemma put_buk_inv:
  assumes "buks_inv bs k" "b \<in> set bs" "buk_addr b' = buk_addr b" "buk_ok b'"
  shows "buks_inv (put_buk b' bs) k"
proof -
  have "\<forall>c\<in>set (put_buk b' bs). buk_ok c \<and> bytes (buk_addr c) OBJ_BUCKET_SIZE \<subseteq> k"
  proof
    fix c assume "c \<in> set (put_buk b' bs)"
    then have "c = b' \<or> c \<in> set bs" by (auto simp: put_buk_def split: if_splits)
    moreover have "bytes (buk_addr b') OBJ_BUCKET_SIZE \<subseteq> k"
      using assms(1-3) by (simp add: buks_inv_def)
    ultimately show "buk_ok c \<and> bytes (buk_addr c) OBJ_BUCKET_SIZE \<subseteq> k"
      using assms(1,4) by (auto simp: buks_inv_def)
  qed
  then show ?thesis using assms(1) by (simp add: buks_inv_def)
qed

lemma objs_inv_in_buk:
  assumes "objs_inv objs bs" "ob \<in> set objs"
  obtains b where "b \<in> set bs" "in_buk ob b"
proof -
  have "\<exists>b\<in>set bs. in_buk ob b" using assms by (simp add: objs_inv_def)
  then show thesis using that by blast
qed

lemma put_buk_objs:
  assumes "objs_inv objs bs" "distinct (map buk_addr bs)" "b \<in> set bs"
    "buk_addr b' = buk_addr b" "cur_ptr b \<le> cur_ptr b'"
  shows "objs_inv objs (put_buk b' bs)"
proof -
  have "\<exists>c\<in>set (put_buk b' bs). in_buk ob c" if ob: "ob \<in> set objs" for ob
  proof -
    obtain c where c: "c \<in> set bs" "in_buk ob c"
      using assms(1) ob by (rule objs_inv_in_buk)
    show ?thesis
    proof (cases "buk_addr c = buk_addr b")
      case True
      then have "c = b" using assms(2,3) c(1) inj_onD [of buk_addr "set bs" c b] by (simp add: distinct_map)
      then have "in_buk ob b'" using c(2) assms(4,5) by (auto simp: in_buk_def word_le_nat_alt)
      then show ?thesis using put_buk_mem [OF assms(3,4)] by (rule bexI)
    next
      case False
      then have "c = (if buk_addr c = buk_addr b' then b' else c)" using assms(4) by simp
      then have "c \<in> set (put_buk b' bs)" unfolding put_buk_def set_map by (rule image_eqI) (rule c(1))
      then show ?thesis using c(2) by blast
    qed
  qed
  then show ?thesis using assms(1) by (simp add: objs_inv_def)
qed

lemma find_max_buk_mem:
  "find_max_buk bs (m, a) = (m', a') \<Longrightarrow>
    (m' = m \<and> a' = a) \<or> (\<exists>b\<in>set bs. m' = buk_addr b \<and> a' = aval_size b)"
  by (induction bs "(m, a)" arbitrary: m a rule: find_max_buk.induct)
    (fastforce split: if_splits)+

text \<open>Carving an object from a bucket that has room, with the list it leaves.\<close>

definition carve :: "obj_buk_head \<Rightarrow> u32 \<Rightarrow> obj_buk_head" where
  "carve b sz = b\<lparr>cur_ptr := cur_ptr b + sz, aval_size := aval_size b - sz\<rparr>"

lemma carve_simps [simp]:
  "buk_addr (carve b sz) = buk_addr b"
  "aval_size (carve b sz) = aval_size b - sz"
  by (simp_all add: carve_def)

lemma carve_ok:
  assumes "buk_ok b" "sz < aval_size b"
  shows "buk_ok (carve b sz)" "unat (cur_ptr (carve b sz)) = unat (cur_ptr b) + unat sz"
    "cur_ptr (carve b sz) < buk_end b" "cur_ptr b \<noteq> 0"
proof -
  have sz: "unat sz < unat (aval_size b)" using assms(2) by (simp add: word_less_nat_alt)
  have "unat (cur_ptr b) + unat sz < 2 ^ 32" using assms(1) sz by (simp add: buk_ok_def)
  then show c: "unat (cur_ptr (carve b sz)) = unat (cur_ptr b) + unat sz"
    by (simp add: carve_def unat_add_32)
  have e: "unat (buk_end b) = unat (buk_addr b) + 2 ^ 25"
    using assms(1) by (simp add: buk_ok_def unat_add_32)
  then show "cur_ptr (carve b sz) < buk_end b"
    using assms(1) sz c by (simp add: buk_ok_def word_less_nat_alt)
  have "unat (aval_size b - sz) = unat (aval_size b) - unat sz"
    using sz by (simp add: unat_sub_32)
  then show "buk_ok (carve b sz)"
    using assms(1) sz c by (simp add: buk_ok_def word_less_nat_alt) (simp add: carve_def)
  show "cur_ptr b \<noteq> 0" using assms(1) by (auto simp: buk_ok_def)
qed

lemma exact_fit_end:
  assumes "buk_ok b" "sz = aval_size b"
  shows "\<not> cur_ptr b + sz < buk_end b"
proof -
  have "unat (cur_ptr b + sz) = unat (buk_end b)"
    using assms by (simp add: buk_ok_def unat_add_32)
  then show ?thesis by (simp add: word_less_nat_alt)
qed

lemma alloc_from_buk_cases:
  assumes "buks_inv bs k" "b \<in> set bs"
  shows "alloc_from_buk bs (buk_addr b) sz =
    (if aval_size b < sz then Ok (0, bs)
     else if sz = aval_size b then Stop Assertion
     else Ok (cur_ptr b, put_buk (carve b sz) bs))"
proof -
  have b: "buk_ok b" "buk_addr b \<noteq> 0" "get_buk bs (buk_addr b) = Ok b"
    using assms get_buk_mem buks_distinct by (auto simp: buks_inv_def buk_ok_def)
  show ?thesis
    using b exact_fit_end [OF b(1), of sz] carve_ok(3) [OF b(1), of sz]
    by (auto simp: alloc_from_buk_def Let_def carve_def)
qed

lemma buks_disjoint:
  assumes "buks_inv bs k" "b \<in> set bs" "c \<in> set bs" "b \<noteq> c"
  shows "bytes (buk_addr b) OBJ_BUCKET_SIZE \<inter> bytes (buk_addr c) OBJ_BUCKET_SIZE = {}"
proof -
  have "buk_addr b \<noteq> buk_addr c"
    using buks_distinct [OF assms(1)] assms(2-4) by (auto simp: distinct_map dest: inj_onD)
  moreover have "symp (\<lambda>p q. bytes p OBJ_BUCKET_SIZE \<inter> bytes q OBJ_BUCKET_SIZE = {})"
    by (rule sympI) (simp add: Int_commute)
  ultimately show ?thesis
    using assms(1-3) sorted_wrt_sym_mem [of "\<lambda>p q. bytes p OBJ_BUCKET_SIZE \<inter> bytes q OBJ_BUCKET_SIZE = {}"
        "map buk_addr bs" "buk_addr b" "buk_addr c"]
    unfolding buks_inv_def by simp
qed

lemma in_buk_bytes: "buk_ok b \<Longrightarrow> in_buk ob b \<Longrightarrow> bytes (fst ob) (snd ob) \<subseteq> bytes (buk_addr b) OBJ_BUCKET_SIZE"
  by (auto simp: buk_ok_def in_buk_def bytes_def)

lemma carve_inv:
  assumes "buks_inv bs k" "b \<in> set bs" "sz < aval_size b" "0 < sz" "objs_inv objs bs"
  shows "buks_inv (put_buk (carve b sz) bs) k"
    and "objs_inv ((cur_ptr b, sz) # objs) (put_buk (carve b sz) bs)"
proof -
  have b: "buk_ok b" using assms(1,2) by (simp add: buks_inv_def)
  note c = carve_ok [OF b assms(3)]
  show "buks_inv (put_buk (carve b sz) bs) k"
    using assms(1,2) c(1) by (intro put_buk_inv) simp_all
  have old: "objs_inv objs (put_buk (carve b sz) bs)"
    using assms c(2) by (intro put_buk_objs buks_distinct) (auto simp: word_le_nat_alt)
  have new: "in_buk (cur_ptr b, sz) (carve b sz)"
    using b c(2) by (simp add: in_buk_def buk_ok_def)
  moreover have "bytes (cur_ptr b) sz \<inter> bytes (fst ob) (snd ob) = {}" if ob: "ob \<in> set objs" for ob
  proof -
    obtain d where d: "d \<in> set bs" "in_buk ob d" using assms(5) ob by (rule objs_inv_in_buk)
    show ?thesis
    proof (cases "d = b")
      case True
      then show ?thesis using d(2) by (auto simp: in_buk_def bytes_def)
    next
      case False
      have "bytes (fst ob) (snd ob) \<subseteq> bytes (buk_addr d) OBJ_BUCKET_SIZE"
        using d assms(1) by (intro in_buk_bytes) (simp_all add: buks_inv_def)
      moreover have "bytes (cur_ptr b) sz \<subseteq> bytes (buk_addr b) OBJ_BUCKET_SIZE"
        using in_buk_bytes [OF c(1) new] by simp
      ultimately show ?thesis
        using buks_disjoint [OF assms(1,2) d(1)] False by blast
    qed
  qed
  ultimately show "objs_inv ((cur_ptr b, sz) # objs) (put_buk (carve b sz) bs)"
    using old put_buk_mem [of b bs "carve b sz"] assms(2,4) unfolding objs_inv_def
    by (simp del: disjoint_iff) blast
qed

lemma bucket_size_aligned: "ALIGN_UP OBJ_BUCKET_SIZE PAGE_SIZE = OBJ_BUCKET_SIZE"
  by (simp add: ALIGN_UP_def ALIGN_DOWN_def OBJ_BUCKET_SIZE_def PAGE_SIZE_def)

lemma alloc_obj_buk_Ok:
  assumes "mmap_spec mmap" "alloc_obj_buk mmap exec k = Ok (b, k')"
  shows "buk_ok b" "unat (aval_size b) = 2 ^ 25 - 28" "k' = k \<union> bytes (buk_addr b) OBJ_BUCKET_SIZE"
    "bytes (buk_addr b) OBJ_BUCKET_SIZE \<inter> k = {}"
proof -
  obtain prot mem where m: "mmap k OBJ_BUCKET_SIZE prot = (mem, k')" "is_valid_page mem" "mem \<noteq> 0"
    and b: "b = \<lparr>buk_addr = mem, buk_end = mem + OBJ_BUCKET_SIZE, cur_ptr = mem + sizeof_obj_buk_head,
      total_size = mem + OBJ_BUCKET_SIZE - (mem + sizeof_obj_buk_head),
      aval_size = mem + OBJ_BUCKET_SIZE - (mem + sizeof_obj_buk_head)\<rparr>"
    using assms(2)
    by (auto simp: alloc_obj_buk_def xalloc_pages_def run_simps Let_def bucket_size_aligned split: prod.splits)
  have spec: "unat mem + 2 ^ 25 < 2 ^ 32" "bytes mem OBJ_BUCKET_SIZE \<inter> k = {}"
    "k' = k \<union> bytes mem OBJ_BUCKET_SIZE"
    using assms(1) m unfolding mmap_spec_def by fastforce+
  have 28: "unat sizeof_obj_buk_head = 28" by (simp add: sizeof_obj_buk_head_def)
  have "unat (mem + OBJ_BUCKET_SIZE) = unat mem + 2 ^ 25"
    "unat (mem + sizeof_obj_buk_head) = unat mem + 28"
    using spec(1) by (simp_all add: unat_add_32 28)
  moreover have "unat (mem + OBJ_BUCKET_SIZE - (mem + sizeof_obj_buk_head)) = 2 ^ 25 - 28"
    by (simp add: OBJ_BUCKET_SIZE_def sizeof_obj_buk_head_def)
  ultimately show "buk_ok b" "unat (aval_size b) = 2 ^ 25 - 28"
    "k' = k \<union> bytes (buk_addr b) OBJ_BUCKET_SIZE" "bytes (buk_addr b) OBJ_BUCKET_SIZE \<inter> k = {}"
    using spec m 28 by (auto simp: b buk_ok_def word_less_nat_alt)
qed

lemma buks_inv_new:
  assumes "buks_inv bs k" "buk_ok b" "bytes (buk_addr b) OBJ_BUCKET_SIZE \<inter> k = {}"
  shows "buks_inv (b # bs) (k \<union> bytes (buk_addr b) OBJ_BUCKET_SIZE)"
proof -
  have "\<forall>c\<in>set bs. bytes (buk_addr b) OBJ_BUCKET_SIZE \<inter> bytes (buk_addr c) OBJ_BUCKET_SIZE = {}"
    using assms(1,3) by (fastforce simp: buks_inv_def)
  then show ?thesis using assms(1,2) by (auto simp: buks_inv_def simp del: disjoint_iff)
qed

lemma objs_inv_new: "objs_inv objs bs \<Longrightarrow> objs_inv objs (b # bs)"
  by (auto simp: objs_inv_def)

lemma get_buk_put:
  assumes "distinct (map buk_addr bs)" "b \<in> set bs"
  shows "get_buk (put_buk c bs) (buk_addr b) = Ok (if buk_addr b = buk_addr c then c else b)"
proof -
  let ?b = "if buk_addr b = buk_addr c then c else b"
  have "?b \<in> set (put_buk c bs)"
    unfolding put_buk_def set_map by (rule image_eqI [OF _ assms(2)]) simp
  then have "get_buk (put_buk c bs) (buk_addr ?b) = Ok ?b"
    using assms(1) by (intro get_buk_mem) simp_all
  moreover have "buk_addr ?b = buk_addr b" by simp
  ultimately show ?thesis by metis
qed

text \<open>The part of \<^const>\<open>alloc_obj\<close> that opens a new bucket.\<close>

definition alloc_new ::
  "mmap \<Rightarrow> obj_mm_tpd_stub \<Rightarrow> u32 \<Rightarrow> u32 \<Rightarrow> obj_buk_head list \<Rightarrow> vm \<Rightarrow> (u32 \<times> obj_mm_tpd_stub \<times> vm) run" where
  "alloc_new mmap objmm sz max_buk bs k =
    bindR (alloc_obj_buk mmap (executable objmm) k) (\<lambda>(new, k').
      let bs = new # bs
      in bindR (alloc_from_buk bs (buk_addr new) sz) (\<lambda>(ptr, bs).
         bindR (assert_that (ptr \<noteq> 0)) (\<lambda>_.
         bindR (get_buk bs (buk_addr new)) (\<lambda>n.
         bindR (if max_buk = 0 then Ok (buk_addr new)
                else bindR (get_buk bs max_buk) (\<lambda>m.
                  Ok (if aval_size m < aval_size n then buk_addr new else max_buk))) (\<lambda>max_buk.
         bindR (assert_that (max_buk \<noteq> 0)) (\<lambda>_.
           Ok (ptr, objmm\<lparr>buk_list := bs, cur_buk := max_buk\<rparr>, k')))))))"

lemma alloc_new_Ok:
  assumes spec: "mmap_spec mmap" and inv: "buks_inv bs k" "objs_inv objs bs"
    and sz: "0 < sz" "sz < MAX_AVAL_OBJ_SIZE"
    and m: "max_buk = 0 \<or> max_buk \<in> buk_addr ` set bs"
    and new: "alloc_obj_buk mmap (executable objmm) k = Ok (new, k')"
  shows "\<exists>objmm'. alloc_new mmap objmm sz max_buk bs k = Ok (cur_ptr new, objmm', k')
    \<and> mm_inv objmm' k' ((cur_ptr new, sz) # objs)"
proof -
  note b = alloc_obj_buk_Ok [OF spec new]
  have inv1: "buks_inv (new # bs) k'" using inv(1) b by (simp add: buks_inv_new)
  have inv2: "objs_inv objs (new # bs)" using inv(2) by (rule objs_inv_new)
  have lt: "sz < aval_size new"
    using sz(2) b(2) by (simp add: word_less_nat_alt MAX_AVAL_OBJ_SIZE_def OBJ_BUCKET_SIZE_def sizeof_obj_buk_head_def)
  let ?bs = "put_buk (carve new sz) (new # bs)"
  have alloc: "alloc_from_buk (new # bs) (buk_addr new) sz = Ok (cur_ptr new, ?bs)"
    using alloc_from_buk_cases [OF inv1, of new sz] lt by auto
  have ptr: "cur_ptr new \<noteq> 0" using carve_ok(4) [OF b(1) lt] .
  have addr: "buk_addr new \<noteq> 0" using b(1) by (simp add: buk_ok_def)
  note d = buks_distinct [OF inv1]
  have getn: "get_buk ?bs (buk_addr new) = Ok (carve new sz)"
    using get_buk_put [OF d, of new "carve new sz"] by simp
  have "\<exists>c \<in> insert (buk_addr new) (buk_addr ` set bs). c \<noteq> 0 \<and>
    (if max_buk = 0 then Ok (buk_addr new)
     else bindR (get_buk ?bs max_buk) (\<lambda>m.
       Ok (if aval_size m < aval_size (carve new sz) then buk_addr new else max_buk))) = Ok c"
  proof (cases "max_buk = 0")
    case False
    then obtain c where c: "c \<in> set bs" "max_buk = buk_addr c" using m by auto
    then show ?thesis using get_buk_put [OF d, of c "carve new sz"] addr False by auto
  qed (use addr in auto)
  then obtain c where c: "c \<in> insert (buk_addr new) (buk_addr ` set bs)" "c \<noteq> 0"
    "(if max_buk = 0 then Ok (buk_addr new)
     else bindR (get_buk ?bs max_buk) (\<lambda>m.
       Ok (if aval_size m < aval_size (carve new sz) then buk_addr new else max_buk))) = Ok c" by blast
  have "alloc_new mmap objmm sz max_buk bs k = Ok (cur_ptr new, objmm\<lparr>buk_list := ?bs, cur_buk := c\<rparr>, k')"
    using alloc ptr getn c(2,3) by (simp add: alloc_new_def new Let_def)
  moreover have "mm_inv (objmm\<lparr>buk_list := ?bs, cur_buk := c\<rparr>) k' ((cur_ptr new, sz) # objs)"
    using carve_inv [OF inv1 _ lt sz(1) inv2] c(1) by (simp add: mm_inv_def)
  ultimately show ?thesis by blast
qed

lemma alloc_obj_unfold:
  "alloc_obj mmap objmm sz k =
    (if MAX_AVAL_OBJ_SIZE \<le> sz then Stop Fatal
     else bindR (assert_that (0 < sz)) (\<lambda>_.
       bindR (alloc_from_buk (buk_list objmm) (cur_buk objmm) sz) (\<lambda>(ptr, bs).
         if ptr \<noteq> 0 then Ok (ptr, objmm\<lparr>buk_list := bs\<rparr>, k)
         else
           let (max_buk, max_aval) = find_max_buk bs (0, 0)
           in if max_buk \<noteq> 0 \<and> max_buk \<noteq> cur_buk objmm \<and> sz < max_aval then
                bindR (alloc_from_buk bs max_buk sz) (\<lambda>(ptr, bs).
                bindR (assert_that (ptr \<noteq> 0)) (\<lambda>_.
                bindR (get_buk bs max_buk) (\<lambda>m.
                bindR (get_buk bs (cur_buk objmm)) (\<lambda>c.
                  Ok (ptr, objmm\<lparr>buk_list := bs,
                        cur_buk := (if aval_size c < aval_size m then max_buk else cur_buk objmm)\<rparr>, k)))))
              else alloc_new mmap objmm sz max_buk bs k)))"
  unfolding alloc_obj_def alloc_new_def Let_def by (rule refl)

definition exact_fit :: "obj_mm_tpd_stub \<Rightarrow> u32 \<Rightarrow> bool" where
  "exact_fit objmm sz \<longleftrightarrow> (\<exists>b\<in>set (buk_list objmm). buk_addr b = cur_buk objmm \<and> aval_size b = sz)"

lemma alloc_obj_buk_Stop: "alloc_obj_buk mmap exec k = Stop e \<Longrightarrow> e = Assertion"
  by (auto simp: alloc_obj_buk_def xalloc_pages_def Let_def run_simps split: prod.splits)

definition alloc_good :: "mmap \<Rightarrow> obj_mm_tpd_stub \<Rightarrow> vm \<Rightarrow> u32 \<Rightarrow> obj list \<Rightarrow> (u32 \<times> obj_mm_tpd_stub \<times> vm) run \<Rightarrow> bool" where
  "alloc_good mmap objmm k sz objs r \<longleftrightarrow>
    (\<exists>ptr objmm' k'. r = Ok (ptr, objmm', k') \<and> mm_inv objmm' k' ((ptr, sz) # objs))
    \<or> r = Stop Assertion \<and> (\<exists>e. alloc_obj_buk mmap (executable objmm) k = Stop e)"

lemma alloc_new_good:
  assumes "mmap_spec mmap" "buks_inv bs k" "objs_inv objs bs" "0 < sz" "sz < MAX_AVAL_OBJ_SIZE"
    "max_buk = 0 \<or> max_buk \<in> buk_addr ` set bs"
  shows "alloc_good mmap objmm k sz objs (alloc_new mmap objmm sz max_buk bs k)"
proof (cases "alloc_obj_buk mmap (executable objmm) k")
  case (Inl e)
  then show ?thesis
    using alloc_obj_buk_Stop [OF Inl] by (simp add: alloc_good_def alloc_new_def)
next
  case (Inr r)
  then obtain new k' where "alloc_obj_buk mmap (executable objmm) k = Ok (new, k')" by (cases r) simp
  from alloc_new_Ok [OF assms this] show ?thesis unfolding alloc_good_def by blast
qed

lemma alloc_slow_good:
  assumes spec: "mmap_spec mmap" and inv: "mm_inv objmm k objs"
    and sz: "0 < sz" "sz < MAX_AVAL_OBJ_SIZE"
    and first: "alloc_from_buk (buk_list objmm) (cur_buk objmm) sz = Ok (0, buk_list objmm)"
  shows "alloc_good mmap objmm k sz objs (alloc_obj mmap objmm sz k)"
proof -
  let ?bs = "buk_list objmm"
  have inv': "buks_inv ?bs k" "objs_inv objs ?bs" using inv by (simp_all add: mm_inv_def)
  obtain m a where m: "find_max_buk ?bs (0, 0) = (m, a)" by fastforce
  note mem = find_max_buk_mem [OF m]
  show ?thesis
  proof (cases "m \<noteq> 0 \<and> m \<noteq> cur_buk objmm \<and> sz < a")
    case True
    then obtain b where b: "b \<in> set ?bs" "m = buk_addr b" "a = aval_size b" using mem by auto
    then obtain c where c: "c \<in> set ?bs" "cur_buk objmm = buk_addr c"
      using inv by (auto simp: mm_inv_def split: if_splits)
    have lt: "sz < aval_size b" using True b(3) by simp
    have alloc: "alloc_from_buk ?bs m sz = Ok (cur_ptr b, put_buk (carve b sz) ?bs)"
      using alloc_from_buk_cases [OF inv'(1) b(1), of sz] lt b(2) by auto
    have ptr: "cur_ptr b \<noteq> 0" using carve_ok(4) [OF _ lt] inv'(1) b(1) by (simp add: buks_inv_def)
    note d = buks_distinct [OF inv'(1)]
    have "get_buk (put_buk (carve b sz) ?bs) m = Ok (carve b sz)"
      "get_buk (put_buk (carve b sz) ?bs) (cur_buk objmm) = Ok c"
      using get_buk_put [OF d b(1)] get_buk_put [OF d c(1)] True b(2) c(2) by auto
    with True alloc ptr have "alloc_obj mmap objmm sz k = Ok (cur_ptr b,
        objmm\<lparr>buk_list := put_buk (carve b sz) ?bs,
          cur_buk := (if aval_size c < aval_size b - sz then m else cur_buk objmm)\<rparr>, k)"
      using sz first m by (simp add: alloc_obj_unfold not_le)
    moreover have "mm_inv (objmm\<lparr>buk_list := put_buk (carve b sz) ?bs,
          cur_buk := (if aval_size c < aval_size b - sz then m else cur_buk objmm)\<rparr>) k ((cur_ptr b, sz) # objs)"
      using carve_inv [OF inv'(1) b(1) lt sz(1) inv'(2)] b c by (auto simp: mm_inv_def)
    ultimately show ?thesis unfolding alloc_good_def by blast
  next
    case False
    have "alloc_obj mmap objmm sz k = alloc_new mmap objmm sz m ?bs k"
      using sz first m False unfolding alloc_obj_unfold by (auto simp: not_le)
    moreover have "m = 0 \<or> m \<in> buk_addr ` set ?bs" using mem by auto
    ultimately show ?thesis using alloc_new_good [OF spec inv' sz] by simp
  qed
qed

lemma alloc_obj_good:
  assumes spec: "mmap_spec mmap" and inv: "mm_inv objmm k objs"
    and sz: "0 < sz" "sz < MAX_AVAL_OBJ_SIZE"
  shows "if exact_fit objmm sz then alloc_obj mmap objmm sz k = Stop Assertion
    else alloc_good mmap objmm k sz objs (alloc_obj mmap objmm sz k)"
proof (cases "buk_list objmm = []")
  case True
  then have "alloc_from_buk (buk_list objmm) (cur_buk objmm) sz = Ok (0, buk_list objmm)"
    using inv by (simp add: mm_inv_def alloc_from_buk_def)
  then show ?thesis using alloc_slow_good [OF assms] True by (simp add: exact_fit_def)
next
  case False
  let ?bs = "buk_list objmm"
  have inv': "buks_inv ?bs k" "objs_inv objs ?bs" using inv by (simp_all add: mm_inv_def)
  obtain c where c: "c \<in> set ?bs" "cur_buk objmm = buk_addr c"
    using inv False by (auto simp: mm_inv_def)
  have fit: "exact_fit objmm sz \<longleftrightarrow> aval_size c = sz"
    using c buks_distinct [OF inv'(1)] by (auto simp: exact_fit_def distinct_map dest: inj_onD)
  note alloc = alloc_from_buk_cases [OF inv'(1) c(1), of sz]
  consider "aval_size c < sz" | "sz = aval_size c" | "sz < aval_size c" by fastforce
  then show ?thesis
  proof cases
    case 1
    then show ?thesis using alloc_slow_good [OF assms] alloc fit c(2) by auto
  next
    case 2
    then show ?thesis using alloc fit c(2) sz by (simp add: alloc_obj_unfold not_le)
  next
    case 3
    have ptr: "cur_ptr c \<noteq> 0" using carve_ok(4) [OF _ 3] inv'(1) c(1) by (simp add: buks_inv_def)
    have "alloc_obj mmap objmm sz k = Ok (cur_ptr c, objmm\<lparr>buk_list := put_buk (carve c sz) ?bs\<rparr>, k)"
      using 3 alloc ptr c(2) sz by (auto simp: alloc_obj_unfold not_le)
    moreover have "mm_inv (objmm\<lparr>buk_list := put_buk (carve c sz) ?bs\<rparr>) k ((cur_ptr c, sz) # objs)"
      using carve_inv [OF inv'(1) c(1) 3 sz(1) inv'(2)] c False by (auto simp: mm_inv_def)
    ultimately show ?thesis using 3 fit unfolding alloc_good_def by auto
  qed
qed

lemma free_buks_Ok:
  assumes "munmap_spec munmap" "\<forall>b\<in>set bs. buk_ok b"
  shows "free_buks munmap bs k = Ok (k - (\<Union>b\<in>set bs. bytes (buk_addr b) OBJ_BUCKET_SIZE))"
  using assms(2)
proof (induction bs arbitrary: k)
  case (Cons b bs)
  then have "free_obj_buk munmap b k = Ok (k - bytes (buk_addr b) OBJ_BUCKET_SIZE)"
    using assms(1)
    by (simp add: free_obj_buk_def xdealloc_pages_def buk_ok_def munmap_spec_def bucket_size_aligned)
  then show ?case using Cons by (simp add: Diff_Diff_Int Diff_eq Int_assoc)
qed simp

text \<open>A sequence of allocations; the objects handed out, latest first.\<close>

fun alloc_objs ::
  "mmap \<Rightarrow> obj_mm_tpd_stub \<Rightarrow> obj list \<Rightarrow> vm \<Rightarrow> u32 list \<Rightarrow> (obj list \<times> obj_mm_tpd_stub \<times> vm) run" where
  "alloc_objs mmap objmm objs k [] = Ok (objs, objmm, k)"
| "alloc_objs mmap objmm objs k (sz # szs) =
    bindR (alloc_obj mmap objmm sz k) (\<lambda>(ptr, objmm', k'). alloc_objs mmap objmm' ((ptr, sz) # objs) k' szs)"

lemma alloc_obj_Ok_size: "alloc_obj mmap objmm sz k = Ok r \<Longrightarrow> 0 < sz \<and> sz < MAX_AVAL_OBJ_SIZE"
  by (auto simp: alloc_obj_unfold run_simps split: if_splits)

lemma alloc_objs_inv:
  assumes "mmap_spec mmap" "mm_inv objmm k objs"
    "alloc_objs mmap objmm objs k szs = Ok (objs', objmm', k')"
  shows "mm_inv objmm' k' objs'"
  using assms(2,3)
proof (induction szs arbitrary: objmm k objs)
  case (Cons sz szs)
  then obtain ptr o1 k1 where r: "alloc_obj mmap objmm sz k = Ok (ptr, o1, k1)"
    "alloc_objs mmap o1 ((ptr, sz) # objs) k1 szs = Ok (objs', objmm', k')"
    by (auto simp: run_simps)
  have "mm_inv o1 k1 ((ptr, sz) # objs)"
    using alloc_obj_good [OF assms(1) Cons.prems(1), of sz] alloc_obj_Ok_size [OF r(1)] r(1)
    by (simp add: alloc_good_def split: if_splits)
  then show ?case using Cons.IH r(2) by blast
qed simp

lemma mm_inv_objs:
  assumes "mm_inv objmm k objs" "ob \<in> set objs"
  shows "fst ob \<noteq> 0" "bytes (fst ob) (snd ob) \<subseteq> k"
proof -
  have inv: "buks_inv (buk_list objmm) k" "objs_inv objs (buk_list objmm)"
    using assms(1) by (simp_all add: mm_inv_def)
  obtain b where b: "b \<in> set (buk_list objmm)" "in_buk ob b"
    using inv(2) assms(2) by (rule objs_inv_in_buk)
  then show "fst ob \<noteq> 0" by (auto simp: in_buk_def)
  have "buk_ok b" "bytes (buk_addr b) OBJ_BUCKET_SIZE \<subseteq> k"
    using inv(1) b(1) by (simp_all add: buks_inv_def)
  then show "bytes (fst ob) (snd ob) \<subseteq> k" using in_buk_bytes [OF _ b(2)] by blast
qed

lemma init_mm_inv: "mm_inv (init_mm_obj exec) k []"
  by (simp add: mm_inv_def init_mm_obj_def buks_inv_def objs_inv_def)

subsection \<open>A kernel for the witnesses\<close>

text \<open>A kernel that places a mapping at 0x10000000 if that is free, and fails otherwise.\<close>

definition demo_mmap :: mmap where
  "demo_mmap k len prot =
    (if len \<le> 0x10000000 \<and> bytes 0x10000000 len \<inter> k = {}
     then (0x10000000, k \<union> bytes 0x10000000 len) else (0xfffffff4, k))"

definition demo_munmap :: munmap where
  "demo_munmap k a len = (0, k - bytes a len)"

lemma demo_mmap_spec: "mmap_spec demo_mmap"
  unfolding mmap_spec_def
  by (auto simp: demo_mmap_def is_valid_page_def PAGE_SIZE_def word_le_nat_alt split: if_splits)

definition demo_objmm :: obj_mm_tpd_stub where
  "demo_objmm = \<lparr>buk_list = [\<lparr>buk_addr = 0x10000000, buk_end = 0x12000000, cur_ptr = 0x1000002c,
    total_size = 0x1ffffe4, aval_size = 0x1ffffd4\<rparr>], cur_buk = 0x10000000, executable = False\<rparr>"

lemma demo_alloc:
  "alloc_objs demo_mmap (init_mm_obj False) [] {} [16]
    = Ok ([(0x1000001c, 16)], demo_objmm, bytes 0x10000000 OBJ_BUCKET_SIZE)"
  by (simp add: alloc_obj_def alloc_from_buk_def init_mm_obj_def alloc_obj_buk_def xalloc_pages_def
      bucket_size_aligned demo_mmap_def get_buk_def put_buk_def demo_objmm_def MAX_AVAL_OBJ_SIZE_def)
    (simp add: OBJ_BUCKET_SIZE_def sizeof_obj_buk_head_def is_valid_page_def PAGE_SIZE_def get_buk_def
      put_buk_def Let_def)

lemma demo_mm_inv: "mm_inv demo_objmm (bytes 0x10000000 OBJ_BUCKET_SIZE) [(0x1000001c, 16)]"
  by (rule alloc_objs_inv [OF demo_mmap_spec init_mm_inv demo_alloc])

subsection \<open>Properties\<close>

text \<open>
  C10.  Objects never overlap: whatever sizes a thread asks for, in any order, the objects
  \<^verbatim>\<open>alloc_obj\<close> has handed out since \<^verbatim>\<open>init_mm_obj\<close> are pairwise
  disjoint, non-null and inside mapped memory.
\<close>

theorem alloc_objs_disjoint:
  assumes "mmap_spec mmap" "alloc_objs mmap (init_mm_obj exec) [] k szs = Ok (objs, objmm', k')"
  shows "sorted_wrt (\<lambda>p q. bytes (fst p) (snd p) \<inter> bytes (fst q) (snd q) = {}) objs
    \<and> (\<Union>ob\<in>set objs. bytes (fst ob) (snd ob)) \<subseteq> k' \<and> 0 \<notin> fst ` set objs"
proof -
  have inv: "mm_inv objmm' k' objs" using alloc_objs_inv [OF assms(1) init_mm_inv assms(2)] .
  then have "sorted_wrt (\<lambda>p q. bytes (fst p) (snd p) \<inter> bytes (fst q) (snd q) = {}) objs"
    by (simp add: mm_inv_def objs_inv_def)
  moreover have "(\<Union>ob\<in>set objs. bytes (fst ob) (snd ob)) \<subseteq> k'"
    using mm_inv_objs(2) [OF inv] by blast
  moreover have "0 \<notin> fst ` set objs"
    using mm_inv_objs(1) [OF inv] by auto
  ultimately show ?thesis by (intro conjI)
qed

theorem alloc_objs_disjoint_witness:
  "alloc_objs demo_mmap (init_mm_obj False) [] {} [16]
      = Ok ([(0x1000001c, 16)], demo_objmm, bytes 0x10000000 OBJ_BUCKET_SIZE)
    \<and> bytes 0x1000001c 16 \<subseteq> bytes 0x10000000 OBJ_BUCKET_SIZE"
  using alloc_objs_disjoint [OF demo_mmap_spec demo_alloc] demo_alloc by simp

text \<open>
  C16.  From every state of the allocator, a request of a legal size either succeeds or stops at
  an assertion, never at a null or dangling bucket pointer; it stops exactly when the current
  bucket has exactly the requested number of bytes left, or when a new bucket is needed and the
  kernel refuses the memory.
\<close>

theorem alloc_obj_outcome:
  assumes "mmap_spec mmap" "mm_inv objmm k objs" "0 < sz" "sz < MAX_AVAL_OBJ_SIZE"
  shows "if exact_fit objmm sz then alloc_obj mmap objmm sz k = Stop Assertion
    else (case alloc_obj mmap objmm sz k of
        Inr (ptr, objmm', k') \<Rightarrow> mm_inv objmm' k' ((ptr, sz) # objs)
      | Inl e \<Rightarrow> e = Assertion \<and> alloc_obj_buk mmap (executable objmm) k = Stop Assertion)"
  using alloc_obj_good [OF assms] alloc_obj_buk_Stop unfolding alloc_good_def by (auto split: if_splits)

theorem alloc_obj_outcome_witness:
  "alloc_obj demo_mmap demo_objmm 0x1ffffd4 (bytes 0x10000000 OBJ_BUCKET_SIZE) = Stop Assertion"
  using alloc_obj_outcome [OF demo_mmap_spec demo_mm_inv, of "0x1ffffd4"]
  by (simp add: exact_fit_def demo_objmm_def MAX_AVAL_OBJ_SIZE_def OBJ_BUCKET_SIZE_def
      sizeof_obj_buk_head_def)

text \<open>
  \<^verbatim>\<open>clean_mm_obj\<close> gives back every bucket and nothing else, and leaves an
  empty allocator.
\<close>

theorem clean_mm_obj_unmaps:
  assumes "munmap_spec munmap" "mm_inv objmm k objs"
  shows "clean_mm_obj munmap objmm k = Ok (\<lparr>buk_list = [], cur_buk = 0, executable = False\<rparr>,
    k - (\<Union>b\<in>set (buk_list objmm). bytes (buk_addr b) OBJ_BUCKET_SIZE))"
proof -
  have "\<forall>b\<in>set (buk_list objmm). buk_ok b" using assms(2) by (simp add: mm_inv_def buks_inv_def)
  then show ?thesis by (simp add: clean_mm_obj_def free_buks_Ok [OF assms(1)])
qed

theorem clean_mm_obj_unmaps_witness:
  "clean_mm_obj demo_munmap demo_objmm (bytes 0x10000000 OBJ_BUCKET_SIZE)
    = Ok (\<lparr>buk_list = [], cur_buk = 0, executable = False\<rparr>, {})"
  using clean_mm_obj_unmaps [OF _ demo_mm_inv, of demo_munmap]
  by (simp add: munmap_spec_def demo_munmap_def) (simp add: demo_objmm_def)

end
