(* ===== verification/Tls.thy ===== *)
theory Tls
  imports Mm
begin

text \<open>
  Thread-local areas (\<^verbatim>\<open>src/core/loader/tls.c\<close>,
  \<^verbatim>\<open>src/core/loader/tls.h\<close>).  Each traced thread owns a mapped area whose last bytes
  hold its \<open>tls_desc\<close>, a slot of the bitmap \<^verbatim>\<open>thread_map\<close> and the entry of the local
  descriptor table (LDT) with the number of the slot.  The state holds the bitmap, the
  descriptors by address, the list of live descriptors, the lock, and the parts of the kernel
  state the code changes: mapped memory, the LDT and the page protections.

  The kernel calls are parameters: \<open>mmap\<close> and \<open>munmap\<close> of theory \<open>Mm\<close>, and
  \<open>modify_ldt\<close>, whose documented behaviour is \<open>modify_ldt_spec\<close>.
\<close>

definition LDT_ENTRIES :: nat where "LDT_ENTRIES = 8192"
definition MAX_THREADS :: nat where "MAX_THREADS = LDT_ENTRIES"

text \<open>\<^verbatim>\<open>MAX_THREADS / sizeof(uint32_t)\<close> words of the bitmap.\<close>

definition SZ_MAP :: nat where "SZ_MAP = MAX_THREADS div 4"

text \<open>512 pages of log buffer, 561 pages of compression space, 4 more.\<close>

definition NR_TLS_PAGES :: u32 where
  "NR_TLS_PAGES = 512 + ((2097152 + 2097152 div 16 + 64 + 3) + 16384 * 4 + 4095) div 4096 + 4"

definition TLS_AREA_SIZE :: u32 where "TLS_AREA_SIZE = NR_TLS_PAGES * PAGE_SIZE"

definition sizeof_tls_desc :: u32 where "sizeof_tls_desc = 24"

definition get_tls_desc :: "u32 \<Rightarrow> u32" where
  "get_tls_desc a = a + TLS_AREA_SIZE - sizeof_tls_desc"

record user_desc =
  entry_number :: u32
  base_addr :: u32
  limit :: u32
  seg_32bit :: bool
  contents :: nat
  read_exec_only :: bool
  limit_in_pages :: bool
  seg_not_present :: bool
  useable :: bool

type_synonym ldt = "nat \<rightharpoonup> user_desc"
type_synonym modify_ldt = "ldt \<Rightarrow> user_desc \<Rightarrow> int \<times> ldt"

record tls_desc =
  fs_val :: u16
  nr :: int
  start_addr :: u32
  size_td :: u32

record tls_state =
  thread_map :: "u32 list"
  descs :: "u32 \<rightharpoonup> tls_desc"
  tls_list :: "u32 list"
  tls_locked :: bool
  mem :: vm
  ldt :: ldt
  guards :: "(u32 \<times> u32) list"

subsection \<open>Slots\<close>

fun scan_map :: "nat \<Rightarrow> u32 list \<Rightarrow> (int \<times> u32 list) option" where
  "scan_map i [] = None"
| "scan_map i (w # ws) =
    (if w \<noteq> 0xffffffff then Some (int i * 32 + last_0_pos w, set_last_0 w # ws)
     else map_option (\<lambda>(n, ws'). (n, w # ws')) (scan_map (Suc i) ws))"

definition find_set_free_slot :: "tls_state \<Rightarrow> (int \<times> tls_state) run" where
  "find_set_free_slot st =
    bindR (assert_that (tls_locked st)) (\<lambda>_.
      case scan_map 0 (thread_map st) of
        None \<Rightarrow> Stop Fatal
      | Some (n, tm) \<Rightarrow> Ok (n, st\<lparr>thread_map := tm\<rparr>))"

definition clear_slot :: "nat \<Rightarrow> tls_state \<Rightarrow> tls_state run" where
  "clear_slot tnr st =
    (let i = tnr div 32; n = tnr mod 32
     in if i < length (thread_map st)
        then Ok (st\<lparr>thread_map := (thread_map st)[i := unset_bit_n (thread_map st ! i) n]\<rparr>)
        else Stop Segv)"

subsection \<open>Descriptors\<close>

definition write_ldt :: "modify_ldt \<Rightarrow> user_desc \<Rightarrow> tls_state \<Rightarrow> tls_state run" where
  "write_ldt modify_ldt desc st =
    (let (err, l) = modify_ldt (ldt st) desc
     in bindR (assert_that (err = 0)) (\<lambda>_. Ok (st\<lparr>ldt := l\<rparr>)))"

definition setup_ldt :: "modify_ldt \<Rightarrow> u32 \<Rightarrow> int \<Rightarrow> tls_state \<Rightarrow> tls_state run" where
  "setup_ldt modify_ldt tdp n st =
    (case descs st tdp of
       None \<Rightarrow> Stop Segv
     | Some td \<Rightarrow>
        bindR (write_ldt modify_ldt
           \<lparr>entry_number = word_of_int n, base_addr = start_addr td, limit = NR_TLS_PAGES,
            seg_32bit = True, contents = 0, read_exec_only = False, limit_in_pages = True,
            seg_not_present = False, useable = True\<rparr> st) (\<lambda>st.
          Ok (st\<lparr>descs := (descs st)(tdp \<mapsto> td\<lparr>nr := n, fs_val := word_of_int (n * 8 + 4 + 3)\<rparr>)\<rparr>)))"

definition clear_ldt :: "modify_ldt \<Rightarrow> tls_desc \<Rightarrow> tls_state \<Rightarrow> tls_state run" where
  "clear_ldt modify_ldt td st =
    bindR (assert_that (nr td * 8 + 4 + 3 = uint (fs_val td))) (\<lambda>_.
      write_ldt modify_ldt
        \<lparr>entry_number = word_of_int (nr td), base_addr = 0, limit = 0,
         seg_32bit = False, contents = 0, read_exec_only = True, limit_in_pages = False,
         seg_not_present = True, useable = False\<rparr> st)"

definition xmutex_lock_tls :: "tls_state \<Rightarrow> tls_state" where
  "xmutex_lock_tls st = st\<lparr>tls_locked := True\<rparr>"

definition xmutex_unlock_tls :: "tls_state \<Rightarrow> tls_state" where
  "xmutex_unlock_tls st = st\<lparr>tls_locked := False\<rparr>"

definition alloc_tls_area :: "mmap \<Rightarrow> modify_ldt \<Rightarrow> tls_state \<Rightarrow> (u32 \<times> tls_state) run" where
  "alloc_tls_area mmap modify_ldt st =
    (let st = xmutex_lock_tls st
     in bindR (xalloc_pages mmap TLS_AREA_SIZE False (mem st)) (\<lambda>(pages, m).
        let st = st\<lparr>mem := m, guards := (pages, PAGE_SIZE) # guards st\<rparr>;
            tdp = get_tls_desc pages;
            td = \<lparr>fs_val = 0, nr = 0, start_addr = pages, size_td = TLS_AREA_SIZE\<rparr>;
            st = st\<lparr>descs := (descs st)(tdp \<mapsto> td)\<rparr>
        in bindR (find_set_free_slot st) (\<lambda>(n, st).
           bindR (setup_ldt modify_ldt tdp n st) (\<lambda>st.
             let st = st\<lparr>tls_list := tdp # tls_list st\<rparr>
             in Ok (tdp, xmutex_unlock_tls st)))))"

definition dealloc_tls_area_nolock :: "munmap \<Rightarrow> modify_ldt \<Rightarrow> u32 \<Rightarrow> tls_state \<Rightarrow> tls_state run" where
  "dealloc_tls_area_nolock munmap modify_ldt tdp st =
    bindR (assert_that (tdp \<noteq> 0)) (\<lambda>_.
      case descs st tdp of
        None \<Rightarrow> Stop Segv
      | Some td \<Rightarrow>
         bindR (assert_that (get_tls_desc (start_addr td) = tdp)) (\<lambda>_.
         bindR (assert_that (size_td td = TLS_AREA_SIZE)) (\<lambda>_.
           let st = st\<lparr>tls_list := remove1 tdp (tls_list st)\<rparr>
           in bindR (clear_ldt modify_ldt td st) (\<lambda>st.
              bindR (clear_slot (nat (nr td)) st) (\<lambda>st.
              bindR (xdealloc_pages munmap (start_addr td) (size_td td) (mem st)) (\<lambda>m.
                Ok (st\<lparr>mem := m, descs := (descs st)(tdp := None)\<rparr>)))))))"

definition dealloc_tls_area :: "munmap \<Rightarrow> modify_ldt \<Rightarrow> u32 \<Rightarrow> tls_state \<Rightarrow> tls_state run" where
  "dealloc_tls_area munmap modify_ldt tdp st =
    bindR (dealloc_tls_area_nolock munmap modify_ldt tdp (xmutex_lock_tls st)) (\<lambda>st.
      Ok (xmutex_unlock_tls st))"

definition init_tls_state :: "vm \<Rightarrow> ldt \<Rightarrow> tls_state" where
  "init_tls_state m l = \<lparr>thread_map = replicate SZ_MAP 0, descs = Map.empty, tls_list = [],
    tls_locked = False, mem = m, ldt = l, guards = []\<rparr>"

text \<open>
  The documented \<^verbatim>\<open>modify_ldt\<close>: an entry number below the table size is written (a
  descriptor that is not present and read-only empties the entry), any other is refused.
\<close>

definition modify_ldt_spec :: "modify_ldt \<Rightarrow> bool" where
  "modify_ldt_spec modify_ldt \<longleftrightarrow> (\<forall>l d.
    if unat (entry_number d) < LDT_ENTRIES
    then modify_ldt l d = (0, l(unat (entry_number d) :=
           if read_exec_only d \<and> seg_not_present d \<and> base_addr d = 0 then None else Some d))
    else fst (modify_ldt l d) \<noteq> 0)"

subsection \<open>The slots in use\<close>

definition slots :: "u32 list \<Rightarrow> nat set" where
  "slots tm = {n. n < 32 * length tm \<and> bit (tm ! (n div 32)) (n mod 32)}"

lemma slots_Nil [simp]: "slots [] = {}"
  by (simp add: slots_def)

lemma slots_Cons: "slots (w # ws) = {n. bit w n} \<union> (+) 32 ` slots ws"
proof (intro set_eqI)
  fix n
  show "n \<in> slots (w # ws) \<longleftrightarrow> n \<in> {n. bit w n} \<union> (+) 32 ` slots ws"
  proof (cases "n < 32")
    case True
    then show ?thesis by (auto simp: slots_def)
  next
    case False
    then obtain m where n: "n = 32 + m" by (metis le_Suc_ex not_less)
    moreover have "\<not> bit w (32 + m)" by (auto dest: bit_imp_le_length)
    moreover have "(32 + m) div 32 = Suc (m div 32)" by simp
    ultimately show ?thesis by (auto simp: slots_def simp del: div_add_self1)
  qed
qed

lemma slots_bound: "slots tm \<subseteq> {..<32 * length tm}"
  by (auto simp: slots_def)

lemma slots_replicate_0 [simp]: "slots (replicate n 0) = {}"
  by (induction n) (simp_all add: slots_Cons)

lemma all_ones: "(0xffffffff :: u32) = - 1"
  by simp

lemma full_word: "{n. bit (0xffffffff :: u32) n} = {..<32}"
  unfolding all_ones by (auto simp: bit_simps)

lemma bit_full_word: "bit (0xffffffff :: u32) n \<longleftrightarrow> n < 32"
  using full_word by blast

lemma scan_map_Some:
  assumes "scan_map i tm = Some (m, tm')"
  shows "\<exists>n. m = int (32 * i + n) \<and> n < 32 * length tm \<and> n \<notin> slots tm \<and> {..<n} \<subseteq> slots tm
    \<and> slots tm' = insert n (slots tm) \<and> length tm' = length tm"
  using assms
proof (induction i tm arbitrary: m tm' rule: scan_map.induct)
  case (2 i w ws)
  show ?case
  proof (cases "w = 0xffffffff")
    case False
    then have "w \<noteq> - 1" by (simp only: all_ones not_False_eq_True)
    then obtain k where k: "k < 32" "\<not> bit w k" "\<forall>i<k. bit w i"
      by (rule obtain_lowest_zero) auto
    have "m = int (32 * i + k)" "tm' = set_bit k w # ws"
      using 2(2) False last_0_pos_lowest [OF k(2,3,1)] set_last_0_lowest [OF k(2,3,1)] by simp_all
    moreover have "{n. bit (set_bit k w) n} = insert k {n. bit w n}"
      using k(1) by (auto simp: bit_simps)
    ultimately show ?thesis
      using k by (intro exI [of _ k]) (auto simp: slots_Cons)
  next
    case True
    then obtain ws' where r: "scan_map (Suc i) ws = Some (m, ws')" "tm' = w # ws'"
      using 2(2) by auto
    then obtain n where n: "m = int (32 * Suc i + n)" "n < 32 * length ws" "n \<notin> slots ws"
      "{..<n} \<subseteq> slots ws" "slots ws' = insert n (slots ws)" "length ws' = length ws"
      using 2(1) True by blast
    have "{..<32 + n} \<subseteq> slots (w # ws)"
    proof
      fix j assume "j \<in> {..<32 + n}"
      then show "j \<in> slots (w # ws)"
      proof (cases "j < 32")
        case j: True
        have "bit w j" unfolding True bit_full_word by (rule j)
        then show ?thesis by (simp add: slots_Cons)
      next
        case False
        then obtain l where "j = 32 + l" "l < n" using \<open>j \<in> {..<32 + n}\<close>
          by (metis add_less_cancel_left le_Suc_ex lessThan_iff not_less)
        then show ?thesis using n(4) by (auto simp: slots_Cons)
      qed
    qed
    then show ?thesis
      using n r(2) True by (intro exI [of _ "32 + n"]) (auto simp: slots_Cons full_word)
  qed
qed simp

lemma scan_map_None: "scan_map i tm = None \<Longrightarrow> slots tm = {..<32 * length tm}"
proof (induction i tm rule: scan_map.induct)
  case (2 i w ws)
  then have w: "w = 0xffffffff" "slots ws = {..<32 * length ws}" by (auto split: if_splits)
  have "j \<in> {..<32} \<union> (+) 32 ` {..<32 * length ws}" if "j < 32 * length (w # ws)" for j
  proof (cases "j < 32")
    case False
    then obtain l where "j = 32 + l" by (metis le_Suc_ex not_less)
    with that show ?thesis by auto
  qed auto
  then have "{..<32 * length (w # ws)} \<subseteq> slots (w # ws)"
    unfolding slots_Cons w full_word by auto
  then show ?case using slots_bound [of "w # ws"] by blast
qed simp

lemma slots_unset:
  assumes "n div 32 < length tm"
  shows "slots (tm[n div 32 := unset_bit_n (tm ! (n div 32)) (n mod 32)]) = slots tm - {n}"
proof -
  have "j = n" if "j div 32 = n div 32" "j mod 32 = n mod 32" for j
    using that by (metis div_mult_mod_eq)
  then have "bit (tm[n div 32 := unset_bit_n (tm ! (n div 32)) (n mod 32)] ! (j div 32)) (j mod 32)
      \<longleftrightarrow> bit (tm ! (j div 32)) (j mod 32) \<and> j \<noteq> n" for j
    using assms by (cases "j div 32 = n div 32") auto
  then show ?thesis by (auto simp: slots_def)
qed

lemma find_set_free_slot_cases:
  assumes "tls_locked st"
  shows "(\<exists>n tm. find_set_free_slot st = Ok (int n, st\<lparr>thread_map := tm\<rparr>)
      \<and> n < 32 * length (thread_map st) \<and> n \<notin> slots (thread_map st)
      \<and> {..<n} \<subseteq> slots (thread_map st)
      \<and> slots tm = insert n (slots (thread_map st)) \<and> length tm = length (thread_map st))
    \<or> find_set_free_slot st = Stop Fatal \<and> slots (thread_map st) = {..<32 * length (thread_map st)}"
proof (cases "scan_map 0 (thread_map st)")
  case None
  then show ?thesis using scan_map_None [OF None] assms by (simp add: find_set_free_slot_def)
next
  case (Some r)
  then obtain m tm where r: "scan_map 0 (thread_map st) = Some (m, tm)" by (cases r) simp
  from scan_map_Some [OF this] obtain n where "m = int n" "n < 32 * length (thread_map st)"
    "n \<notin> slots (thread_map st)" "{..<n} \<subseteq> slots (thread_map st)"
    "slots tm = insert n (slots (thread_map st))" "length tm = length (thread_map st)"
    by auto
  moreover have "find_set_free_slot st = Ok (m, st\<lparr>thread_map := tm\<rparr>)"
    using r assms by (simp add: find_set_free_slot_def)
  ultimately show ?thesis by blast
qed

subsection \<open>Invariant of the live areas\<close>

definition area :: "u32 \<Rightarrow> nat set" where
  "area tdp = bytes (tdp + sizeof_tls_desc - TLS_AREA_SIZE) TLS_AREA_SIZE"

definition td_ok :: "tls_state \<Rightarrow> u32 \<Rightarrow> bool" where
  "td_ok st tdp \<longleftrightarrow> (case descs st tdp of None \<Rightarrow> False | Some td \<Rightarrow>
     tdp = get_tls_desc (start_addr td) \<and> size_td td = TLS_AREA_SIZE
     \<and> is_valid_page (start_addr td) \<and> unat (start_addr td) + unat TLS_AREA_SIZE < 2 ^ 32
     \<and> 0 \<le> nr td \<and> nr td < int LDT_ENTRIES \<and> uint (fs_val td) = nr td * 8 + 7
     \<and> area tdp \<subseteq> mem st
     \<and> (\<exists>d. ldt st (nat (nr td)) = Some d \<and> base_addr d = start_addr td))"

definition slot_of :: "tls_state \<Rightarrow> u32 \<Rightarrow> nat" where
  "slot_of st tdp = (case descs st tdp of None \<Rightarrow> 0 | Some td \<Rightarrow> nat (nr td))"

definition tls_inv :: "tls_state \<Rightarrow> bool" where
  "tls_inv st \<longleftrightarrow> length (thread_map st) = SZ_MAP
    \<and> (\<forall>tdp\<in>set (tls_list st). td_ok st tdp)
    \<and> sorted_wrt (\<lambda>p q. area p \<inter> area q = {}) (tls_list st)
    \<and> distinct (map (slot_of st) (tls_list st))
    \<and> slots (thread_map st) = slot_of st ` set (tls_list st)"

lemma unat_TLS_AREA_SIZE [simp]: "unat TLS_AREA_SIZE = 4411392"
  by (simp add: TLS_AREA_SIZE_def NR_TLS_PAGES_def PAGE_SIZE_def)

lemma TLS_AREA_SIZE_aligned [simp]: "ALIGN_UP TLS_AREA_SIZE PAGE_SIZE = TLS_AREA_SIZE"
  by (simp add: ALIGN_UP_def ALIGN_DOWN_def TLS_AREA_SIZE_def NR_TLS_PAGES_def PAGE_SIZE_def)

lemma TLS_AREA_SIZE_pos [simp]: "0 < TLS_AREA_SIZE"
  by (simp add: word_less_nat_alt)

lemma area_get_tls_desc [simp]: "area (get_tls_desc a) = bytes a TLS_AREA_SIZE"
  by (simp add: area_def get_tls_desc_def)

lemma get_tls_desc_inj [simp]: "get_tls_desc a = get_tls_desc b \<longleftrightarrow> a = b"
  by (simp add: get_tls_desc_def)

lemma unat_get_tls_desc:
  assumes "unat a + unat TLS_AREA_SIZE < 2 ^ 32"
  shows "unat (get_tls_desc a) = unat a + 4411368"
proof -
  have "unat (a + TLS_AREA_SIZE) = unat a + 4411392" using assms by (simp add: unat_add_32)
  moreover have "unat sizeof_tls_desc = 24" by (simp add: sizeof_tls_desc_def)
  ultimately show ?thesis by (simp add: get_tls_desc_def unat_sub_32)
qed

lemma td_ok_slot: "td_ok st tdp \<Longrightarrow> slot_of st tdp < LDT_ENTRIES"
  by (auto simp: td_ok_def slot_of_def LDT_ENTRIES_def split: option.splits)

lemma td_ok_mem: "td_ok st tdp \<Longrightarrow> unat tdp \<in> mem st"
  by (auto simp: td_ok_def unat_get_tls_desc bytes_def split: option.splits)

lemma tls_inv_slots: "tls_inv st \<Longrightarrow> slots (thread_map st) \<subseteq> {..<LDT_ENTRIES}"
  using td_ok_slot by (auto simp: tls_inv_def)

lemma tls_inv_card: "tls_inv st \<Longrightarrow> card (slots (thread_map st)) = length (tls_list st)"
  unfolding tls_inv_def by (metis distinct_card length_map list.set_map)

text \<open>What the bookkeeping of \<^const>\<open>alloc_tls_area\<close> leaves, once a slot is chosen.\<close>

definition new_desc :: "u32 \<Rightarrow> nat \<Rightarrow> user_desc" where
  "new_desc pages n = \<lparr>entry_number = word_of_nat n, base_addr = pages, limit = NR_TLS_PAGES,
    seg_32bit = True, contents = 0, read_exec_only = False, limit_in_pages = True,
    seg_not_present = False, useable = True\<rparr>"

definition new_state :: "u32 \<Rightarrow> vm \<Rightarrow> nat \<Rightarrow> u32 list \<Rightarrow> tls_state \<Rightarrow> tls_state" where
  "new_state pages m n tm st = st\<lparr>
     thread_map := tm,
     descs := (descs st)(get_tls_desc pages \<mapsto>
       \<lparr>fs_val = word_of_nat (n * 8 + 7), nr = int n, start_addr = pages, size_td = TLS_AREA_SIZE\<rparr>),
     tls_list := get_tls_desc pages # tls_list st,
     tls_locked := False, mem := m, ldt := (ldt st)(n \<mapsto> new_desc pages n),
     guards := (pages, PAGE_SIZE) # guards st\<rparr>"

lemma new_desc_entry: "n < 2 ^ 32 \<Longrightarrow> unat (entry_number (new_desc pages n)) = n"
  by (simp add: new_desc_def unat_word_of_nat_32)

lemma setup_ldt_new:
  assumes "modify_ldt_spec modify_ldt" "n < 2 ^ 32"
    "descs st tdp = Some \<lparr>fs_val = 0, nr = 0, start_addr = pages, size_td = TLS_AREA_SIZE\<rparr>"
  shows "setup_ldt modify_ldt tdp (int n) st =
    (if n < LDT_ENTRIES then Ok (st\<lparr>ldt := (ldt st)(n \<mapsto> new_desc pages n),
        descs := (descs st)(tdp \<mapsto> \<lparr>fs_val = word_of_nat (n * 8 + 7), nr = int n,
          start_addr = pages, size_td = TLS_AREA_SIZE\<rparr>)\<rparr>)
     else Stop Assertion)"
proof -
  have w: "word_of_int (int n * 8 + 4 + 3) = (word_of_nat (n * 8 + 7) :: u16)"
    by (simp add: ac_simps)
  have "setup_ldt modify_ldt tdp (int n) st =
    bindR (write_ldt modify_ldt (new_desc pages n) st) (\<lambda>st.
      Ok (st\<lparr>descs := (descs st)(tdp \<mapsto> \<lparr>fs_val = word_of_nat (n * 8 + 7), nr = int n,
          start_addr = pages, size_td = TLS_AREA_SIZE\<rparr>)\<rparr>))"
    unfolding setup_ldt_def assms(3) w by (simp add: new_desc_def)
  moreover have "write_ldt modify_ldt (new_desc pages n) st =
    (if n < LDT_ENTRIES then Ok (st\<lparr>ldt := (ldt st)(n \<mapsto> new_desc pages n)\<rparr>) else Stop Assertion)"
    using assms(1) [unfolded modify_ldt_spec_def, rule_format, of "new_desc pages n" "ldt st"]
      new_desc_entry [OF assms(2), of pages]
    by (auto simp: write_ldt_def new_desc_def split: prod.splits)
  ultimately show ?thesis by simp
qed

lemma alloc_tls_area_steps:
  assumes "modify_ldt_spec modify_ldt" "n < 2 ^ 32"
    "xalloc_pages mmap TLS_AREA_SIZE False (mem st) = Ok (pages, m)"
    "scan_map 0 (thread_map st) = Some (int n, tm)"
  shows "alloc_tls_area mmap modify_ldt st =
    (if n < LDT_ENTRIES then Ok (get_tls_desc pages, new_state pages m n tm st) else Stop Assertion)"
  using assms(3,4)
  by (simp add: alloc_tls_area_def xmutex_lock_tls_def xmutex_unlock_tls_def find_set_free_slot_def
      setup_ldt_new [OF assms(1,2), where pages = pages] new_state_def Let_def)

lemma xalloc_pages_fresh:
  assumes "mmap_spec mmap" "xalloc_pages mmap TLS_AREA_SIZE ex k = Ok (pages, m)"
  shows "is_valid_page pages" "unat pages + unat TLS_AREA_SIZE < 2 ^ 32"
    "bytes pages TLS_AREA_SIZE \<inter> k = {}" "m = k \<union> bytes pages TLS_AREA_SIZE"
proof -
  obtain prot where m: "mmap k TLS_AREA_SIZE prot = (pages, m)" "is_valid_page pages"
    using assms(2) by (auto simp: xalloc_pages_def Let_def run_simps split: prod.splits)
  show "is_valid_page pages" by (rule m(2))
  have "unat pages + unat TLS_AREA_SIZE < 2 ^ 32 \<and> bytes pages TLS_AREA_SIZE \<inter> k = {}
      \<and> m = k \<union> bytes pages TLS_AREA_SIZE"
    using assms(1) m unfolding mmap_spec_def by blast
  then show "unat pages + unat TLS_AREA_SIZE < 2 ^ 32" "bytes pages TLS_AREA_SIZE \<inter> k = {}"
    "m = k \<union> bytes pages TLS_AREA_SIZE" by blast+
qed

lemma uint_word_of_nat_16: "k < 65536 \<Longrightarrow> uint (word_of_nat k :: u16) = int k"
  by (simp only: unsigned_of_nat) (simp add: take_bit_eq_mod)

lemma uint_fs_val: "n < LDT_ENTRIES \<Longrightarrow> uint (word_of_nat n * 8 + 7 :: u16) = int n * 8 + 7"
  using uint_word_of_nat_16 [of "n * 8 + 7"] by (simp add: LDT_ENTRIES_def)

lemma new_state_td_ok:
  assumes "td_ok st tdp" "tdp \<noteq> get_tls_desc pages" "slot_of st tdp \<noteq> n"
  shows "td_ok (new_state pages (mem st \<union> A) n tm st) tdp"
    "slot_of (new_state pages (mem st \<union> A) n tm st) tdp = slot_of st tdp"
  using assms by (auto simp: td_ok_def slot_of_def new_state_def split: option.splits)

lemma new_state_inv:
  assumes inv: "tls_inv st" and page: "is_valid_page pages" "unat pages + unat TLS_AREA_SIZE < 2 ^ 32"
    and fresh: "bytes pages TLS_AREA_SIZE \<inter> mem st = {}"
    and n: "n < LDT_ENTRIES" "n \<notin> slots (thread_map st)"
    and tm: "slots tm = insert n (slots (thread_map st))" "length tm = length (thread_map st)"
  defines "st' \<equiv> new_state pages (mem st \<union> bytes pages TLS_AREA_SIZE) n tm st"
  shows "tls_inv st'" "slot_of st' (get_tls_desc pages) = n"
proof -
  let ?tdp = "get_tls_desc pages"
  have ok: "\<forall>p\<in>set (tls_list st). td_ok st p" using inv by (simp add: tls_inv_def)
  have "unat ?tdp \<in> bytes pages TLS_AREA_SIZE"
    using page(2) by (simp add: unat_get_tls_desc bytes_def)
  then have notin: "?tdp \<notin> set (tls_list st)" using ok td_ok_mem fresh by blast
  have old: "td_ok st' p \<and> slot_of st' p = slot_of st p" if p: "p \<in> set (tls_list st)" for p
  proof -
    have "p \<noteq> ?tdp" using notin p by blast
    moreover have "slot_of st p \<noteq> n" using inv n(2) p unfolding tls_inv_def by blast
    ultimately show ?thesis using new_state_td_ok ok p unfolding st'_def by blast
  qed
  show slot: "slot_of st' ?tdp = n" by (simp add: slot_of_def st'_def new_state_def)
  have new: "td_ok st' ?tdp"
    using page n(1) by (simp add: td_ok_def st'_def new_state_def uint_fs_val new_desc_def)
  have list: "tls_list st' = ?tdp # tls_list st" "thread_map st' = tm"
    by (simp_all add: st'_def new_state_def)
  have "area ?tdp \<inter> area p = {}" if p: "p \<in> set (tls_list st)" for p
  proof -
    have "area p \<subseteq> mem st" using ok p by (auto simp: td_ok_def split: option.splits)
    then show ?thesis using fresh by auto
  qed
  then have "sorted_wrt (\<lambda>p q. area p \<inter> area q = {}) (tls_list st')"
    using inv unfolding tls_inv_def list by simp
  moreover have "map (slot_of st') (tls_list st') = n # map (slot_of st) (tls_list st)"
    using slot old by (simp add: list)
  then have "distinct (map (slot_of st') (tls_list st'))"
    using inv n(2) by (simp add: tls_inv_def)
  moreover have "slots (thread_map st') = slot_of st' ` set (tls_list st')"
    using inv tm(1) slot old by (simp add: list tls_inv_def)
  ultimately show "tls_inv st'"
    using inv n(2) new old tm unfolding tls_inv_def list by simp
qed

lemma least_free:
  assumes "{..<n} \<subseteq> S" "n \<notin> S" "S \<subseteq> {..<m :: nat}"
  shows "n \<le> card S" "card S < m \<Longrightarrow> n < m"
proof -
  have "finite S" using assms(3) finite_subset by blast
  then show "n \<le> card S" using card_mono [OF _ assms(1)] by simp
  then show "n < m" if "card S < m" using that by simp
qed

lemma clear_ldt_Ok:
  assumes "modify_ldt_spec modify_ldt" "0 \<le> nr td" "nr td < int LDT_ENTRIES"
    "uint (fs_val td) = nr td * 8 + 7"
  shows "clear_ldt modify_ldt td st = Ok (st\<lparr>ldt := (ldt st)(nat (nr td) := None)\<rparr>)"
proof -
  have e: "unat (word_of_int (nr td) :: u32) = nat (nr td)"
    using assms(2,3) unat_word_of_nat_32 [of "nat (nr td)"] by (simp add: LDT_ENTRIES_def)
  show ?thesis
    using assms(1) [unfolded modify_ldt_spec_def, rule_format, of
        "\<lparr>entry_number = word_of_int (nr td), base_addr = 0, limit = 0, seg_32bit = False,
          contents = 0, read_exec_only = True, limit_in_pages = False, seg_not_present = True,
          useable = False\<rparr>" "ldt st"] assms(2-4) e
    by (auto simp: clear_ldt_def write_ldt_def nat_less_iff)
qed

definition del_state :: "u32 \<Rightarrow> tls_state \<Rightarrow> tls_state" where
  "del_state tdp st = (let n = slot_of st tdp in st\<lparr>
     thread_map := (thread_map st)[n div 32 := unset_bit_n (thread_map st ! (n div 32)) (n mod 32)],
     descs := (descs st)(tdp := None), tls_list := remove1 tdp (tls_list st),
     mem := mem st - area tdp, ldt := (ldt st)(n := None), tls_locked := False\<rparr>)"

lemma dealloc_tls_area_Ok:
  assumes "munmap_spec munmap" "modify_ldt_spec modify_ldt" "td_ok st tdp"
    "length (thread_map st) = SZ_MAP"
  shows "dealloc_tls_area munmap modify_ldt tdp st = Ok (del_state tdp st)"
proof -
  obtain td where td: "descs st tdp = Some td" "tdp = get_tls_desc (start_addr td)"
    "size_td td = TLS_AREA_SIZE" "is_valid_page (start_addr td)"
    "unat (start_addr td) + unat TLS_AREA_SIZE < 2 ^ 32"
    "0 \<le> nr td" "nr td < int LDT_ENTRIES" "uint (fs_val td) = nr td * 8 + 7"
    using assms(3) by (auto simp: td_ok_def split: option.splits)
  have "unat tdp \<noteq> 0" using unat_get_tls_desc [OF td(5)] td(2) by simp
  then have nz: "tdp \<noteq> 0" by auto
  have slot: "slot_of st tdp = nat (nr td)" by (simp add: slot_of_def td(1))
  then have lt: "nat (nr td) div 32 < length (thread_map st)"
    using td_ok_slot [OF assms(3)] assms(4) by (simp add: SZ_MAP_def MAX_THREADS_def LDT_ENTRIES_def)
  have ar: "area tdp = bytes (start_addr td) TLS_AREA_SIZE" by (simp add: td(2))
  have un: "munmap k (start_addr td) TLS_AREA_SIZE = (0, k - area tdp)" for k
    using assms(1) td(4) unfolding munmap_spec_def ar by blast
  show ?thesis
    using nz td(1-4) lt un
    by (simp add: dealloc_tls_area_def dealloc_tls_area_nolock_def xmutex_lock_tls_def
        xmutex_unlock_tls_def clear_ldt_Ok [OF assms(2) td(6-8)] clear_slot_def xdealloc_pages_def
        del_state_def slot_of_def Let_def)
qed

lemma tls_list_distinct: "tls_inv st \<Longrightarrow> distinct (tls_list st)"
  by (simp add: tls_inv_def distinct_map)

lemma del_state_td_ok:
  assumes "td_ok st p" "p \<noteq> tdp" "area p \<inter> area tdp = {}" "slot_of st p \<noteq> slot_of st tdp"
  shows "td_ok (del_state tdp st) p" "slot_of (del_state tdp st) p = slot_of st p"
proof -
  show "slot_of (del_state tdp st) p = slot_of st p"
    using assms(2) by (simp add: slot_of_def del_state_def Let_def)
  show "td_ok (del_state tdp st) p"
    using assms(1-4) unfolding td_ok_def del_state_def Let_def slot_of_def [of st p]
    by (auto split: option.splits)
qed

lemma del_state_inv:
  assumes inv: "tls_inv st" and tdp: "tdp \<in> set (tls_list st)"
  shows "tls_inv (del_state tdp st)"
    "slots (thread_map (del_state tdp st)) = slots (thread_map st) - {slot_of st tdp}"
proof -
  let ?st = "del_state tdp st"
  have ok: "\<forall>p\<in>set (tls_list st). td_ok st p" using inv by (simp add: tls_inv_def)
  have d: "distinct (tls_list st)" using tls_list_distinct [OF inv] .
  have inj: "inj_on (slot_of st) (set (tls_list st))" using inv by (simp add: tls_inv_def distinct_map)
  have list: "tls_list ?st = remove1 tdp (tls_list st)" "set (tls_list ?st) = set (tls_list st) - {tdp}"
    using d by (simp_all add: del_state_def Let_def)
  have sym: "symp (\<lambda>p q. area p \<inter> area q = {})" by (rule sympI) (simp add: Int_commute)
  have disj: "area p \<inter> area q = {}" if "p \<in> set (tls_list st)" "q \<in> set (tls_list st)" "p \<noteq> q" for p q
    using inv sorted_wrt_sym_mem [OF _ sym that] by (simp add: tls_inv_def)
  have old: "td_ok ?st p \<and> slot_of ?st p = slot_of st p" if p: "p \<in> set (tls_list ?st)" for p
  proof -
    have p': "p \<in> set (tls_list st)" "p \<noteq> tdp" using p list(2) by auto
    then have "slot_of st p \<noteq> slot_of st tdp" using inj tdp by (auto dest: inj_onD)
    then show ?thesis
      using del_state_td_ok [OF bspec [OF ok p'(1)] p'(2) disj [OF p'(1) tdp p'(2)]] by blast
  qed
  have lt: "slot_of st tdp div 32 < length (thread_map st)"
    using td_ok_slot [of st tdp] ok tdp inv
    by (simp add: tls_inv_def SZ_MAP_def MAX_THREADS_def LDT_ENTRIES_def less_mult_imp_div_less)
  then show sl: "slots (thread_map ?st) = slots (thread_map st) - {slot_of st tdp}"
    by (simp add: del_state_def Let_def slots_unset)
  also have "\<dots> = slot_of st ` set (tls_list ?st)"
    using inv tdp unfolding list(2) by (simp add: tls_inv_def inj_on_image_set_diff [OF inj])
  also have "\<dots> = slot_of ?st ` set (tls_list ?st)" using old by (intro image_cong) simp_all
  finally have 1: "slots (thread_map ?st) = slot_of ?st ` set (tls_list ?st)" .
  have "inj_on (slot_of ?st) (set (tls_list ?st))"
    using inj old list(2) by (auto simp: inj_on_def)
  then have 2: "distinct (map (slot_of ?st) (tls_list ?st))" using d by (simp add: distinct_map list(1))
  have "sorted_wrt (\<lambda>p q. area p \<inter> area q = {}) (tls_list st)" using inv by (simp add: tls_inv_def)
  then have 3: "sorted_wrt (\<lambda>p q. area p \<inter> area q = {}) (tls_list ?st)"
    unfolding list(1) by (rule sorted_wrt_remove1)
  have "length (thread_map ?st) = SZ_MAP" using inv by (simp add: tls_inv_def del_state_def Let_def)
  with 1 2 3 old show "tls_inv ?st" unfolding tls_inv_def by blast
qed

lemma alloc_tls_area_cases:
  assumes spec: "mmap_spec mmap" "modify_ldt_spec modify_ldt" and inv: "tls_inv st"
    and page: "xalloc_pages mmap TLS_AREA_SIZE False (mem st) = Ok (pages, m)"
  shows "if length (tls_list st) < LDT_ENTRIES
    then \<exists>st'. alloc_tls_area mmap modify_ldt st = Ok (get_tls_desc pages, st') \<and> tls_inv st'
      \<and> tls_list st' = get_tls_desc pages # tls_list st \<and> mem st' = m
      \<and> slot_of st' (get_tls_desc pages) \<notin> slots (thread_map st)
      \<and> {..<slot_of st' (get_tls_desc pages)} \<subseteq> slots (thread_map st)
      \<and> slots (thread_map st') = insert (slot_of st' (get_tls_desc pages)) (slots (thread_map st))
    else alloc_tls_area mmap modify_ldt st = Stop Assertion"
proof -
  have len: "length (thread_map st) = SZ_MAP" using inv by (simp add: tls_inv_def)
  have sub: "slots (thread_map st) \<subseteq> {..<LDT_ENTRIES}" using tls_inv_slots [OF inv] .
  have card: "card (slots (thread_map st)) = length (tls_list st)" using tls_inv_card [OF inv] .
  have "scan_map 0 (thread_map st) \<noteq> None"
  proof
    assume "scan_map 0 (thread_map st) = None"
    from scan_map_None [OF this] have "LDT_ENTRIES \<in> slots (thread_map st)"
      by (simp add: len SZ_MAP_def MAX_THREADS_def LDT_ENTRIES_def)
    with sub show False by blast
  qed
  then obtain r tm where "scan_map 0 (thread_map st) = Some (r, tm)" by auto
  from scan_map_Some [OF this] this obtain n where scan: "scan_map 0 (thread_map st) = Some (int n, tm)"
    and n: "n < 32 * length (thread_map st)" "n \<notin> slots (thread_map st)" "{..<n} \<subseteq> slots (thread_map st)"
    and tm: "slots tm = insert n (slots (thread_map st))" "length tm = length (thread_map st)"
    by auto
  have "n < 2 ^ 32" using n(1) by (simp add: len SZ_MAP_def MAX_THREADS_def LDT_ENTRIES_def)
  note steps = alloc_tls_area_steps [OF spec(2) this page scan]
  show ?thesis
  proof (cases "length (tls_list st) < LDT_ENTRIES")
    case True
    then have lt: "n < LDT_ENTRIES" using least_free(2) [OF n(3,2) sub] card by simp
    note fresh = xalloc_pages_fresh [OF spec(1) page]
    note new = new_state_inv [OF inv fresh(1,2,3) lt n(2) tm]
    have "tls_list (new_state pages m n tm st) = get_tls_desc pages # tls_list st"
      "mem (new_state pages m n tm st) = m" "thread_map (new_state pages m n tm st) = tm"
      by (simp_all add: new_state_def)
    then show ?thesis using steps lt new n tm True by (simp add: fresh(4))
  next
    case False
    have "slots (thread_map st) = {..<LDT_ENTRIES}"
      using sub card False card_mono [OF _ sub] by (intro card_subset_eq) auto
    then have "\<not> n < LDT_ENTRIES" using n(2) by auto
    then show ?thesis using steps False by simp
  qed
qed

subsection \<open>A kernel for the witnesses\<close>

definition demo_modify_ldt :: modify_ldt where
  "demo_modify_ldt l d = (if unat (entry_number d) < LDT_ENTRIES
     then (0, l(unat (entry_number d) :=
           if read_exec_only d \<and> seg_not_present d \<and> base_addr d = 0 then None else Some d))
     else (-22, l))"

lemma demo_modify_ldt_spec: "modify_ldt_spec demo_modify_ldt"
  by (simp add: modify_ldt_spec_def demo_modify_ldt_def)

lemma init_tls_inv: "tls_inv (init_tls_state m l)"
  by (simp add: tls_inv_def init_tls_state_def)

lemma demo_pages:
  "xalloc_pages demo_mmap TLS_AREA_SIZE False {} = Ok (0x10000000, {} \<union> bytes 0x10000000 TLS_AREA_SIZE)"
proof -
  have "TLS_AREA_SIZE \<le> 0x10000000" by (simp add: word_le_nat_alt)
  then show ?thesis
    by (simp add: xalloc_pages_def demo_mmap_def Let_def) (simp add: is_valid_page_def PAGE_SIZE_def)
qed

subsection \<open>Properties\<close>

text \<open>
  \<^verbatim>\<open>find_set_free_slot\<close> returns the lowest free slot and marks exactly that slot
  used; it is fatal exactly when every slot is used.  The bitmap word is searched and updated
  with the bit tricks of \<^verbatim>\<open>bithacks.h\<close>.
\<close>

theorem find_set_free_slot_lowest:
  assumes "tls_locked st"
  shows "case find_set_free_slot st of
      Inr (n, st') \<Rightarrow> 0 \<le> n \<and> nat n \<notin> slots (thread_map st) \<and> {..<nat n} \<subseteq> slots (thread_map st)
        \<and> slots (thread_map st') = insert (nat n) (slots (thread_map st))
        \<and> st' = st\<lparr>thread_map := thread_map st'\<rparr>
    | Inl e \<Rightarrow> e = Fatal \<and> slots (thread_map st) = {..<32 * length (thread_map st)}"
  using find_set_free_slot_cases [OF assms] by (elim disjE exE conjE) simp_all

theorem find_set_free_slot_lowest_witness:
  "case find_set_free_slot (init_tls_state {} Map.empty\<lparr>tls_locked := True, thread_map := [0xffffffff, 0x5]\<rparr>) of
      Inr (n, st') \<Rightarrow> n = 33 \<and> slots (thread_map st') = insert (nat n) (slots [0xffffffff, 0x5])
    | Inl e \<Rightarrow> False"
  using find_set_free_slot_lowest
    [of "init_tls_state {} Map.empty\<lparr>tls_locked := True, thread_map := [0xffffffff, 0x5]\<rparr>"]
  by (simp add: find_set_free_slot_def last_0_pos_def set_last_0_def count_1s_def)

text \<open>
  C12.  While fewer than 8192 threads live, \<^verbatim>\<open>alloc_tls_area\<close> succeeds whenever the
  kernel gives memory: the new area is disjoint from the live ones, gets the lowest free slot
  and an LDT entry whose base is the area and whose selector is in \<^verbatim>\<open>fs_val\<close> (the
  invariant \<open>tls_inv\<close>).  With 8192 live threads it stops at the assertion on the failed
  LDT write, not at the intended fatal error for a full slot map.
\<close>

theorem alloc_tls_area_outcome:
  assumes "mmap_spec mmap" "modify_ldt_spec modify_ldt" "tls_inv st"
    "xalloc_pages mmap TLS_AREA_SIZE False (mem st) = Ok (pages, m)"
  shows "if length (tls_list st) < LDT_ENTRIES
    then \<exists>st'. alloc_tls_area mmap modify_ldt st = Ok (get_tls_desc pages, st') \<and> tls_inv st'
      \<and> tls_list st' = get_tls_desc pages # tls_list st \<and> mem st' = m
      \<and> slot_of st' (get_tls_desc pages) \<notin> slots (thread_map st)
      \<and> {..<slot_of st' (get_tls_desc pages)} \<subseteq> slots (thread_map st)
    else alloc_tls_area mmap modify_ldt st = Stop Assertion"
  using alloc_tls_area_cases [OF assms] by (auto split: if_splits)

theorem alloc_tls_area_outcome_witness:
  "\<exists>st'. alloc_tls_area demo_mmap demo_modify_ldt (init_tls_state {} Map.empty)
      = Ok (get_tls_desc 0x10000000, st') \<and> tls_inv st'"
  using alloc_tls_area_outcome [OF demo_mmap_spec demo_modify_ldt_spec init_tls_inv [of "{}" Map.empty],
      of "0x10000000" "{} \<union> bytes 0x10000000 TLS_AREA_SIZE"] demo_pages
  by (simp add: init_tls_state_def LDT_ENTRIES_def) blast

lemma demo_tls_alloc:
  "\<exists>st'. alloc_tls_area demo_mmap demo_modify_ldt (init_tls_state {} Map.empty)
    = Ok (get_tls_desc 0x10000000, st')"
  using alloc_tls_area_cases [OF demo_mmap_spec demo_modify_ldt_spec init_tls_inv [of "{}" Map.empty],
      of "0x10000000" "{} \<union> bytes 0x10000000 TLS_AREA_SIZE"] demo_pages
  by (auto simp: init_tls_state_def LDT_ENTRIES_def)

text \<open>
  C14.  Allocating an area and freeing it again restores the slots in use, the mapped memory and
  the list of live areas, and keeps the invariant.
\<close>

theorem alloc_dealloc_tls_area:
  assumes "mmap_spec mmap" "munmap_spec munmap" "modify_ldt_spec modify_ldt" "tls_inv st"
    "alloc_tls_area mmap modify_ldt st = Ok (tdp, st')"
  shows "\<exists>st''. dealloc_tls_area munmap modify_ldt tdp st' = Ok st'' \<and> tls_inv st''
    \<and> slots (thread_map st'') = slots (thread_map st) \<and> mem st'' = mem st
    \<and> tls_list st'' = tls_list st"
proof -
  obtain pages m where p: "xalloc_pages mmap TLS_AREA_SIZE False (mem st) = Ok (pages, m)"
    using assms(5) by (auto simp: alloc_tls_area_def xmutex_lock_tls_def Let_def run_simps)
  have tdp: "tdp = get_tls_desc pages" and inv': "tls_inv st'"
    and st': "tls_list st' = tdp # tls_list st" "mem st' = m" "slot_of st' tdp \<notin> slots (thread_map st)"
    "slots (thread_map st') = insert (slot_of st' tdp) (slots (thread_map st))"
    using alloc_tls_area_cases [OF assms(1,3,4) p] assms(5) by (auto split: if_splits)
  note fresh = xalloc_pages_fresh [OF assms(1) p]
  have "td_ok st' tdp" "length (thread_map st') = SZ_MAP"
    using inv' st'(1) by (simp_all add: tls_inv_def)
  from dealloc_tls_area_Ok [OF assms(2,3) this]
  have d: "dealloc_tls_area munmap modify_ldt tdp st' = Ok (del_state tdp st')" .
  note del = del_state_inv [OF inv', of tdp]
  have "mem (del_state tdp st') = mem st"
    using st'(2) fresh(3,4) by (auto simp: del_state_def Let_def tdp)
  moreover have "tls_list (del_state tdp st') = tls_list st"
    using st'(1) by (simp add: del_state_def Let_def)
  ultimately show ?thesis using d del st' by auto
qed

theorem alloc_dealloc_tls_area_witness:
  "\<exists>st' st''. alloc_tls_area demo_mmap demo_modify_ldt (init_tls_state {} Map.empty)
      = Ok (get_tls_desc 0x10000000, st')
    \<and> dealloc_tls_area demo_munmap demo_modify_ldt (get_tls_desc 0x10000000) st' = Ok st''
    \<and> slots (thread_map st'') = {} \<and> mem st'' = {} \<and> tls_list st'' = []"
proof -
  have "munmap_spec demo_munmap" by (simp add: munmap_spec_def demo_munmap_def)
  note rt = alloc_dealloc_tls_area [OF demo_mmap_spec this demo_modify_ldt_spec init_tls_inv]
  obtain st' where st': "alloc_tls_area demo_mmap demo_modify_ldt (init_tls_state {} Map.empty)
    = Ok (get_tls_desc 0x10000000, st')" using demo_tls_alloc by blast
  from rt [OF st'] st' show ?thesis by (auto simp: init_tls_state_def)
qed

end
