(* ===== verification/Lzo_Decompress.thy ===== *)
theory Lzo_Decompress
  imports Prelude
begin

text \<open>
  The LZO1X decompressor (\<^verbatim>\<open>src/lib/lzo1x_decompress.c\<close>, with the constants of
  \<^verbatim>\<open>src/lib/lzodefs.h\<close>).  The C function is one body with labels and
  \<^verbatim>\<open>goto\<close>; here each label is a value of \<open>dpoint\<close>, the code from a label to the
  next jump is a function of type \<open>dres\<close>, and \<open>decompress_from\<close> follows the jumps.

  Pointers into the input are indices \<open>ip\<close>, the output written so far is a list \<open>out\<close>
  (so \<^verbatim>\<open>op - out\<close> is its length), and \<^verbatim>\<open>m_pos\<close> is an integer offset into
  it.  The counter \<^verbatim>\<open>t\<close> is a 32-bit \<^verbatim>\<open>size_t\<close>: its sums are reduced modulo
  \<open>2 ^ 32\<close> by \<open>w32\<close>.  Every memory access is checked by the model: a read past the
  input, a read of output bytes not yet written and a write past the output buffer are the three
  faults of \<open>lzo_fault\<close>, which the C code would not notice.
\<close>

subsection \<open>Results and accesses\<close>

datatype lzo_code =
    LZO_E_OK
  | LZO_E_INPUT_OVERRUN
  | LZO_E_OUTPUT_OVERRUN
  | LZO_E_LOOKBEHIND_OVERRUN
  | LZO_E_EOF_NOT_FOUND
  | LZO_E_INPUT_NOT_CONSUMED

datatype lzo_fault = Read_past_input | Read_unwritten | Write_past_output

definition w32 :: "nat \<Rightarrow> nat" where
  "w32 n = n mod 2 ^ 32"

definition M2_MAX_OFFSET :: nat where "M2_MAX_OFFSET = 0x0800"

definition rd :: "byte list \<Rightarrow> nat \<Rightarrow> lzo_fault + nat" where
  "rd inp ip = (if ip < length inp then Ok (unat (inp ! ip)) else Stop Read_past_input)"

definition HAVE_IP :: "nat \<Rightarrow> byte list \<Rightarrow> nat \<Rightarrow> bool" where
  "HAVE_IP x inp ip \<longleftrightarrow> length inp - ip < x"

definition HAVE_OP :: "nat \<Rightarrow> nat \<Rightarrow> byte list \<Rightarrow> bool" where
  "HAVE_OP x cap out \<longleftrightarrow> cap - length out < x"

definition HAVE_LB :: "int \<Rightarrow> byte list \<Rightarrow> bool" where
  "HAVE_LB m_pos out \<longleftrightarrow> m_pos < 0 \<or> int (length out) \<le> m_pos"

text \<open>Copy \<open>n\<close> bytes of input to the output (\<^verbatim>\<open>COPY4\<close> for \<open>n = 4\<close>).\<close>

definition copy_in :: "byte list \<Rightarrow> nat \<Rightarrow> nat \<Rightarrow> nat \<Rightarrow> byte list \<Rightarrow> lzo_fault + (nat \<times> byte list)" where
  "copy_in inp cap n ip out =
    (if length inp < ip + n then Stop Read_past_input
     else if cap < length out + n then Stop Write_past_output
     else Ok (ip + n, out @ take n (drop ip inp)))"

primrec copy_in_bytes :: "byte list \<Rightarrow> nat \<Rightarrow> nat \<Rightarrow> nat \<Rightarrow> byte list \<Rightarrow> lzo_fault + (nat \<times> byte list)" where
  "copy_in_bytes inp cap 0 ip out = Ok (ip, out)"
| "copy_in_bytes inp cap (Suc t) ip out =
    bindR (copy_in inp cap 1 ip out) (\<lambda>(ip, out). copy_in_bytes inp cap t ip out)"

fun copy_in_words :: "byte list \<Rightarrow> nat \<Rightarrow> nat \<Rightarrow> nat \<Rightarrow> byte list \<Rightarrow> lzo_fault + (nat \<times> nat \<times> byte list)" where
  "copy_in_words inp cap t ip out =
    (if 4 \<le> t then bindR (copy_in inp cap 4 ip out) (\<lambda>(ip, out). copy_in_words inp cap (t - 4) ip out)
     else Ok (t, ip, out))"

text \<open>Copy one byte, or four at once, from output position \<open>m\<close> to the end of the output.\<close>

primrec copy_back :: "nat \<Rightarrow> nat \<Rightarrow> nat \<Rightarrow> byte list \<Rightarrow> lzo_fault + (nat \<times> byte list)" where
  "copy_back cap 0 m out = Ok (m, out)"
| "copy_back cap (Suc t) m out =
    (if length out \<le> m then Stop Read_unwritten
     else if cap \<le> length out then Stop Write_past_output
     else copy_back cap t (Suc m) (out @ [out ! m]))"

definition copy4_back :: "nat \<Rightarrow> nat \<Rightarrow> byte list \<Rightarrow> lzo_fault + (nat \<times> byte list)" where
  "copy4_back cap m out =
    (if length out < m + 4 then Stop Read_unwritten
     else if cap < length out + 4 then Stop Write_past_output
     else Ok (m + 4, out @ take 4 (drop m out)))"

fun copy_back_words :: "nat \<Rightarrow> nat \<Rightarrow> nat \<Rightarrow> byte list \<Rightarrow> lzo_fault + (nat \<times> nat \<times> byte list)" where
  "copy_back_words cap t m out =
    (if 4 \<le> t then bindR (copy4_back cap m out) (\<lambda>(m, out). copy_back_words cap (t - 4) m out)
     else Ok (t, m, out))"

text \<open>
  The loop over zero bytes that lengthens a run:
  \<^verbatim>\<open>while (*ip == 0) { t += 255; ip++; ... }\<close> with the test for the end of input before
  every byte; \<open>None\<close> is the jump to \<^verbatim>\<open>input_overrun\<close>.
\<close>

function zero_run :: "byte list \<Rightarrow> nat \<Rightarrow> nat \<Rightarrow> lzo_fault + (nat \<times> nat) option" where
  "zero_run inp ip t =
    (if HAVE_IP 1 inp ip then Ok None
     else bindR (rd inp ip) (\<lambda>b.
       if b = 0 then zero_run inp (Suc ip) (w32 (t + 255)) else Ok (Some (ip, t))))"
  by pat_completeness auto

termination
  by (relation "measure (\<lambda>(inp, ip, t). length inp - ip)") (auto simp: HAVE_IP_def)

declare zero_run.simps [simp del] copy_in_words.simps [simp del] copy_back_words.simps [simp del]

subsection \<open>The code from label to label\<close>

datatype dpoint =
    Outer_loop
  | First_literal_run
  | Match nat \<comment> \<open>with the opcode \<open>t\<close>\<close>
  | Match_done
  | Match_next nat \<comment> \<open>with the number \<open>t\<close> of literals\<close>

datatype dres =
    Goto dpoint nat "byte list"
  | Return lzo_code "byte list"

definition literal_run :: "byte list \<Rightarrow> nat \<Rightarrow> nat \<Rightarrow> nat \<Rightarrow> byte list \<Rightarrow> lzo_fault + dres" where
  "literal_run inp cap t ip out =
    (if HAVE_OP (w32 (t + 3)) cap out then Ok (Return LZO_E_OUTPUT_OVERRUN out)
     else if HAVE_IP (w32 (t + 4)) inp ip then Ok (Return LZO_E_INPUT_OVERRUN out)
     else bindR (copy_in inp cap 4 ip out) (\<lambda>(ip, out).
       let t = w32 (t + (2 ^ 32 - 1))
       in if 0 < t then
            bindR (copy_in_words inp cap t ip out) (\<lambda>(t, ip, out).
            bindR (copy_in_bytes inp cap t ip out) (\<lambda>(ip, out).
              Ok (Goto First_literal_run ip out)))
          else Ok (Goto First_literal_run ip out)))"

definition d_outer :: "byte list \<Rightarrow> nat \<Rightarrow> nat \<Rightarrow> byte list \<Rightarrow> lzo_fault + dres" where
  "d_outer inp cap ip out =
    (if \<not> ip < length inp then Ok (Return LZO_E_EOF_NOT_FOUND out)
     else bindR (rd inp ip) (\<lambda>t.
       let ip = Suc ip
       in if 16 \<le> t then Ok (Goto (Match t) ip out)
          else if t = 0 then
            bindR (zero_run inp ip t) (\<lambda>r. case r of
                None \<Rightarrow> Ok (Return LZO_E_INPUT_OVERRUN out)
              | Some (ip, t) \<Rightarrow> bindR (rd inp ip) (\<lambda>b. literal_run inp cap (w32 (t + (15 + b))) (Suc ip) out))
          else literal_run inp cap t ip out))"

definition d_first :: "byte list \<Rightarrow> nat \<Rightarrow> nat \<Rightarrow> byte list \<Rightarrow> lzo_fault + dres" where
  "d_first inp cap ip out =
    bindR (rd inp ip) (\<lambda>t.
      let ip = Suc ip
      in if 16 \<le> t then Ok (Goto (Match t) ip out)
         else bindR (rd inp ip) (\<lambda>b.
           let m_pos = int (length out) - (1 + int M2_MAX_OFFSET);
               m_pos = m_pos - int (t div 4);
               m_pos = m_pos - int (b * 4);
               ip = Suc ip
           in if HAVE_LB m_pos out then Ok (Return LZO_E_LOOKBEHIND_OVERRUN out)
              else if HAVE_OP 3 cap out then Ok (Return LZO_E_OUTPUT_OVERRUN out)
              else bindR (copy_back cap 3 (nat m_pos) out) (\<lambda>(m, out). Ok (Goto Match_done ip out))))"

text \<open>\<^verbatim>\<open>copy_match\<close>: two bytes, then a \<^verbatim>\<open>do ... while (--t > 0)\<close> loop.\<close>

definition copy_match :: "nat \<Rightarrow> nat \<Rightarrow> nat \<Rightarrow> nat \<Rightarrow> byte list \<Rightarrow> lzo_fault + dres" where
  "copy_match cap t m ip out =
    bindR (copy_back cap 2 m out) (\<lambda>(m, out).
    bindR (copy_back cap (if t = 0 then 2 ^ 32 else t) m out) (\<lambda>(m, out).
      Ok (Goto Match_done ip out)))"

text \<open>The tail of the match code shared by the two long forms.\<close>

definition copy_long :: "nat \<Rightarrow> nat \<Rightarrow> int \<Rightarrow> nat \<Rightarrow> byte list \<Rightarrow> lzo_fault + dres" where
  "copy_long cap t m_pos ip out =
    (if HAVE_LB m_pos out then Ok (Return LZO_E_LOOKBEHIND_OVERRUN out)
     else if HAVE_OP (w32 (t + 3 - 1)) cap out then Ok (Return LZO_E_OUTPUT_OVERRUN out)
     else if 2 * 4 - (3 - 1) \<le> t \<and> 4 \<le> int (length out) - m_pos then
       bindR (copy4_back cap (nat m_pos) out) (\<lambda>(m, out).
       bindR (copy_back_words cap (t - (4 - (3 - 1))) m out) (\<lambda>(t, m, out).
       bindR (copy_back cap t m out) (\<lambda>(m, out).
         Ok (Goto Match_done ip out))))
     else copy_match cap t (nat m_pos) ip out)"

text \<open>The length of a long match: the low bits of the opcode, or a run of bytes after it.\<close>

definition match_len :: "byte list \<Rightarrow> nat \<Rightarrow> nat \<Rightarrow> nat \<Rightarrow> lzo_fault + (nat \<times> nat) option" where
  "match_len inp base t ip =
    (if t = 0 then
       bindR (zero_run inp ip t) (\<lambda>r. case r of
           None \<Rightarrow> Ok None
         | Some (ip, t) \<Rightarrow> bindR (rd inp ip) (\<lambda>b. Ok (Some (w32 (t + (base + b)), Suc ip))))
     else Ok (Some (t, ip)))"

definition rd_le16 :: "byte list \<Rightarrow> nat \<Rightarrow> lzo_fault + nat" where
  "rd_le16 inp ip = bindR (rd inp ip) (\<lambda>a. bindR (rd inp (Suc ip)) (\<lambda>b. Ok (a + 256 * b)))"

definition d_match :: "byte list \<Rightarrow> nat \<Rightarrow> nat \<Rightarrow> nat \<Rightarrow> byte list \<Rightarrow> lzo_fault + dres" where
  "d_match inp cap t ip out =
    (let op = int (length out)
     in if 64 \<le> t then
          bindR (rd inp ip) (\<lambda>b.
            let m_pos = op - 1 - int (t div 4 mod 8) - int (b * 8);
                t = t div 32 - 1;
                ip = Suc ip
            in if HAVE_LB m_pos out then Ok (Return LZO_E_LOOKBEHIND_OVERRUN out)
               else if HAVE_OP (t + 3 - 1) cap out then Ok (Return LZO_E_OUTPUT_OVERRUN out)
               else copy_match cap t (nat m_pos) ip out)
        else if 32 \<le> t then
          bindR (match_len inp 31 (t mod 32) ip) (\<lambda>r. case r of
              None \<Rightarrow> Ok (Return LZO_E_INPUT_OVERRUN out)
            | Some (t, ip) \<Rightarrow> bindR (rd_le16 inp ip) (\<lambda>d.
                copy_long cap t (op - 1 - int (d div 4)) (ip + 2) out))
        else if 16 \<le> t then
          bindR (match_len inp 7 (t mod 8) ip) (\<lambda>r. case r of
              None \<Rightarrow> Ok (Return LZO_E_INPUT_OVERRUN out)
            | Some (t', ip) \<Rightarrow> bindR (rd_le16 inp ip) (\<lambda>d.
                let m_pos = op - int ((t div 8 mod 2) * 8 * 2048) - int (d div 4);
                    ip = ip + 2
                in if m_pos = op then
                     Ok (Return (if ip = length inp then LZO_E_OK
                                 else if ip < length inp then LZO_E_INPUT_NOT_CONSUMED
                                 else LZO_E_INPUT_OVERRUN) out)
                   else copy_long cap t' (m_pos - 0x4000) ip out))
        else
          bindR (rd inp ip) (\<lambda>b.
            let m_pos = op - 1 - int (t div 4) - int (b * 4);
                ip = Suc ip
            in if HAVE_LB m_pos out then Ok (Return LZO_E_LOOKBEHIND_OVERRUN out)
               else if HAVE_OP 2 cap out then Ok (Return LZO_E_OUTPUT_OVERRUN out)
               else bindR (copy_back cap 2 (nat m_pos) out) (\<lambda>(m, out). Ok (Goto Match_done ip out))))"

definition d_done :: "byte list \<Rightarrow> nat \<Rightarrow> byte list \<Rightarrow> lzo_fault + dres" where
  "d_done inp ip out =
    bindR (rd inp (ip - 2)) (\<lambda>b.
      let t = b mod 4 in if t = 0 then Ok (Goto Outer_loop ip out) else Ok (Goto (Match_next t) ip out))"

definition d_next :: "byte list \<Rightarrow> nat \<Rightarrow> nat \<Rightarrow> nat \<Rightarrow> byte list \<Rightarrow> lzo_fault + dres" where
  "d_next inp cap t ip out =
    (if HAVE_OP t cap out then Ok (Return LZO_E_OUTPUT_OVERRUN out)
     else if HAVE_IP (t + 1) inp ip then Ok (Return LZO_E_INPUT_OVERRUN out)
     else bindR (copy_in_bytes inp cap t ip out) (\<lambda>(ip, out).
          bindR (rd inp ip) (\<lambda>t.
            if Suc ip < length inp then Ok (Goto (Match t) (Suc ip) out)
            else Ok (Goto Outer_loop (Suc ip) out))))"

definition d_step :: "byte list \<Rightarrow> nat \<Rightarrow> dpoint \<Rightarrow> nat \<Rightarrow> byte list \<Rightarrow> lzo_fault + dres" where
  "d_step inp cap p ip out = (case p of
      Outer_loop \<Rightarrow> d_outer inp cap ip out
    | First_literal_run \<Rightarrow> d_first inp cap ip out
    | Match t \<Rightarrow> d_match inp cap t ip out
    | Match_done \<Rightarrow> d_done inp ip out
    | Match_next t \<Rightarrow> d_next inp cap t ip out)"

definition d_start :: "byte list \<Rightarrow> nat \<Rightarrow> lzo_fault + dres" where
  "d_start inp cap =
    bindR (rd inp 0) (\<lambda>b.
      if 17 < b then
        let t = b - 17; ip = 1; out = []
        in if t < 4 then Ok (Goto (Match_next t) ip out)
           else if HAVE_OP t cap out then Ok (Return LZO_E_OUTPUT_OVERRUN out)
           else if HAVE_IP (t + 1) inp ip then Ok (Return LZO_E_INPUT_OVERRUN out)
           else bindR (copy_in_bytes inp cap t ip out) (\<lambda>(ip, out). Ok (Goto First_literal_run ip out))
      else Ok (Goto Outer_loop 0 []))"

subsection \<open>Every jump makes progress\<close>

lemma rd_Ok [run_simps]: "rd inp ip = Ok b \<longleftrightarrow> ip < length inp \<and> b = unat (inp ! ip)"
  by (auto simp: rd_def)

lemma rd_Stop [run_simps]: "rd inp ip = Stop e \<longleftrightarrow> length inp \<le> ip \<and> e = Read_past_input"
  by (auto simp: rd_def)

lemma copy_in_Ok: "copy_in inp cap n ip out = Ok (ip', out') \<Longrightarrow> ip' = ip + n"
  by (simp add: copy_in_def split: if_splits)

lemma copy_in_bytes_progress: "copy_in_bytes inp cap t ip out = Ok (ip', out') \<Longrightarrow> ip' = ip + t"
proof (induction t arbitrary: ip out)
  case (Suc t)
  then obtain ip1 out1 where "copy_in inp cap 1 ip out = Ok (ip1, out1)"
    "copy_in_bytes inp cap t ip1 out1 = Ok (ip', out')" by (auto simp: run_simps)
  then show ?case using copy_in_Ok Suc.IH by fastforce
qed simp

lemma copy_in_words_progress:
  "copy_in_words inp cap t ip out = Ok (t', ip', out') \<Longrightarrow> ip \<le> ip'"
proof (induction t arbitrary: ip out rule: less_induct)
  case (less t)
  show ?case
  proof (cases "4 \<le> t")
    case True
    then obtain ip1 out1 where 1: "copy_in inp cap 4 ip out = Ok (ip1, out1)"
      "copy_in_words inp cap (t - 4) ip1 out1 = Ok (t', ip', out')"
      using less.prems copy_in_words.simps [of inp cap t ip out] by (auto simp: run_simps)
    have "t - 4 < t" using True by simp
    from less.IH [OF this 1(2)] copy_in_Ok [OF 1(1)] show ?thesis by simp
  next
    case False
    then show ?thesis using less.prems copy_in_words.simps [of inp cap t ip out] by simp
  qed
qed

lemma zero_run_progress:
  "zero_run inp ip t = Ok (Some (ip', t')) \<Longrightarrow> ip \<le> ip' \<and> ip' < length inp"
proof (induction "length inp - ip" arbitrary: ip t rule: less_induct)
  case less
  have "\<not> HAVE_IP 1 inp ip" using less.prems zero_run.simps [of inp ip t] by auto
  then have ip: "ip < length inp" by (simp add: HAVE_IP_def)
  show ?case
  proof (cases "inp ! ip = 0")
    case True
    then have "zero_run inp (Suc ip) (w32 (t + 255)) = Ok (Some (ip', t'))"
      using less.prems zero_run.simps [of inp ip t] ip by (simp add: HAVE_IP_def rd_def)
    moreover have "length inp - Suc ip < length inp - ip" using ip by simp
    ultimately show ?thesis using less.hyps by fastforce
  next
    case False
    then show ?thesis
      using less.prems zero_run.simps [of inp ip t] ip by (simp add: HAVE_IP_def rd_def unat_eq_0)
  qed
qed

lemma match_len_progress:
  "match_len inp base t ip = Ok (Some (t', ip')) \<Longrightarrow> ip \<le> ip'"
  by (auto simp: match_len_def split: if_splits option.splits elim!: bindR_OkE dest!: zero_run_progress)

lemma literal_run_progress:
  assumes "literal_run inp cap t ip out = Ok (Goto p ip' out')"
  shows "ip \<le> ip'"
proof -
  obtain ip1 out1 where 1: "copy_in inp cap 4 ip out = Ok (ip1, out1)"
    and rest: "(if 0 < w32 (t + (2 ^ 32 - 1)) then
            bindR (copy_in_words inp cap (w32 (t + (2 ^ 32 - 1))) ip1 out1) (\<lambda>(t, ip, out).
            bindR (copy_in_bytes inp cap t ip out) (\<lambda>(ip, out).
              Ok (Goto First_literal_run ip out)))
          else Ok (Goto First_literal_run ip1 out1)) = Ok (Goto p ip' out')"
    using assms unfolding literal_run_def Let_def by (auto split: if_split_asm elim!: bindR_OkE)
  have "ip1 \<le> ip'"
    using rest by (auto split: if_split_asm elim!: bindR_OkE
        dest!: copy_in_words_progress copy_in_bytes_progress)
  then show ?thesis using copy_in_Ok [OF 1] by simp
qed

lemma copy_match_goto: "copy_match cap t m ip out = Ok (Goto p ip' out') \<Longrightarrow> p = Match_done \<and> ip' = ip"
  by (auto simp: copy_match_def elim!: bindR_OkE)

lemma copy_long_goto: "copy_long cap t m ip out = Ok (Goto p ip' out') \<Longrightarrow> p = Match_done \<and> ip' = ip"
  by (auto simp: copy_long_def split: if_splits elim!: bindR_OkE dest!: copy_match_goto)

lemma d_match_progress:
  "d_match inp cap t ip out = Ok (Goto p ip' out') \<Longrightarrow> p = Match_done \<and> ip < ip' \<and> ip < length inp"
  by (auto simp: d_match_def rd_le16_def Let_def rd_Ok split: if_splits option.splits
      elim!: bindR_OkE dest!: copy_match_goto copy_long_goto match_len_progress)

lemma d_step_progress:
  assumes "d_step inp cap p ip out = Ok (Goto p' ip' out')"
  shows "if p = Match_done then ip' = ip \<and> p' \<noteq> Match_done else ip < ip' \<and> ip < length inp"
proof (cases p)
  case Outer_loop
  with assms show ?thesis
    by (auto simp: d_step_def d_outer_def Let_def rd_Ok split: if_splits option.splits
        elim!: bindR_OkE dest!: literal_run_progress zero_run_progress)
next
  case First_literal_run
  with assms show ?thesis
    by (auto simp: d_step_def d_first_def Let_def rd_Ok split: if_splits elim!: bindR_OkE)
next
  case (Match t)
  with assms show ?thesis by (auto simp: d_step_def dest: d_match_progress)
next
  case Match_done
  with assms show ?thesis
    by (auto simp: d_step_def d_done_def Let_def split: if_splits elim!: bindR_OkE)
next
  case (Match_next t)
  with assms show ?thesis
    by (auto simp: d_step_def d_next_def HAVE_IP_def rd_Ok split: if_splits
        elim!: bindR_OkE dest!: copy_in_bytes_progress)
qed

function decompress_from ::
  "byte list \<Rightarrow> nat \<Rightarrow> dpoint \<Rightarrow> nat \<Rightarrow> byte list \<Rightarrow> lzo_fault + (lzo_code \<times> byte list)" where
  "decompress_from inp cap p ip out =
    bindR (d_step inp cap p ip out) (\<lambda>r. case r of
        Return code out \<Rightarrow> Ok (code, out)
      | Goto p' ip' out' \<Rightarrow> decompress_from inp cap p' ip' out')"
  by pat_completeness auto

termination
  by (relation "measure (\<lambda>(inp, cap, p, ip, out). 2 * (length inp - ip) + (if p = Match_done then 1 else 0))")
    (auto dest!: d_step_progress split: if_splits)

declare decompress_from.simps [simp del]

text \<open>
  \<^verbatim>\<open>lzo1x_decompress_safe(in, in_len, out, out_len)\<close> with an output buffer of \<open>cap\<close>
  bytes: the return code and the bytes written.
\<close>

definition lzo1x_decompress_safe :: "byte list \<Rightarrow> nat \<Rightarrow> lzo_fault + (lzo_code \<times> byte list)" where
  "lzo1x_decompress_safe inp cap =
    bindR (d_start inp cap) (\<lambda>r. case r of
        Return code out \<Rightarrow> Ok (code, out)
      | Goto p ip out \<Rightarrow> decompress_from inp cap p ip out)"

end
