(* ===== verification/Lzo_Compress.thy ===== *)
theory Lzo_Compress
  imports Lzo_Decompress
begin

text \<open>
  The LZO1X-1 compressor (\<^verbatim>\<open>src/lib/lzo1x_compress.c\<close>, constants and hash macros of
  \<^verbatim>\<open>src/lib/lzodefs.h\<close>).  The input is a list at the address \<open>inb\<close>; \<open>ip\<close>
  and \<open>ii\<close> are indices into it.  The dictionary \<^verbatim>\<open>dict\<close> holds addresses and
  starts with whatever the work memory contained, so it is an arbitrary function: the code
  compares its entries with the bounds of the input before it follows them.  The output is the
  list of bytes written so far; \<^verbatim>\<open>op[-2] |= t\<close> patches its last byte but one.
\<close>

definition M3_MAX_OFFSET :: nat where "M3_MAX_OFFSET = 0x4000"
definition M4_MAX_OFFSET :: nat where "M4_MAX_OFFSET = 0xbfff"
definition M2_MAX_LEN :: nat where "M2_MAX_LEN = 8"
definition M4_MAX_LEN :: nat where "M4_MAX_LEN = 9"
definition M3_MARKER :: nat where "M3_MARKER = 32"
definition M4_MARKER :: nat where "M4_MARKER = 16"
definition D_MASK :: u32 where "D_MASK = push_bit 14 1 - 1"
definition D_HIGH :: u32 where "D_HIGH = drop_bit 1 D_MASK + 1"

type_synonym dict = "u32 \<Rightarrow> u32"

subsection \<open>Looking for a match\<close>

definition DX2 :: "u32 \<Rightarrow> u32 \<Rightarrow> u32 \<Rightarrow> nat \<Rightarrow> nat \<Rightarrow> u32" where
  "DX2 p0 p1 p2 s1 s2 = push_bit s1 (push_bit s2 p2 XOR p1) XOR p0"

definition DX3 :: "u32 \<Rightarrow> u32 \<Rightarrow> u32 \<Rightarrow> u32 \<Rightarrow> nat \<Rightarrow> nat \<Rightarrow> nat \<Rightarrow> u32" where
  "DX3 p0 p1 p2 p3 s1 s2 s3 = push_bit s1 (DX2 p1 p2 p3 s2 s3) XOR p0"

definition hash1 :: "byte list \<Rightarrow> nat \<Rightarrow> lzo_fault + u32" where
  "hash1 inp ip =
    bindR (rd inp ip) (\<lambda>p0. bindR (rd inp (ip + 1)) (\<lambda>p1.
    bindR (rd inp (ip + 2)) (\<lambda>p2. bindR (rd inp (ip + 3)) (\<lambda>p3.
      Ok (drop_bit 5 (0x21 * DX3 (word_of_nat p0) (word_of_nat p1) (word_of_nat p2) (word_of_nat p3) 5 5 6)
          AND D_MASK)))))"

definition hash2 :: "u32 \<Rightarrow> u32" where
  "hash2 dindex = (dindex AND (D_MASK AND 0x7ff)) XOR (D_HIGH OR 0x1f)"

text \<open>Where the tests on a dictionary entry jump to.\<close>

datatype cand =
    To_literal
  | To_try_match nat nat \<comment> \<open>index of \<open>m_pos\<close>, and \<open>m_off\<close>\<close>
  | Fall_through

definition candidate :: "byte list \<Rightarrow> u32 \<Rightarrow> nat \<Rightarrow> u32 \<Rightarrow> lzo_fault + cand" where
  "candidate inp inb ip m_pos =
    (if m_pos < inb then Ok To_literal
     else
       let d = (inb + word_of_nat ip) - m_pos
       in if d = 0 \<or> M4_MAX_OFFSET < unat d then Ok To_literal
          else
            let m_off = unat d; m = unat (m_pos - inb)
            in if m_off \<le> M2_MAX_OFFSET then Ok (To_try_match m m_off)
               else bindR (rd inp (m + 3)) (\<lambda>a. bindR (rd inp (ip + 3)) (\<lambda>b.
                 Ok (if a = b then To_try_match m m_off else Fall_through))))"

text \<open>\<^verbatim>\<open>try_match\<close>: the first three bytes must agree.\<close>

definition try_match :: "byte list \<Rightarrow> nat \<Rightarrow> nat \<Rightarrow> lzo_fault + bool" where
  "try_match inp ip m =
    bindR (rd_le16 inp m) (\<lambda>a. bindR (rd_le16 inp ip) (\<lambda>b.
      if a = b then bindR (rd inp (m + 2)) (\<lambda>c. bindR (rd inp (ip + 2)) (\<lambda>d. Ok (c = d)))
      else Ok False))"

text \<open>The dictionary index to update, and the match found if there is one.\<close>

definition find_match :: "byte list \<Rightarrow> u32 \<Rightarrow> dict \<Rightarrow> nat \<Rightarrow> lzo_fault + (u32 \<times> (nat \<times> nat) option)" where
  "find_match inp inb dict ip =
    bindR (hash1 inp ip) (\<lambda>dindex.
    bindR (candidate inp inb ip (dict dindex)) (\<lambda>c. case c of
        To_literal \<Rightarrow> Ok (dindex, None)
      | To_try_match m m_off \<Rightarrow>
          bindR (try_match inp ip m) (\<lambda>ok. Ok (dindex, if ok then Some (m, m_off) else None))
      | Fall_through \<Rightarrow>
          let dindex = hash2 dindex
          in bindR (candidate inp inb ip (dict dindex)) (\<lambda>c. case c of
                To_try_match m m_off \<Rightarrow>
                  bindR (try_match inp ip m) (\<lambda>ok. Ok (dindex, if ok then Some (m, m_off) else None))
              | _ \<Rightarrow> Ok (dindex, None))))"

subsection \<open>Emitting literals and matches\<close>

text \<open>\<^verbatim>\<open>while (tt > 255) { tt -= 255; *op++ = 0; } *op++ = tt;\<close>\<close>

fun emit_run :: "nat \<Rightarrow> byte list" where
  "emit_run tt = (if 255 < tt then 0 # emit_run (tt - 255) else [word_of_nat tt])"

declare emit_run.simps [simp del]

text \<open>\<^verbatim>\<open>op[-2] |= t\<close>\<close>

definition patch :: "byte list \<Rightarrow> nat \<Rightarrow> byte list" where
  "patch out t = out[length out - 2 := out ! (length out - 2) OR word_of_nat t]"

definition lit_code :: "nat \<Rightarrow> byte list" where
  "lit_code t = (if t \<le> 18 then [word_of_nat (t - 3)] else 0 # emit_run (t - 18))"

definition emit_literals :: "byte list \<Rightarrow> nat \<Rightarrow> nat \<Rightarrow> byte list \<Rightarrow> lzo_fault + byte list" where
  "emit_literals inp ii t out =
    (if t \<le> 3 then
       (if length out < 2 then Stop Write_past_output
        else Ok (patch out t @ take t (drop ii inp)))
     else Ok (out @ lit_code t @ take t (drop ii inp)))"

text \<open>\<^verbatim>\<open>m3_m4_offset\<close>\<close>

definition emit_offset :: "nat \<Rightarrow> byte list" where
  "emit_offset m_off = [word_of_nat (push_bit 2 (m_off AND 63)), word_of_nat (drop_bit 6 m_off)]"

definition emit_short :: "nat \<Rightarrow> nat \<Rightarrow> byte list" where
  "emit_short m_off m_len =
    (if m_off \<le> M2_MAX_OFFSET then
       (let m_off = m_off - 1
        in [word_of_nat (push_bit 5 (m_len - 1) OR push_bit 2 (m_off AND 7)), word_of_nat (drop_bit 3 m_off)])
     else if m_off \<le> M3_MAX_OFFSET then
       (let m_off = m_off - 1
        in word_of_nat (M3_MARKER OR (m_len - 2)) # emit_offset m_off)
     else
       (let m_off = m_off - 0x4000
        in word_of_nat (M4_MARKER OR drop_bit 11 (m_off AND 0x4000) OR (m_len - 2)) # emit_offset m_off))"

definition emit_long :: "nat \<Rightarrow> nat \<Rightarrow> byte list" where
  "emit_long m_off m_len =
    (if m_off \<le> M3_MAX_OFFSET then
       (let m_off = m_off - 1
        in (if m_len \<le> 33 then [word_of_nat (M3_MARKER OR (m_len - 2))]
            else word_of_nat (M3_MARKER OR 0) # emit_run (m_len - 33)) @ emit_offset m_off)
     else
       (let m_off = m_off - 0x4000
        in (if m_len \<le> M4_MAX_LEN
            then [word_of_nat (M4_MARKER OR drop_bit 11 (m_off AND 0x4000) OR (m_len - 2))]
            else word_of_nat (M4_MARKER OR drop_bit 11 (m_off AND 0x4000)) # emit_run (m_len - M4_MAX_LEN))
           @ emit_offset m_off))"

subsection \<open>Extending a match\<close>

text \<open>The six comparisons \<^verbatim>\<open>m_pos[3] != *ip++ || ...\<close>: how many bytes agree.\<close>

primrec agree :: "byte list \<Rightarrow> nat \<Rightarrow> nat \<Rightarrow> nat \<Rightarrow> lzo_fault + nat" where
  "agree inp 0 m ip = Ok 0"
| "agree inp (Suc n) m ip =
    bindR (rd inp m) (\<lambda>a. bindR (rd inp ip) (\<lambda>b.
      if a \<noteq> b then Ok 0 else bindR (agree inp n (Suc m) (Suc ip)) (\<lambda>k. Ok (Suc k))))"

text \<open>\<^verbatim>\<open>while (ip < end && *m == *ip) { m++; ip++; }\<close>\<close>

function extend :: "byte list \<Rightarrow> nat \<Rightarrow> nat \<Rightarrow> lzo_fault + nat" where
  "extend inp m ip =
    (if ip < length inp then
       bindR (rd inp m) (\<lambda>a. bindR (rd inp ip) (\<lambda>b.
         if a = b then extend inp (Suc m) (Suc ip) else Ok ip))
     else Ok ip)"
  by pat_completeness auto

termination
  by (relation "measure (\<lambda>(inp, m, ip). length inp - ip)") auto

declare extend.simps [simp del]

subsection \<open>The loop\<close>

text \<open>
  One turn of \<^verbatim>\<open>for (;;)\<close>: the new \<open>ip\<close>, \<open>ii\<close>, output and dictionary.
\<close>

definition c_turn ::
  "byte list \<Rightarrow> u32 \<Rightarrow> nat \<Rightarrow> nat \<Rightarrow> byte list \<Rightarrow> dict \<Rightarrow> lzo_fault + (nat \<times> nat \<times> byte list \<times> dict)" where
  "c_turn inp inb ip ii out dict =
    bindR (find_match inp inb dict ip) (\<lambda>(dindex, mat).
      let dict = dict(dindex := inb + word_of_nat ip)
      in case mat of
           None \<Rightarrow> Ok (Suc ip, ii, out, dict)
         | Some (m, m_off) \<Rightarrow>
             bindR (if ip \<noteq> ii then emit_literals inp ii (ip - ii) out else Ok out) (\<lambda>out.
             bindR (agree inp 6 (m + 3) (ip + 3)) (\<lambda>k.
               if k < 6 then
                 Ok (ip + 3 + k, ip + 3 + k, out @ emit_short m_off (3 + k), dict)
               else
                 bindR (extend inp (m + M2_MAX_LEN + 1) (ip + 9)) (\<lambda>e.
                   Ok (e, e, out @ emit_long m_off (e - ip), dict)))))"

lemma extend_ge: "extend inp m ip = Ok e \<Longrightarrow> ip \<le> e"
proof (induction inp m ip rule: extend.induct)
  case (1 inp m ip)
  from 1(2) show ?case
    by (subst (asm) extend.simps)
      (fastforce split: if_split_asm elim!: bindR_OkE simp: rd_Ok dest: 1(1) [rotated 2])
qed

lemma c_turn_progress: "c_turn inp inb ip ii out dict = Ok (ip', ii', out', dict') \<Longrightarrow> ip < ip'"
  unfolding c_turn_def Let_def
  by (auto split: option.split_asm if_split_asm elim!: bindR_OkE dest!: extend_ge)

function compress_loop ::
  "byte list \<Rightarrow> u32 \<Rightarrow> nat \<Rightarrow> nat \<Rightarrow> byte list \<Rightarrow> dict \<Rightarrow> lzo_fault + (nat \<times> byte list)" where
  "compress_loop inp inb ip ii out dict =
    bindR (c_turn inp inb ip ii out dict) (\<lambda>(ip, ii, out, dict).
      if length inp - M2_MAX_LEN - 5 \<le> ip then Ok (ii, out)
      else compress_loop inp inb ip ii out dict)"
  by pat_completeness auto

termination
  by (relation "measure (\<lambda>(inp, inb, ip, ii, out, dict). length inp - ip)")
    (auto dest!: c_turn_progress)

declare compress_loop.simps [simp del]

text \<open>The output and the number of input bytes not yet emitted.\<close>

definition lzo1x_1_do_compress :: "byte list \<Rightarrow> u32 \<Rightarrow> dict \<Rightarrow> lzo_fault + (byte list \<times> nat)" where
  "lzo1x_1_do_compress inp inb dict =
    bindR (compress_loop inp inb 4 0 [] dict) (\<lambda>(ii, out). Ok (out, length inp - ii))"

definition lzo1x_1_compress :: "byte list \<Rightarrow> u32 \<Rightarrow> dict \<Rightarrow> lzo_fault + byte list" where
  "lzo1x_1_compress inp inb dict =
    bindR (if length inp \<le> M2_MAX_LEN + 5 then Ok ([], length inp)
           else lzo1x_1_do_compress inp inb dict) (\<lambda>(out, t).
    bindR (if 0 < t then
             (let ii = length inp - t
              in if out = [] \<and> t \<le> 238 then Ok (word_of_nat (17 + t) # take t (drop ii inp))
                 else emit_literals inp ii t out)
           else Ok out) (\<lambda>out.
      Ok (out @ [word_of_nat (M4_MARKER OR 1), 0, 0])))"

end
