(* ===== verification/Lzo_Safety.thy ===== *)
theory Lzo_Safety
  imports Lzo_Decompress
begin

text \<open>
  What the copy loops of the LZO decompressor compute, and its memory safety.  The byte-wise and
  the word-wise loops are both equal to the reference copies \<open>lz_copy\<close> (from earlier output,
  possibly overlapping) and \<open>take\<close> (from the input).  For inputs shorter than 16 MB the
  run-length counter cannot wrap, and then no input whatsoever makes the decompressor write past
  its output buffer or read output it has not written.
\<close>

subsection \<open>Reference copies\<close>

primrec lz_copy :: "nat \<Rightarrow> nat \<Rightarrow> byte list \<Rightarrow> byte list" where
  "lz_copy 0 m out = out"
| "lz_copy (Suc n) m out = lz_copy n (Suc m) (out @ [out ! m])"

lemma length_lz_copy [simp]: "length (lz_copy n m out) = length out + n"
  by (induction n arbitrary: m out) simp_all

lemma lz_copy_add: "lz_copy (a + b) m out = lz_copy b (m + a) (lz_copy a m out)"
  by (induction a arbitrary: m out) simp_all

lemma copy_back_lz:
  "m < length out \<or> n = 0 \<Longrightarrow> length out + n \<le> cap \<Longrightarrow> copy_back cap n m out = Ok (m + n, lz_copy n m out)"
  by (induction n arbitrary: m out) auto

lemma lz_copy_prefix: "m + n \<le> length out \<Longrightarrow> lz_copy n m out = out @ take n (drop m out)"
proof (induction n arbitrary: m out)
  case (Suc n)
  then have "lz_copy n (Suc m) (out @ [out ! m]) = out @ [out ! m] @ take n (drop (Suc m) out)"
    by simp
  moreover have "take (Suc n) (drop m out) = out ! m # take n (drop (Suc m) out)"
    using Suc.prems by (simp add: Cons_nth_drop_Suc [symmetric])
  ultimately show ?case by simp
qed simp

lemma copy4_back_lz:
  "m + 4 \<le> length out \<Longrightarrow> length out + 4 \<le> cap \<Longrightarrow> copy4_back cap m out = Ok (m + 4, lz_copy 4 m out)"
  by (simp add: copy4_back_def lz_copy_prefix)

lemma copy_back_words_lz:
  "m + 4 \<le> length out \<Longrightarrow> length out + t \<le> cap \<Longrightarrow>
    copy_back_words cap t m out = Ok (t mod 4, m + (t - t mod 4), lz_copy (t - t mod 4) m out)"
proof (induction t arbitrary: m out rule: less_induct)
  case (less t)
  show ?case
  proof (cases "4 \<le> t")
    case True
    then have "copy_back_words cap t m out = copy_back_words cap (t - 4) (m + 4) (lz_copy 4 m out)"
      using less.prems copy_back_words.simps [of cap t m out] by (simp add: copy4_back_lz)
    also have "\<dots> = Ok ((t - 4) mod 4, m + 4 + (t - 4 - (t - 4) mod 4),
        lz_copy (t - 4 - (t - 4) mod 4) (m + 4) (lz_copy 4 m out))"
      using True less.prems by (intro less.IH) simp_all
    also have "(t - 4) mod 4 = t mod 4" using True by (simp add: le_mod_geq)
    finally show ?thesis
      using True lz_copy_add [of 4 "t - 4 - t mod 4" m out] mod_le_divisor [of 4 t]
      by (simp add: le_mod_geq)
  next
    case False
    then show ?thesis using copy_back_words.simps [of cap t m out] by simp
  qed
qed

lemma copy_in_bytes_take:
  "ip + t \<le> length inp \<Longrightarrow> length out + t \<le> cap \<Longrightarrow>
    copy_in_bytes inp cap t ip out = Ok (ip + t, out @ take t (drop ip inp))"
proof (induction t arbitrary: ip out)
  case (Suc t)
  then show ?case by (simp add: copy_in_def take_Suc_conv_app_nth [symmetric] flip: Cons_nth_drop_Suc)
qed simp

lemma copy_in_words_take:
  "ip + t \<le> length inp \<Longrightarrow> length out + t \<le> cap \<Longrightarrow>
    copy_in_words inp cap t ip out
      = Ok (t mod 4, ip + (t - t mod 4), out @ take (t - t mod 4) (drop ip inp))"
proof (induction t arbitrary: ip out rule: less_induct)
  case (less t)
  show ?case
  proof (cases "4 \<le> t")
    case True
    then have "copy_in_words inp cap t ip out
        = copy_in_words inp cap (t - 4) (ip + 4) (out @ take 4 (drop ip inp))"
      using less.prems copy_in_words.simps [of inp cap t ip out] by (simp add: copy_in_def)
    also have "\<dots> = Ok ((t - 4) mod 4, ip + 4 + (t - 4 - (t - 4) mod 4),
        (out @ take 4 (drop ip inp)) @ take (t - 4 - (t - 4) mod 4) (drop (ip + 4) inp))"
      using True less.prems by (intro less.IH) simp_all
    also have "(t - 4) mod 4 = t mod 4" using True by (simp add: le_mod_geq)
    finally show ?thesis
      using True take_add [of 4 "t - 4 - t mod 4" "drop ip inp"] mod_le_divisor [of 4 t]
      by (simp add: le_mod_geq add.commute)
  next
    case False
    then show ?thesis using copy_in_words.simps [of inp cap t ip out] by simp
  qed
qed

subsection \<open>What each block computes\<close>

lemma w32_id [simp]: "n < 2 ^ 32 \<Longrightarrow> w32 n = n"
  by (simp add: w32_def)

lemma w32_pred: "0 < t \<Longrightarrow> t < 2 ^ 32 \<Longrightarrow> w32 (t + (2 ^ 32 - 1)) = t - 1"
proof -
  assume "0 < t" "t < 2 ^ 32"
  then have "t + (2 ^ 32 - 1) = (t - 1) + 2 ^ 32" by simp
  then show ?thesis using \<open>t < 2 ^ 32\<close> unfolding w32_def by (simp only: mod_add_self2) simp
qed

lemma literal_run_copies:
  assumes "0 < t" "t + 4 < 2 ^ 32" "length out + (t + 3) \<le> cap" "ip + (t + 4) \<le> length inp"
  shows "literal_run inp cap t ip out
    = Ok (Goto First_literal_run (ip + (t + 3)) (out @ take (t + 3) (drop ip inp)))"
proof -
  let ?r = "(t - 1) mod 4" and ?u = "t - 1"
  let ?out = "out @ take 4 (drop ip inp)"
  have first: "copy_in inp cap 4 ip out = Ok (ip + 4, ?out)"
    using assms by (simp add: copy_in_def)
  have len: "length ?out = length out + 4" using assms(4) by simp
  have words: "copy_in_words inp cap ?u (ip + 4) ?out
      = Ok (?r, ip + 4 + (?u - ?r), ?out @ take (?u - ?r) (drop (ip + 4) inp))"
    using assms len by (intro copy_in_words_take) simp_all
  have r: "?r \<le> ?u" by simp
  have bytes: "copy_in_bytes inp cap ?r (ip + 4 + (?u - ?r)) (?out @ take (?u - ?r) (drop (ip + 4) inp))
      = Ok (ip + 4 + (?u - ?r) + ?r, (?out @ take (?u - ?r) (drop (ip + 4) inp))
          @ take ?r (drop (ip + 4 + (?u - ?r)) inp))"
    using assms len r by (intro copy_in_bytes_take) simp_all
  have "take (t + 3) (drop ip inp) = take 4 (drop ip inp) @ take ?u (drop (ip + 4) inp)"
    using take_add [of 4 ?u "drop ip inp"] assms(1) by (simp add: add.commute)
  moreover have "take ?u (drop (ip + 4) inp)
      = take (?u - ?r) (drop (ip + 4) inp) @ take ?r (drop (ip + 4 + (?u - ?r)) inp)"
    using take_add [of "?u - ?r" ?r "drop (ip + 4) inp"]
    by (simp only: le_add_diff_inverse2 [OF r] drop_drop add.commute [of "?u - ?r" "ip + 4"])
  moreover have "ip + 4 + (?u - ?r) + ?r = ip + (t + 3)" using assms(1) r by simp
  moreover have "\<not> HAVE_OP (w32 (t + 3)) cap out" "\<not> HAVE_IP (w32 (t + 4)) inp ip"
    using assms by (auto simp: HAVE_OP_def HAVE_IP_def)
  ultimately have "literal_run inp cap t ip out = (if 0 < ?u then Ok (Goto First_literal_run (ip + (t + 3))
      (out @ take (t + 3) (drop ip inp))) else Ok (Goto First_literal_run (ip + 4) ?out))"
    using assms first words bytes w32_pred [of t] by (simp add: literal_run_def)
  then show ?thesis using assms(1) by (cases "t = 1") simp_all
qed

lemma copy_match_lz:
  assumes "0 < t" "m < length out" "length out + (t + 2) \<le> cap"
  shows "copy_match cap t m ip out = Ok (Goto Match_done ip (lz_copy (t + 2) m out))"
  using assms lz_copy_add [of 2 t m out]
  by (simp add: copy_match_def copy_back_lz add.commute)

lemma copy_long_lz:
  assumes "0 < t" "t + 2 < 2 ^ 32" "0 \<le> m" "m < int (length out)" "length out + (t + 2) \<le> cap"
  shows "copy_long cap t m ip out = Ok (Goto Match_done ip (lz_copy (t + 2) (nat m) out))"
proof -
  have g: "\<not> HAVE_LB m out" "\<not> HAVE_OP (w32 (t + 3 - 1)) cap out"
    using assms by (simp_all add: HAVE_LB_def HAVE_OP_def)
  show ?thesis
  proof (cases "6 \<le> t \<and> 4 \<le> int (length out) - m")
    case True
    let ?u = "t - 2" and ?r = "(t - 2) mod 4"
    have 1: "copy4_back cap (nat m) out = Ok (nat m + 4, lz_copy 4 (nat m) out)"
      using True assms by (intro copy4_back_lz) auto
    have 2: "copy_back_words cap ?u (nat m + 4) (lz_copy 4 (nat m) out)
        = Ok (?r, nat m + 4 + (?u - ?r), lz_copy (?u - ?r) (nat m + 4) (lz_copy 4 (nat m) out))"
      using True assms by (intro copy_back_words_lz) auto
    have r: "?r \<le> ?u" by simp
    have 3: "copy_back cap ?r (nat m + 4 + (?u - ?r)) (lz_copy (?u - ?r) (nat m + 4) (lz_copy 4 (nat m) out))
        = Ok (nat m + 4 + (?u - ?r) + ?r,
            lz_copy ?r (nat m + 4 + (?u - ?r)) (lz_copy (?u - ?r) (nat m + 4) (lz_copy 4 (nat m) out)))"
      using True assms r by (intro copy_back_lz) auto
    have "lz_copy ?r (nat m + 4 + (?u - ?r)) (lz_copy (?u - ?r) (nat m + 4) (lz_copy 4 (nat m) out))
        = lz_copy (4 + ((?u - ?r) + ?r)) (nat m) out"
      by (simp only: lz_copy_add add.assoc)
    also have "4 + ((?u - ?r) + ?r) = t + 2" using True by (simp only: le_add_diff_inverse2 [OF r]) simp
    finally show ?thesis using g True 1 2 3 by (simp add: copy_long_def)
  next
    case False
    then show ?thesis
      using g assms copy_match_lz [of t "nat m" out cap ip] by (auto simp: copy_long_def)
  qed
qed

lemma zero_run_cases:
  assumes "t + 255 * (length inp - ip) < 2 ^ 32"
  shows "zero_run inp ip t = Ok None
    \<or> (\<exists>ip'. ip \<le> ip' \<and> ip' < length inp \<and> inp ! ip' \<noteq> 0 \<and> (\<forall>i\<in>{ip..<ip'}. inp ! i = 0)
        \<and> zero_run inp ip t = Ok (Some (ip', t + 255 * (ip' - ip))))"
  using assms
proof (induction "length inp - ip" arbitrary: ip t rule: less_induct)
  case less
  consider "length inp \<le> ip" | "ip < length inp" "inp ! ip = 0" | "ip < length inp" "inp ! ip \<noteq> 0"
    by linarith
  then show ?case
  proof cases
    case 1
    then show ?thesis using zero_run.simps [of inp ip t] by (simp add: HAVE_IP_def)
  next
    case 2
    have "255 * (length inp - ip) = 255 + 255 * (length inp - Suc ip)" using 2(1) by simp
    then have b: "t + 255 + 255 * (length inp - Suc ip) < 2 ^ 32" using less.prems by simp
    then have z: "zero_run inp ip t = zero_run inp (Suc ip) (t + 255)"
      using zero_run.simps [of inp ip t] 2 by (simp add: HAVE_IP_def rd_def)
    have "length inp - Suc ip < length inp - ip" using 2(1) by simp
    from less.hyps [OF this b] show ?thesis
    proof
      assume "zero_run inp (Suc ip) (t + 255) = Ok None"
      then show ?thesis using z by simp
    next
      assume "\<exists>ip'. Suc ip \<le> ip' \<and> ip' < length inp \<and> inp ! ip' \<noteq> 0 \<and> (\<forall>i\<in>{Suc ip..<ip'}. inp ! i = 0)
        \<and> zero_run inp (Suc ip) (t + 255) = Ok (Some (ip', t + 255 + 255 * (ip' - Suc ip)))"
      then obtain ip' where ip': "Suc ip \<le> ip'" "ip' < length inp" "inp ! ip' \<noteq> 0"
        "\<forall>i\<in>{Suc ip..<ip'}. inp ! i = 0"
        "zero_run inp (Suc ip) (t + 255) = Ok (Some (ip', t + 255 + 255 * (ip' - Suc ip)))" by blast
      have "t + 255 + 255 * (ip' - Suc ip) = t + 255 * (ip' - ip)" using ip'(1) by simp
      moreover have "\<forall>i\<in>{ip..<ip'}. inp ! i = 0"
        using ip'(4) 2(2) by (metis Suc_leI atLeastLessThan_iff le_neq_implies_less)
      ultimately show ?thesis
        using ip' z by (intro disjI2 exI [of _ ip']) (simp add: Suc_leD)
    qed
  next
    case 3
    then have "zero_run inp ip t = Ok (Some (ip, t))"
      using zero_run.simps [of inp ip t] by (simp add: HAVE_IP_def rd_def unat_eq_0)
    then show ?thesis using 3 by (intro disjI2 exI [of _ ip]) simp
  qed
qed

lemma zero_run_at:
  assumes "ip \<le> ip'" "ip' < length inp" "inp ! ip' \<noteq> 0" "\<forall>i\<in>{ip..<ip'}. inp ! i = 0"
    "t + 255 * (ip' - ip) < 2 ^ 32"
  shows "zero_run inp ip t = Ok (Some (ip', t + 255 * (ip' - ip)))"
  using assms
proof (induction "ip' - ip" arbitrary: ip t)
  case 0
  then show ?case
    using zero_run.simps [of inp ip t] by (simp add: HAVE_IP_def rd_def unat_eq_0)
next
  case (Suc n)
  then have ip: "ip < ip'" "inp ! ip = 0" by auto
  have e: "t + 255 + 255 * (ip' - Suc ip) = t + 255 * (ip' - ip)" using ip(1) by simp
  then have "zero_run inp (Suc ip) (t + 255) = Ok (Some (ip', t + 255 + 255 * (ip' - Suc ip)))"
    using Suc ip by (intro Suc.hyps(1)) auto
  then show ?case
    using zero_run.simps [of inp ip t] ip e Suc.prems by (simp add: HAVE_IP_def rd_def)
qed

subsection \<open>Memory safety\<close>

definition step_safe :: "nat \<Rightarrow> lzo_fault + dres \<Rightarrow> bool" where
  "step_safe cap r \<longleftrightarrow> (case r of
      Inl e \<Rightarrow> e = Read_past_input
    | Inr (Goto p ip out) \<Rightarrow> length out \<le> cap
    | Inr (Return code out) \<Rightarrow> length out \<le> cap)"

lemma step_safe_simps [simp]:
  "step_safe cap (Inr (Goto p ip out)) \<longleftrightarrow> length out \<le> cap"
  "step_safe cap (Inr (Return code out)) \<longleftrightarrow> length out \<le> cap"
  "step_safe cap (Inl e) \<longleftrightarrow> e = Read_past_input"
  by (simp_all add: step_safe_def)

lemma step_safe_rd: "(\<And>b. ip < length inp \<Longrightarrow> b < 256 \<Longrightarrow> step_safe cap (f b)) \<Longrightarrow> step_safe cap (bindR (rd inp ip) f)"
  by (cases "ip < length inp") (simp_all add: rd_def)

lemma literal_run_safe:
  assumes "0 < t" "t + 4 < 2 ^ 32" "length out \<le> cap"
  shows "step_safe cap (literal_run inp cap t ip out)"
proof (cases "HAVE_OP (t + 3) cap out \<or> HAVE_IP (t + 4) inp ip")
  case True
  then show ?thesis using assms by (auto simp: literal_run_def)
next
  case False
  then have "length out + (t + 3) \<le> cap" "ip + (t + 4) \<le> length inp"
    by (auto simp: HAVE_OP_def HAVE_IP_def)
  then show ?thesis using literal_run_copies [OF assms(1,2)] by simp
qed

lemma copy_long_safe:
  assumes "0 < t" "t + 2 < 2 ^ 32" "length out \<le> cap"
  shows "step_safe cap (copy_long cap t m ip out)"
proof (cases "HAVE_LB m out \<or> HAVE_OP (t + 2) cap out")
  case True
  then show ?thesis using assms by (auto simp: copy_long_def)
next
  case False
  then have "0 \<le> m" "m < int (length out)" "length out + (t + 2) \<le> cap"
    by (auto simp: HAVE_LB_def HAVE_OP_def)
  then show ?thesis using copy_long_lz [OF assms(1,2)] by simp
qed

lemma copy_match_safe:
  assumes "0 < t" "length out \<le> cap"
    "\<not> HAVE_LB m out" "\<not> HAVE_OP (t + 3 - 1) cap out"
  shows "step_safe cap (copy_match cap t (nat m) ip out)"
  using assms copy_match_lz [of t "nat m" out cap ip] by (auto simp: HAVE_LB_def HAVE_OP_def)

lemma match_len_cases:
  assumes "255 * length inp + 512 < 2 ^ 32" "base \<le> 31" "t < 32"
  shows "match_len inp base t ip = Ok None
    \<or> (\<exists>t' ip'. match_len inp base t ip = Ok (Some (t', ip')) \<and> 0 < t' \<and> t' + 2 < 2 ^ 32)"
proof (cases "t = 0")
  case True
  have "t + 255 * (length inp - ip) < 2 ^ 32" using assms(1) True by simp
  from zero_run_cases [OF this] show ?thesis
  proof
    assume "zero_run inp ip t = Ok None"
    then show ?thesis using True by (simp add: match_len_def)
  next
    assume "\<exists>ip'. ip \<le> ip' \<and> ip' < length inp \<and> inp ! ip' \<noteq> 0 \<and> (\<forall>i\<in>{ip..<ip'}. inp ! i = 0)
      \<and> zero_run inp ip t = Ok (Some (ip', t + 255 * (ip' - ip)))"
    then obtain ip' where ip': "ip' < length inp" "inp ! ip' \<noteq> 0"
      "zero_run inp ip t = Ok (Some (ip', t + 255 * (ip' - ip)))" by blast
    let ?t = "255 * (ip' - ip) + (base + unat (inp ! ip'))"
    have b: "0 < unat (inp ! ip')" "unat (inp ! ip') < 256" using ip'(2) by (simp_all add: unat_gt_0)
    have "ip' - ip \<le> length inp" using ip'(1) by simp
    then have "255 * (ip' - ip) \<le> 255 * length inp" by (rule mult_le_mono2)
    then have lt: "?t + 2 < 2 ^ 32" using assms(1,2) b(2) by linarith
    then have "match_len inp base t ip = Ok (Some (?t, Suc ip'))"
      using True ip' by (simp add: match_len_def rd_def)
    then show ?thesis using b(1) lt by simp
  qed
next
  case False
  then show ?thesis using assms by (simp add: match_len_def)
qed

lemma d_outer_safe:
  assumes "255 * length inp + 512 < 2 ^ 32" "length out \<le> cap"
  shows "step_safe cap (d_outer inp cap ip out)"
proof -
  have lit: "step_safe cap (bindR (zero_run inp (Suc ip) 0) (\<lambda>r. case r of
      None \<Rightarrow> Ok (Return LZO_E_INPUT_OVERRUN out)
    | Some (ip, t) \<Rightarrow> bindR (rd inp ip) (\<lambda>b. literal_run inp cap (w32 (t + (15 + b))) (Suc ip) out)))"
  proof -
    have "0 + 255 * (length inp - Suc ip) < 2 ^ 32" using assms(1) by simp
    from zero_run_cases [OF this] show ?thesis
    proof
      assume "\<exists>ip'. Suc ip \<le> ip' \<and> ip' < length inp \<and> inp ! ip' \<noteq> 0 \<and> (\<forall>i\<in>{Suc ip..<ip'}. inp ! i = 0)
        \<and> zero_run inp (Suc ip) 0 = Ok (Some (ip', 0 + 255 * (ip' - Suc ip)))"
      then obtain ip' where ip': "ip' < length inp" "zero_run inp (Suc ip) 0 = Ok (Some (ip', 255 * (ip' - Suc ip)))"
        by auto
      have "255 * (ip' - Suc ip) \<le> 255 * length inp" using ip'(1) by (intro mult_le_mono2) simp
      then have "255 * (ip' - Suc ip) + (15 + unat (inp ! ip')) + 4 < 2 ^ 32"
        using assms(1) unat_less_8 [of "inp ! ip'"] by linarith
      then show ?thesis using ip' assms(2) by (simp add: rd_def literal_run_safe)
    qed (use assms(2) in simp)
  qed
  show ?thesis unfolding d_outer_def Let_def
    using assms(2) lit by (auto intro!: step_safe_rd literal_run_safe)
qed

lemma d_match_safe:
  assumes "255 * length inp + 512 < 2 ^ 32" "length out \<le> cap"
  shows "step_safe cap (d_match inp cap t ip out)"
proof -
  have long: "step_safe cap (bindR (match_len inp base u ip) (\<lambda>r. case r of
      None \<Rightarrow> Ok (Return LZO_E_INPUT_OVERRUN out)
    | Some (t, ip) \<Rightarrow> bindR (rd_le16 inp ip) (\<lambda>d. f t ip d)))"
    if "base \<le> 31" "u < 32" "\<And>t ip d. 0 < t \<Longrightarrow> t + 2 < 2 ^ 32 \<Longrightarrow> step_safe cap (f t ip d)" for base u f
  proof -
    from match_len_cases [OF assms(1) that(1,2), of ip] show ?thesis
    proof
      assume "\<exists>t' ip'. match_len inp base u ip = Ok (Some (t', ip')) \<and> 0 < t' \<and> t' + 2 < 2 ^ 32"
      then obtain t' ip' where "match_len inp base u ip = Ok (Some (t', ip'))" "0 < t'" "t' + 2 < 2 ^ 32"
        by blast
      then show ?thesis using that(3)
        by (auto simp: rd_le16_def bindR_assoc intro!: step_safe_rd)
    qed (use assms(2) in simp)
  qed
  show ?thesis
    unfolding d_match_def Let_def
    using assms(2)
    by (auto simp: HAVE_LB_def [of _ out] copy_back_lz HAVE_OP_def [of 2]
        intro!: step_safe_rd copy_match_safe long copy_long_safe)
qed

lemma d_first_safe:
  assumes "length out \<le> cap"
  shows "step_safe cap (d_first inp cap ip out)"
  unfolding d_first_def Let_def
  using assms by (auto simp: HAVE_LB_def HAVE_OP_def copy_back_lz not_less le_diff_conv2 intro!: step_safe_rd)

lemma d_next_safe:
  assumes "length out \<le> cap"
  shows "step_safe cap (d_next inp cap t ip out)"
proof (cases "HAVE_OP t cap out \<or> HAVE_IP (t + 1) inp ip")
  case True
  then show ?thesis using assms by (auto simp: d_next_def)
next
  case False
  then have "ip + t < length inp" "length out + t \<le> cap" using assms by (auto simp: HAVE_OP_def HAVE_IP_def)
  then show ?thesis using False by (auto simp: d_next_def copy_in_bytes_take rd_def)
qed

lemma d_step_safe:
  assumes "255 * length inp + 512 < 2 ^ 32" "length out \<le> cap"
  shows "step_safe cap (d_step inp cap p ip out)"
proof (cases p)
  case Match_done
  then show ?thesis using assms by (auto simp: d_step_def d_done_def Let_def intro!: step_safe_rd)
qed (use assms d_outer_safe d_first_safe d_match_safe d_next_safe in \<open>simp_all add: d_step_def\<close>)

lemma decompress_from_safe:
  assumes "255 * length inp + 512 < 2 ^ 32" "length out \<le> cap"
  shows "case decompress_from inp cap p ip out of
      Inl e \<Rightarrow> e = Read_past_input | Inr (code, out') \<Rightarrow> length out' \<le> cap"
  using assms
proof (induction inp cap p ip out rule: decompress_from.induct)
  case (1 inp cap p ip out)
  note safe = d_step_safe [OF 1(2,3), of p ip]
  show ?case
  proof (cases "d_step inp cap p ip out")
    case (Inl e)
    then show ?thesis using safe by (simp add: decompress_from.simps [of inp cap p ip out])
  next
    case (Inr r)
    show ?thesis
    proof (cases r)
      case (Goto p' ip' out')
      then show ?thesis
        using 1(1) [OF Inr Goto 1(2)] Inr safe by (simp add: decompress_from.simps [of inp cap p ip out])
    next
      case (Return code out')
      then show ?thesis using Inr safe by (simp add: decompress_from.simps [of inp cap p ip out])
    qed
  qed
qed

lemma d_start_safe: "step_safe cap (d_start inp cap)"
proof -
  have "step_safe cap (if HAVE_OP t cap [] then Ok (Return LZO_E_OUTPUT_OVERRUN [])
      else if HAVE_IP (t + 1) inp 1 then Ok (Return LZO_E_INPUT_OVERRUN [])
      else bindR (copy_in_bytes inp cap t 1 []) (\<lambda>(ip, out). Ok (Goto First_literal_run ip out)))" for t
  proof (cases "HAVE_OP t cap [] \<or> HAVE_IP (t + 1) inp 1")
    case False
    then have "copy_in_bytes inp cap t 1 [] = Ok (1 + t, [] @ take t (drop 1 inp))"
      by (intro copy_in_bytes_take) (auto simp: HAVE_OP_def HAVE_IP_def)
    then show ?thesis using False by (auto simp: HAVE_OP_def)
  qed auto
  then show ?thesis unfolding d_start_def Let_def by (intro step_safe_rd) simp
qed

subsection \<open>Properties\<close>

text \<open>
  C6.  Output safety: on any input shorter than 16 MB, valid or not, and any output buffer,
  \<^verbatim>\<open>lzo1x_decompress_safe\<close> never writes past the buffer and never copies from
  output it has not written; if it returns, it has written at most the size of the buffer.  The
  only fault left is a read past the end of the input.
\<close>

theorem lzo_decompress_output_safe:
  assumes "length inp < 2 ^ 24"
  shows "case lzo1x_decompress_safe inp cap of
      Inl e \<Rightarrow> e = Read_past_input
    | Inr (code, out) \<Rightarrow> length out \<le> cap"
proof -
  have b: "255 * length inp + 512 < 2 ^ 32" using assms by simp
  show ?thesis
  proof (cases "d_start inp cap")
    case (Inl e)
    then show ?thesis using d_start_safe [of cap inp] by (simp add: lzo1x_decompress_safe_def)
  next
    case (Inr r)
    then show ?thesis
      using d_start_safe [of cap inp] decompress_from_safe [OF b]
      by (cases r) (simp_all add: lzo1x_decompress_safe_def)
  qed
qed

theorem lzo_decompress_output_safe_witness:
  "case lzo1x_decompress_safe [0x40, 0xff, 0x00] 100 of
      Inl e \<Rightarrow> e = Read_past_input
    | Inr (code, out) \<Rightarrow> length out \<le> 100"
  by (rule lzo_decompress_output_safe) simp

text \<open>
  C19.  The bound on the input length is needed: with 16843009 zero bytes at the start the 32-bit
  run length wraps to its maximum, the two overrun tests wrap to 2 and 3, and the decompressor
  writes four bytes into a two-byte buffer.
\<close>

theorem lzo_decompress_length_wrap:
  "lzo1x_decompress_safe (replicate 16843009 0 @ [240, a, b, c, d]) 2 = Stop Write_past_output"
proof -
  let ?inp = "replicate 16843009 0 @ [240, a, b, c, d] :: byte list"
  have nth: "?inp ! i = 0" if "i < 16843009" for i using that by (simp add: nth_append)
  have last: "?inp ! 16843009 = 240" by (simp add: nth_append)
  have len: "length ?inp = 16843014" by simp
  have start: "d_start ?inp 2 = Ok (Goto Outer_loop 0 [])"
    using nth [of 0] by (simp add: d_start_def rd_def len)
  have zero: "zero_run ?inp (Suc 0) 0 = Ok (Some (16843009, 0 + 255 * (16843009 - Suc 0)))"
  proof (rule zero_run_at)
    show "\<forall>i\<in>{Suc 0..<16843009}. ?inp ! i = 0" using nth by (auto simp del: replicate_Suc)
  qed (use last len in simp_all)
  have rd0: "rd ?inp 0 = Ok 0" using nth [of 0] len by (simp add: rd_def)
  have rd1: "rd ?inp 16843009 = Ok 240" using last len by (simp add: rd_def)
  have t: "w32 (255 * (16843009 - Suc 0) + (15 + 240)) = 4294967295" by (simp add: w32_def)
  have lit: "literal_run ?inp 2 4294967295 (Suc 16843009) [] = Stop Write_past_output"
    by (simp add: literal_run_def HAVE_OP_def HAVE_IP_def len w32_def copy_in_def del: length_append length_replicate)
  have "d_outer ?inp 2 0 [] = Stop Write_past_output"
    using zero rd0 rd1 t lit by (simp add: d_outer_def len Let_def)
  then have "decompress_from ?inp 2 Outer_loop 0 [] = Stop Write_past_output"
    by (simp add: decompress_from.simps [of ?inp] d_step_def)
  then show ?thesis using start by (simp add: lzo1x_decompress_safe_def)
qed

end
