(* ===== verification/Lzo_Roundtrip.thy ===== *)
theory Lzo_Roundtrip
  imports Lzo_Compress Lzo_Safety
begin

text \<open>
  The LZO compressor and decompressor together.  Each code the compressor emits for a run of
  literals or a match is shown to steer the decompressor through exactly one copy; the output of
  the compressor so far, with any value in the two patched bits and followed by anything, brings
  the decompressor to its label \<^verbatim>\<open>match_done\<close> with the input consumed so far
  reconstructed.  The round trip and the bound on the size of the output follow by induction over
  the compressor's loop, for every content of the work memory.
\<close>

subsection \<open>Arithmetic of the codes\<close>

lemma or_low: "(a :: nat) mod 2 ^ j = 0 \<Longrightarrow> b < 2 ^ j \<Longrightarrow> a OR b = a + b"
proof -
  assume "a mod 2 ^ j = 0" "b < 2 ^ j"
  then have "take_bit j a = 0" "take_bit j b = b" by (simp_all add: take_bit_eq_mod)
  then have "a AND b = 0"
    by (metis and_take_bit_right and.commute and_zero_eq)
  then show ?thesis by (simp add: disjunctive_add_eq_or)
qed

lemma unat_or: "unat (a OR b) = unat a OR unat (b :: 'a::len word)"
  by (simp add: or_nat_def) (metis nat_uint_eq uint_or)

lemma unat_byte: "n < 256 \<Longrightarrow> unat (word_of_nat n :: byte) = n"
  by (simp add: unat_of_nat)

lemma unat_byte_mod: "unat (word_of_nat n :: byte) = n mod 256"
  by (simp add: unat_of_nat)

lemma and_63: "n AND 63 = n mod (64 :: nat)"
  using take_bit_eq_mask [of 6 n] by (simp add: take_bit_eq_mod mask_eq_exp_minus_1)

lemma and_7: "n AND 7 = n mod (8 :: nat)"
  using take_bit_eq_mask [of 3 n] by (simp add: take_bit_eq_mod mask_eq_exp_minus_1)

lemma and_pow2: "n AND 2 ^ k = (if bit n k then 2 ^ k else (0 :: nat))"
  by (rule bit_eqI) (auto simp: bit_simps)

lemma and_0x4000: "n AND 0x4000 = (n div 0x4000 mod 2) * (0x4000 :: nat)"
  using and_pow2 [of n 14] by (auto simp: bit_iff_odd mod_2_eq_odd)

lemma patched_byte:
  assumes "unat (w :: byte) mod 4 = 0" "k < 4"
  shows "unat (w OR word_of_nat k) = unat w + k"
  using assms or_low [of "unat w" 2 k] by (simp add: unat_or unat_byte)

lemma patched_of_nat:
  assumes "v < 256" "v mod 4 = 0" "k < 4"
  shows "unat (word_of_nat v OR word_of_nat k :: byte) = v + k"
  using assms patched_byte [of "word_of_nat v" k] unat_byte [of v] by simp

lemma drop_bit_div: "drop_bit k n = n div 2 ^ k" for n :: nat
  by (simp add: drop_bit_eq_div)

lemma push_bit_mult: "push_bit k n = n * 2 ^ k" for n :: nat
  by (simp add: push_bit_eq_mult)

text \<open>The bytes of the codes as numbers.\<close>

lemma m2_code:
  fixes l n :: nat
  assumes "3 \<le> l" "l \<le> 8"
  shows "push_bit 5 (l - 1) OR push_bit 2 (n AND 7) = 32 * (l - 1) + 4 * (n mod 8)"
  using or_low [of "32 * (l - 1)" 5 "4 * (n mod 8)"] by (simp add: push_bit_mult and_7 mult.commute)

lemma m3_code: "n < 32 \<Longrightarrow> M3_MARKER OR n = 32 + n"
  using or_low [of 32 5 n] by (simp add: M3_MARKER_def)

lemma m4_code: "n < 8 \<Longrightarrow> M4_MARKER OR drop_bit 11 (d AND 0x4000) OR n = 16 + 8 * (d div 0x4000 mod 2) + n"
proof -
  assume n: "n < 8"
  have "drop_bit 11 (d AND 0x4000) = 8 * (d div 0x4000 mod 2)"
    by (simp add: and_0x4000 drop_bit_div mod_2_eq_odd)
  moreover have "M4_MARKER OR 8 * (d div 0x4000 mod 2) = 16 + 8 * (d div 0x4000 mod 2)"
    unfolding M4_MARKER_def by (rule or_low [where j = 4]) (simp_all add: mod_2_eq_odd)
  moreover have "16 + 8 * (d div 0x4000 mod 2) OR n = 16 + 8 * (d div 0x4000 mod 2) + n"
    by (rule or_low [where j = 3]) (use n in \<open>simp_all add: mod_2_eq_odd\<close>)
  ultimately show ?thesis by (simp only: or.assoc [symmetric])
qed

lemma m4_code0: "M4_MARKER OR drop_bit 11 (d AND 0x4000) = 16 + 8 * (d div 0x4000 mod 2)"
  using m4_code [of 0 d] by simp

lemma emit_offset_bytes:
  "emit_offset d = [word_of_nat (4 * (d mod 64)), word_of_nat (d div 64)]"
  by (simp add: emit_offset_def push_bit_mult and_63 drop_bit_div mult.commute)

subsection \<open>Reading inside an appended list\<close>

lemma rd_append: "rd (pre @ ys) (length pre + i) = rd ys i"
  by (simp add: rd_def nth_append)

lemma rd_append0: "rd (pre @ ys) (length pre) = rd ys 0"
  using rd_append [of pre ys 0] by simp

lemma rd_append1: "rd (pre @ ys) (Suc (length pre)) = rd ys 1"
  using rd_append [of pre ys 1] by simp

lemma rd_Cons [simp]: "rd (x # ys) 0 = Ok (unat x)" "rd (x # ys) (Suc i) = rd ys i"
  by (simp_all add: rd_def)

lemma emit_run_form:
  "0 < n \<Longrightarrow> \<exists>q r. emit_run n = replicate q 0 @ [word_of_nat r] \<and> n = 255 * q + r \<and> 0 < r \<and> r < 256"
proof (induction n rule: less_induct)
  case (less n)
  show ?case
  proof (cases "255 < n")
    case True
    then obtain q r where "emit_run (n - 255) = replicate q 0 @ [word_of_nat r]"
      "n - 255 = 255 * q + r" "0 < r" "r < 256" using less.IH [of "n - 255"] by auto
    then have "emit_run n = replicate (Suc q) 0 @ [word_of_nat r] \<and> n = 255 * Suc q + r \<and> 0 < r \<and> r < 256"
      using True emit_run.simps [of n] by simp
    then show ?thesis by blast
  next
    case False
    then have "emit_run n = replicate 0 0 @ [word_of_nat n] \<and> n = 255 * 0 + n \<and> 0 < n \<and> n < 256"
      using less.prems emit_run.simps [of n] by simp
    then show ?thesis by blast
  qed
qed

lemma zero_run_emit:
  assumes "0 < n" "n < 2 ^ 32"
  shows "\<exists>q r. zero_run (pre @ emit_run n @ post) (length pre) 0 = Ok (Some (length pre + q, 255 * q))
    \<and> rd (pre @ emit_run n @ post) (length pre + q) = Ok r
    \<and> n = 255 * q + r \<and> length (emit_run n) = Suc q"
proof -
  obtain q r where run: "emit_run n = replicate q 0 @ [word_of_nat r]" "n = 255 * q + r" "0 < r" "r < 256"
    using emit_run_form [OF assms(1)] by blast
  let ?inp = "pre @ emit_run n @ post"
  have at: "?inp ! (length pre + q) = word_of_nat r" by (simp add: run(1) nth_append)
  have nz: "(word_of_nat r :: byte) \<noteq> 0"
    using run(3,4) unat_byte [of r] by (metis less_numeral_extra(3) unat_0)
  have zeros: "\<forall>i\<in>{length pre..<length pre + q}. ?inp ! i = 0"
    by (auto simp: run(1) nth_append)
  have "zero_run ?inp (length pre) 0 = Ok (Some (length pre + q, 0 + 255 * (length pre + q - length pre)))"
    using at nz zeros assms(2) run by (intro zero_run_at) auto
  moreover have "rd ?inp (length pre + q) = Ok r"
    using at unat_byte [OF run(4)] by (simp add: rd_def run(1))
  ultimately show ?thesis using run by auto
qed

lemma match_len_emit:
  assumes "0 < n" "n + base < 2 ^ 32"
  shows "match_len (pre @ emit_run n @ post) base 0 (length pre)
    = Ok (Some (n + base, length pre + length (emit_run n)))"
proof -
  have "n < 2 ^ 32" using assms(2) by simp
  from zero_run_emit [OF assms(1) this, of pre post] obtain q r where
    "zero_run (pre @ emit_run n @ post) (length pre) 0 = Ok (Some (length pre + q, 255 * q))"
    "rd (pre @ emit_run n @ post) (length pre + q) = Ok r" "n = 255 * q + r" "length (emit_run n) = Suc q"
    by blast
  then show ?thesis using assms(2) by (simp add: match_len_def algebra_simps)
qed

subsection \<open>A match code steers the decompressor through one copy\<close>

definition steers :: "byte list \<Rightarrow> nat \<Rightarrow> nat \<Rightarrow> bool" where
  "steers code m_off l \<longleftrightarrow> (\<forall>pre post cap k out.
    k < 4 \<and> m_off \<le> length out \<and> length out + l \<le> cap \<longrightarrow>
      16 \<le> unat (patch code k ! 0) \<and>
      d_match (pre @ patch code k @ post) cap (unat (patch code k ! 0)) (Suc (length pre)) out
        = Ok (Goto Match_done (length pre + length code) (lz_copy l (length out - m_off) out)))"

lemma patch_long: "patch (a # run @ [lo, hi]) k = a # run @ [lo OR word_of_nat k, hi]"
  by (simp add: patch_def nth_append list_update_append split: nat.splits)

lemma rd_le16_at: "rd_le16 (pre @ lo # hi # post) (length pre) = Ok (unat lo + 256 * unat hi)"
  by (simp add: rd_le16_def rd_append0 rd_append1)

lemma steers_m2:
  assumes "0 < m_off" "m_off \<le> M2_MAX_OFFSET" "3 \<le> l" "l \<le> 8"
  shows "steers (emit_short m_off l) m_off l"
  unfolding steers_def
proof (intro allI impI)
  fix pre post :: "byte list" and cap k :: nat and out :: "byte list"
  assume h: "k < 4 \<and> m_off \<le> length out \<and> length out + l \<le> cap"
  let ?o = "m_off - 1"
  define c where "c = 32 * (l - 1) + 4 * (?o mod 8)"
  define b where "b = ?o div 8"
  have c: "c < 256" "c mod 4 = 0" "64 \<le> c" using assms by (auto simp: c_def mod_add_eq)
  have b: "b < 256" using assms(2) by (simp add: b_def M2_MAX_OFFSET_def less_mult_imp_div_less)
  have code: "emit_short m_off l = [word_of_nat c, word_of_nat b]"
  proof -
    have "push_bit 5 (l - 1) OR push_bit 2 (?o AND 7) = c" "drop_bit 3 ?o = b"
      using m2_code [OF assms(3,4), of ?o] by (simp_all only: c_def b_def drop_bit_div) simp
    then show ?thesis using assms(2) by (simp only: emit_short_def Let_def if_True)
  qed
  have t: "unat (word_of_nat c OR word_of_nat k :: byte) = c + k"
    using h c by (intro patched_of_nat) simp_all
  have "c + k = 32 * (l - 1) + (4 * (?o mod 8) + k)" by (simp add: c_def)
  moreover have "4 * (?o mod 8) + k < 32" using h mod_less_divisor [of 8 ?o] by linarith
  moreover have "(32 * (l - 1) + r) div 32 = l - 1" if "r < 32" for r using that by simp
  ultimately have "(c + k) div 32 = l - 1" by presburger
  have "(32 * a + 4 * b + k) div 4 = 8 * a + b" for a b :: nat
    using h div_mult_self4 [of 4 "8 * a + b" k] by (simp add: algebra_simps)
  then have "(c + k) div 4 = 8 * (l - 1) + ?o mod 8" unfolding c_def .
  then have "(c + k) div 4 mod 8 = ?o mod 8" by simp
  have off: "?o mod 8 + b * 8 = ?o" by (simp add: b_def)
  have m: "int (length out) - 1 - int ((c + k) div 4 mod 8) - int (b * 8) = int (length out - m_off)"
    unfolding \<open>(c + k) div 4 mod 8 = ?o mod 8\<close> using off assms(1) h by linarith
  have t2: "(c + k) div 32 - 1 = l - 2" using \<open>(c + k) div 32 = l - 1\<close> by simp
  have g: "\<not> HAVE_LB (int (length out - m_off)) out" "\<not> HAVE_OP (l - 2 + 3 - 1) cap out"
    using assms h by (auto simp: HAVE_LB_def HAVE_OP_def)
  have rd: "rd (pre @ [word_of_nat c OR word_of_nat k, word_of_nat b] @ post) (Suc (length pre)) = Ok b"
    by (simp add: rd_append1 unat_byte [OF b])
  have "64 \<le> c + k" using c(3) by simp
  then have "d_match (pre @ [word_of_nat c OR word_of_nat k, word_of_nat b] @ post) cap (c + k) (Suc (length pre)) out
      = copy_match cap (l - 2) (nat (int (length out - m_off))) (Suc (Suc (length pre))) out"
    using g by (simp only: d_match_def Let_def rd bindR_simps m t2 if_True if_False)
  also have "\<dots> = Ok (Goto Match_done (Suc (Suc (length pre))) (lz_copy (l - 2 + 2) (length out - m_off) out))"
    unfolding nat_int using assms h by (intro copy_match_lz) auto
  also have "l - 2 + 2 = l" using assms(3) by simp
  finally show "16 \<le> unat (patch (emit_short m_off l) k ! 0) \<and>
      d_match (pre @ patch (emit_short m_off l) k @ post) cap (unat (patch (emit_short m_off l) k ! 0))
        (Suc (length pre)) out
      = Ok (Goto Match_done (length pre + length (emit_short m_off l)) (lz_copy l (length out - m_off) out))"
    using t c(3) by (simp add: code patch_def)
qed

text \<open>The two long forms: marker, length run and offset.\<close>

lemma le16_offset:
  assumes "k < 4"
  shows "(unat (word_of_nat (4 * (d mod 64)) OR word_of_nat k :: byte) + 256 * unat (word_of_nat (d div 64) :: byte)) div 4
    = d mod 0x4000"
proof -
  have "unat (word_of_nat (4 * (d mod 64)) OR word_of_nat k :: byte) = 4 * (d mod 64) + k"
    using assms by (intro patched_of_nat) simp_all
  moreover have "unat (word_of_nat (d div 64) :: byte) = d div 64 mod 256" by (rule unat_byte_mod)
  moreover have "(4 * (d mod 64) + k + 256 * (d div 64 mod 256)) div 4 = d mod 64 + 64 * (d div 64 mod 256)"
    using assms by simp
  moreover have "d mod 0x4000 = d mod 64 + 64 * (d div 64 mod 256)"
    using mod_mult2_eq [of d 64 256] by simp
  ultimately show ?thesis by simp
qed

lemma steers_m3:
  assumes m: "0 < m_off" "m_off \<le> M3_MAX_OFFSET" and l: "3 \<le> l" "l < 2 ^ 32"
    and code: "code = word_of_nat c # run @ emit_offset (m_off - 1)" "32 \<le> c" "c < 64"
    and len: "\<And>pre post. match_len (pre @ run @ post) 31 (c mod 32) (length pre)
      = Ok (Some (l - 2, length pre + length run))"
  shows "steers code m_off l"
  unfolding steers_def
proof (intro allI impI)
  fix pre post :: "byte list" and cap k :: nat and out :: "byte list"
  assume h: "k < 4 \<and> m_off \<le> length out \<and> length out + l \<le> cap"
  let ?d = "m_off - 1"
  let ?lo = "word_of_nat (4 * (?d mod 64)) OR word_of_nat k :: byte" and ?hi = "word_of_nat (?d div 64) :: byte"
  have p: "patch code k = word_of_nat c # run @ [?lo, ?hi]"
    by (simp add: code(1) emit_offset_bytes patch_long)
  have d: "?d mod 0x4000 = ?d" using m by (simp add: M3_MAX_OFFSET_def)
  let ?inp = "pre @ (word_of_nat c # run @ [?lo, ?hi]) @ post"
  have ml: "match_len ?inp 31 (c mod 32) (Suc (length pre)) = Ok (Some (l - 2, Suc (length pre) + length run))"
    using len [of "pre @ [word_of_nat c]" "[?lo, ?hi] @ post"] by simp
  have rd: "rd_le16 ?inp (Suc (length pre) + length run) = Ok (unat ?lo + 256 * unat ?hi)"
    using rd_le16_at [of "pre @ [word_of_nat c] @ run" ?lo ?hi post] by simp
  have m': "int (length out) - 1 - int ?d = int (length out - m_off)" using m h by linarith
  have "d_match ?inp cap c (Suc (length pre)) out
      = copy_long cap (l - 2) (int (length out - m_off)) (Suc (length pre) + length run + 2) out"
    using code(2,3) ml rd le16_offset [of k ?d] h d m' by (simp add: d_match_def Let_def)
  also have "\<dots> = Ok (Goto Match_done (Suc (length pre) + length run + 2)
      (lz_copy (l - 2 + 2) (nat (int (length out - m_off))) out))"
    using l h m by (intro copy_long_lz) auto
  also have "l - 2 + 2 = l" using l by simp
  also have "Suc (length pre) + length run + 2 = length pre + length code"
    by (simp add: code(1) emit_offset_def)
  finally have r: "d_match ?inp cap c (Suc (length pre)) out
      = Ok (Goto Match_done (length pre + length code) (lz_copy l (length out - m_off) out))"
    by (simp only: nat_int)
  have "unat (patch code k ! 0) = c" using code(2,3) by (simp add: p unat_byte)
  then show "16 \<le> unat (patch code k ! 0) \<and>
      d_match (pre @ patch code k @ post) cap (unat (patch code k ! 0)) (Suc (length pre)) out
      = Ok (Goto Match_done (length pre + length code) (lz_copy l (length out - m_off) out))"
    using r code(2) unfolding p by (intro conjI) (linarith, simp only:)
qed

lemma steers_m4:
  assumes m: "M3_MAX_OFFSET < m_off" "m_off \<le> M4_MAX_OFFSET" and l: "3 \<le> l" "l < 2 ^ 32"
    and code: "code = word_of_nat c # run @ emit_offset (m_off - 0x4000)" "16 \<le> c" "c < 32"
      "c div 8 mod 2 = (m_off - 0x4000) div 0x4000"
    and len: "\<And>pre post. match_len (pre @ run @ post) 7 (c mod 8) (length pre)
      = Ok (Some (l - 2, length pre + length run))"
  shows "steers code m_off l"
  unfolding steers_def
proof (intro allI impI)
  fix pre post :: "byte list" and cap k :: nat and out :: "byte list"
  assume h: "k < 4 \<and> m_off \<le> length out \<and> length out + l \<le> cap"
  let ?d = "m_off - 0x4000"
  let ?lo = "word_of_nat (4 * (?d mod 64)) OR word_of_nat k :: byte" and ?hi = "word_of_nat (?d div 64) :: byte"
  have p: "patch code k = word_of_nat c # run @ [?lo, ?hi]"
    by (simp add: code(1) emit_offset_bytes patch_long)
  let ?inp = "pre @ (word_of_nat c # run @ [?lo, ?hi]) @ post"
  have ml: "match_len ?inp 7 (c mod 8) (Suc (length pre)) = Ok (Some (l - 2, Suc (length pre) + length run))"
    using len [of "pre @ [word_of_nat c]" "[?lo, ?hi] @ post"] by simp
  have rd: "rd_le16 ?inp (Suc (length pre) + length run) = Ok (unat ?lo + 256 * unat ?hi)"
    using rd_le16_at [of "pre @ [word_of_nat c] @ run" ?lo ?hi post] by simp
  have d: "(c div 8 mod 2) * 8 * 2048 + ?d mod 0x4000 = ?d"
    unfolding code(4) by (simp add: div_mult_mod_eq mult.commute)
  define mp where "mp = int (length out) - int (c div 8 mod 2 * 8 * 2048) - int (?d mod 0x4000)"
  have mp: "mp = int (length out) - int ?d" using d unfolding mp_def by linarith
  have ne: "mp \<noteq> int (length out)" using m by (simp add: mp M3_MAX_OFFSET_def)
  have m': "mp - 0x4000 = int (length out - m_off)" using m h unfolding mp M3_MAX_OFFSET_def by linarith
  have "d_match ?inp cap c (Suc (length pre)) out
      = copy_long cap (l - 2) (mp - 0x4000) (Suc (length pre) + length run + 2) out"
    using code(2,3) ml rd le16_offset [of k ?d] h ne unfolding d_match_def Let_def mp_def by simp
  also have "\<dots> = Ok (Goto Match_done (Suc (length pre) + length run + 2)
      (lz_copy (l - 2 + 2) (nat (int (length out - m_off))) out))"
    unfolding m' using l h m by (intro copy_long_lz) (auto simp: M3_MAX_OFFSET_def)
  also have "l - 2 + 2 = l" using l by simp
  also have "Suc (length pre) + length run + 2 = length pre + length code"
    by (simp add: code(1) emit_offset_def)
  finally have r: "d_match ?inp cap c (Suc (length pre)) out
      = Ok (Goto Match_done (length pre + length code) (lz_copy l (length out - m_off) out))"
    by (simp only: nat_int)
  have "unat (patch code k ! 0) = c" using code(2,3) by (simp add: p unat_byte)
  then show "16 \<le> unat (patch code k ! 0) \<and>
      d_match (pre @ patch code k @ post) cap (unat (patch code k ! 0)) (Suc (length pre)) out
      = Ok (Goto Match_done (length pre + length code) (lz_copy l (length out - m_off) out))"
    using r code(2) unfolding p by (intro conjI) (linarith, simp only:)
qed

lemma match_len_direct:
  "0 < n \<Longrightarrow> match_len inp base n ip = Ok (Some (n, ip))"
  by (simp add: match_len_def)

lemma steers_m3_short:
  assumes "0 < m_off" "m_off \<le> M3_MAX_OFFSET" "3 \<le> l" "l \<le> 33"
  shows "steers (word_of_nat (M3_MARKER OR (l - 2)) # emit_offset (m_off - 1)) m_off l"
proof (rule steers_m3 [where c = "32 + (l - 2)" and run = "[]"])
  show "word_of_nat (M3_MARKER OR (l - 2)) # emit_offset (m_off - 1)
      = word_of_nat (32 + (l - 2)) # [] @ emit_offset (m_off - 1)"
    using assms(4) by (simp only: m3_code) simp
  show "match_len (pre @ [] @ post) 31 ((32 + (l - 2)) mod 32) (length pre)
      = Ok (Some (l - 2, length pre + length []))" for pre post
  proof -
    have "l - 2 < 32" using assms(4) by simp
    then have "(32 + (l - 2)) mod 32 = l - 2" by (simp only: mod_add_self1 mod_less)
    then show ?thesis using assms(3) match_len_direct [of "l - 2"] by simp
  qed
qed (use assms in simp_all)

lemma steers_m3_long:
  assumes "0 < m_off" "m_off \<le> M3_MAX_OFFSET" "33 < l" "l < 2 ^ 32"
  shows "steers (word_of_nat (M3_MARKER OR 0) # emit_run (l - 33) @ emit_offset (m_off - 1)) m_off l"
proof (rule steers_m3 [where c = 32 and run = "emit_run (l - 33)"])
  show "match_len (pre @ emit_run (l - 33) @ post) 31 (32 mod 32) (length pre)
      = Ok (Some (l - 2, length pre + length (emit_run (l - 33))))" for pre post
    using match_len_emit [of "l - 33" 31 pre post] assms(3,4) by simp
qed (use assms in \<open>simp_all add: M3_MARKER_def\<close>)

lemma m4_high:
  assumes "M3_MAX_OFFSET < m_off" "m_off \<le> M4_MAX_OFFSET" "n < 8"
  shows "(16 + 8 * ((m_off - 0x4000) div 0x4000 mod 2) + n) div 8 mod 2 = (m_off - 0x4000) div 0x4000"
    "16 + 8 * ((m_off - 0x4000) div 0x4000 mod 2) + n < 32"
    "(16 + 8 * ((m_off - 0x4000) div 0x4000 mod 2) + n) mod 8 = n"
proof -
  define x where "x = (m_off - 0x4000) div 0x4000"
  have "x < 2" using assms(2) by (simp add: x_def M4_MAX_OFFSET_def less_mult_imp_div_less)
  then have x: "x mod 2 = x" by simp
  have 8: "(8 * (2 + x) + n) div 8 = 2 + x" "(8 * (2 + x) + n) mod 8 = n"
    using assms(3) by (simp_all only: mod_mult_self4 mod_less div_mult_self4 div_less)
  have e: "16 + 8 * x + n = 8 * (2 + x) + n" by simp
  show "(16 + 8 * ((m_off - 0x4000) div 0x4000 mod 2) + n) div 8 mod 2 = (m_off - 0x4000) div 0x4000"
    "16 + 8 * ((m_off - 0x4000) div 0x4000 mod 2) + n < 32"
    "(16 + 8 * ((m_off - 0x4000) div 0x4000 mod 2) + n) mod 8 = n"
    unfolding x_def [symmetric] x e 8 using x assms(3) \<open>x < 2\<close> by simp_all
qed

lemma steers_m4_short:
  assumes "M3_MAX_OFFSET < m_off" "m_off \<le> M4_MAX_OFFSET" "3 \<le> l" "l \<le> 9"
  shows "steers (word_of_nat (M4_MARKER OR drop_bit 11 ((m_off - 0x4000) AND 0x4000) OR (l - 2))
    # emit_offset (m_off - 0x4000)) m_off l"
proof -
  define c where "c = 16 + 8 * ((m_off - 0x4000) div 0x4000 mod 2) + (l - 2)"
  have l2: "l - 2 < 8" using assms(4) by simp
  note hi = m4_high [OF assms(1,2) l2, folded c_def]
  show ?thesis
  proof (rule steers_m4 [where c = c and run = "[]"])
    show "word_of_nat (M4_MARKER OR drop_bit 11 ((m_off - 0x4000) AND 0x4000) OR (l - 2)) # emit_offset (m_off - 0x4000)
        = word_of_nat c # [] @ emit_offset (m_off - 0x4000)"
      by (simp only: m4_code [OF l2] c_def append_Nil)
    show "match_len (pre @ [] @ post) 7 (c mod 8) (length pre)
        = Ok (Some (l - 2, length pre + length []))" for pre post
      unfolding hi(3) using assms(3) match_len_direct [of "l - 2"] by simp
    show "16 \<le> c" by (simp add: c_def)
    show "c < 32" "c div 8 mod 2 = (m_off - 0x4000) div 0x4000" by (rule hi)+
  qed (use assms in simp_all)
qed

lemma steers_m4_long:
  assumes "M3_MAX_OFFSET < m_off" "m_off \<le> M4_MAX_OFFSET" "9 < l" "l < 2 ^ 32"
  shows "steers (word_of_nat (M4_MARKER OR drop_bit 11 ((m_off - 0x4000) AND 0x4000))
    # emit_run (l - 9) @ emit_offset (m_off - 0x4000)) m_off l"
proof -
  define c where "c = 16 + 8 * ((m_off - 0x4000) div 0x4000 mod 2)"
  have c8: "c = 16 + 8 * ((m_off - 0x4000) div 0x4000 mod 2) + 0" by (simp add: c_def)
  note hi = m4_high [OF assms(1,2), of 0, folded c8]
  show ?thesis
  proof (rule steers_m4 [where c = c and run = "emit_run (l - 9)"])
    show "word_of_nat (M4_MARKER OR drop_bit 11 ((m_off - 0x4000) AND 0x4000)) # emit_run (l - 9) @ emit_offset (m_off - 0x4000)
        = word_of_nat c # emit_run (l - 9) @ emit_offset (m_off - 0x4000)"
      by (simp only: m4_code0 c_def)
    show "match_len (pre @ emit_run (l - 9) @ post) 7 (c mod 8) (length pre)
        = Ok (Some (l - 2, length pre + length (emit_run (l - 9))))" for pre post
      using match_len_emit [of "l - 9" 7 pre post] assms(3,4) hi(3) by simp
    show "16 \<le> c" by (simp add: c_def)
    show "c < 32" "c div 8 mod 2 = (m_off - 0x4000) div 0x4000" using hi by simp_all
  qed (use assms in simp_all)
qed

lemma steers_short:
  assumes "0 < m_off" "m_off \<le> M4_MAX_OFFSET" "3 \<le> l" "l \<le> 8"
  shows "steers (emit_short m_off l) m_off l"
proof (cases "m_off \<le> M2_MAX_OFFSET")
  case True
  then show ?thesis using assms by (intro steers_m2) simp_all
next
  case False
  show ?thesis
  proof (cases "m_off \<le> M3_MAX_OFFSET")
    case True
    then show ?thesis using False assms steers_m3_short [of m_off l] by (simp add: emit_short_def Let_def)
  next
    case False
    then show ?thesis using \<open>\<not> m_off \<le> M2_MAX_OFFSET\<close> assms steers_m4_short [of m_off l]
      by (simp add: emit_short_def Let_def)
  qed
qed

lemma steers_long:
  assumes "0 < m_off" "m_off \<le> M4_MAX_OFFSET" "9 \<le> l" "l < 2 ^ 32"
  shows "steers (emit_long m_off l) m_off l"
proof (cases "m_off \<le> M3_MAX_OFFSET")
  case True
  then show ?thesis
    using assms steers_m3_short [of m_off l] steers_m3_long [of m_off l]
    by (simp add: emit_long_def Let_def)
next
  case False
  then show ?thesis
    using assms steers_m4_short [of m_off l] steers_m4_long [of m_off l]
    by (simp add: emit_long_def Let_def M4_MAX_LEN_def)
qed

text \<open>The last byte but one of a match code leaves its two low bits free.\<close>

definition patchable :: "byte list \<Rightarrow> bool" where
  "patchable out \<longleftrightarrow> 2 \<le> length out \<and> unat (out ! (length out - 2)) mod 4 = 0"

lemma patchable_append: "patchable code \<Longrightarrow> patchable (out @ code)"
  by (auto simp: patchable_def nth_append)

lemma patchable_offset: "patchable (xs @ emit_offset d)"
  by (rule patchable_append)
    (simp add: patchable_def emit_offset_bytes unat_byte_mod mod_mod_cancel del: of_nat_mult)

lemma patchable_short:
  assumes "3 \<le> l" "l \<le> 8"
  shows "patchable (emit_short m_off l)"
proof -
  have "patchable (x # emit_offset d)" for x d using patchable_offset [of "[x]" d] by simp
  moreover have "unat (word_of_nat (32 * (l - 1) + 4 * n) :: byte) mod 4 = 0" for n
    by (simp add: unat_byte_mod mod_mod_cancel del: of_nat_add of_nat_mult)
  ultimately show ?thesis
    using m2_code [OF assms] by (simp add: emit_short_def Let_def patchable_def del: of_nat_add of_nat_mult)
qed

lemma patchable_long: "patchable (emit_long m_off l)"
  using patchable_offset unfolding emit_long_def Let_def by (simp split: if_split)

subsection \<open>Literal runs\<close>

lemma dec_goto:
  "d_step inp cap p ip out = Ok (Goto p' ip' out') \<Longrightarrow>
    decompress_from inp cap p ip out = decompress_from inp cap p' ip' out'"
  by (simp add: decompress_from.simps [of inp cap p ip out])

lemma d_outer_lit_code:
  assumes "4 \<le> t" "t + 1 < 2 ^ 32" "length lits = t" "length out + t \<le> cap"
  shows "d_outer (pre @ lit_code t @ lits @ c # post) cap (length pre) out
    = Ok (Goto First_literal_run (length pre + length (lit_code t) + t) (out @ lits))"
proof -
  let ?inp = "pre @ lit_code t @ lits @ c # post"
  have copy: "literal_run ?inp cap (t - 3) (length pre + length (lit_code t)) out
      = Ok (Goto First_literal_run (length pre + length (lit_code t) + (t - 3 + 3)) (out @ lits))"
    using literal_run_copies [of "t - 3" out cap "length pre + length (lit_code t)" ?inp] assms by simp
  have t3: "t - 3 + 3 = t" using assms(1) by simp
  show ?thesis
  proof (cases "t \<le> 18")
    case True
    then have code: "lit_code t = [word_of_nat (t - 3)]" by (simp add: lit_code_def)
    have "rd ?inp (length pre) = Ok (t - 3)"
      using True unat_byte [of "t - 3"] by (simp add: code rd_append0)
    then show ?thesis
      using copy True assms(1) t3 by (simp add: d_outer_def Let_def code)
  next
    case False
    then have code: "lit_code t = 0 # emit_run (t - 18)" by (simp add: lit_code_def)
    have rd0: "rd ?inp (length pre) = Ok 0" by (simp add: code rd_append0)
    have "0 < t - 18" "t - 18 < 2 ^ 32" using False assms(2) by simp_all
    from zero_run_emit [OF this, of "pre @ [0]" "lits @ c # post"] obtain q r where z:
      "zero_run ?inp (Suc (length pre)) 0 = Ok (Some (Suc (length pre) + q, 255 * q))"
      "rd ?inp (Suc (length pre) + q) = Ok r" "t - 18 = 255 * q + r" "length (emit_run (t - 18)) = Suc q"
      by (auto simp: code)
    have len: "length (lit_code t) = Suc (Suc q)" by (simp add: code z(4))
    have w: "w32 (255 * q + (15 + r)) = t - 3" using z(3) False assms(2) by simp
    have "d_outer ?inp cap (length pre) out = literal_run ?inp cap (t - 3) (Suc (Suc (length pre) + q)) out"
      using rd0 z(1,2) w by (simp add: d_outer_def Let_def)
    also have "Suc (Suc (length pre) + q) = length pre + length (lit_code t)" by (simp add: len)
    finally show ?thesis using copy t3 by simp
  qed
qed

lemma decode_lit_run:
  assumes "4 \<le> t" "t + 1 < 2 ^ 32" "length lits = t" "length out + t \<le> cap" "16 \<le> unat c"
  shows "decompress_from (pre @ lit_code t @ lits @ c # post) cap Outer_loop (length pre) out
    = decompress_from (pre @ lit_code t @ lits @ c # post) cap (Match (unat c))
        (Suc (length pre + length (lit_code t) + t)) (out @ lits)"
proof -
  let ?inp = "pre @ lit_code t @ lits @ c # post"
  have "rd ?inp (length pre + length (lit_code t) + t) = Ok (unat c)"
    using rd_append [of "pre @ lit_code t @ lits" "c # post" 0] assms(3) by (simp add: add.assoc)
  then have "d_first ?inp cap (length pre + length (lit_code t) + t) (out @ lits)
      = Ok (Goto (Match (unat c)) (Suc (length pre + length (lit_code t) + t)) (out @ lits))"
    using assms(5) by (simp add: d_first_def Let_def)
  then show ?thesis
    using d_outer_lit_code [OF assms(1-4), of pre c post]
    by (simp add: dec_goto [of ?inp cap Outer_loop] dec_goto [of ?inp cap First_literal_run] d_step_def)
qed

lemma patch_0 [simp]: "patch out 0 = out"
  by (simp add: patch_def)

lemma length_patch [simp]: "length (patch out k) = length out"
  by (simp add: patch_def)

lemma patch_byte:
  assumes "patchable out" "k < 4"
  shows "unat (patch out k ! (length out - 2)) mod 4 = k"
proof -
  have l: "length out - 2 < length out" using assms(1) by (auto simp: patchable_def)
  have "unat (patch out k ! (length out - 2)) = unat (out ! (length out - 2)) + k"
    using assms patched_byte [of "out ! (length out - 2)" k] l by (simp add: patch_def patchable_def)
  then show ?thesis using assms by (simp add: patchable_def mod_add_left_eq [symmetric])
qed

lemma decode_done:
  assumes "patchable out" "k < 4"
  shows "decompress_from (patch out k @ ys) cap Match_done (length out) dst
    = decompress_from (patch out k @ ys) cap (if k = 0 then Outer_loop else Match_next k) (length out) dst"
proof -
  have l: "length out - 2 < length out" using assms(1) by (auto simp: patchable_def)
  have "rd (patch out k @ ys) (length out - 2) = Ok (unat (patch out k ! (length out - 2)))"
    using l by (simp add: rd_def nth_append)
  then have "d_done (patch out k @ ys) (length out) dst
      = Ok (Goto (if k = 0 then Outer_loop else Match_next k) (length out) dst)"
    using patch_byte [OF assms] by (simp add: d_done_def Let_def)
  then show ?thesis by (intro dec_goto) (simp add: d_step_def)
qed

text \<open>The code for \<open>t\<close> literals after a match: a patch of the match, or a run.\<close>

definition with_literals :: "byte list \<Rightarrow> byte list \<Rightarrow> byte list" where
  "with_literals out lits = (if length lits \<le> 3 then patch out (length lits) @ lits
    else out @ lit_code (length lits) @ lits)"

lemma decode_literals:
  assumes "patchable out" "length lits + 1 < 2 ^ 32" "length dst + length lits \<le> cap" "16 \<le> unat c"
    "post \<noteq> []"
  shows "decompress_from (with_literals out lits @ c # post) cap Match_done (length out) dst
    = decompress_from (with_literals out lits @ c # post) cap (Match (unat c))
        (Suc (length (with_literals out lits))) (dst @ lits)"
proof (cases "length lits \<le> 3")
  case True
  let ?t = "length lits"
  have w: "with_literals out lits = patch out ?t @ lits" using True by (simp add: with_literals_def)
  let ?inp = "patch out ?t @ lits @ c # post"
  have rdc: "rd ?inp (length out + ?t) = Ok (unat c)"
    using rd_append [of "patch out ?t @ lits" "c # post" 0] by simp
  show ?thesis
  proof (cases "lits = []")
    case True
    then have "d_outer ?inp cap (length out) dst = Ok (Goto (Match (unat c)) (Suc (length out)) dst)"
      using rdc assms(4) by (simp add: d_outer_def Let_def)
    then have "decompress_from ?inp cap Outer_loop (length out) dst
        = decompress_from ?inp cap (Match (unat c)) (Suc (length out)) dst"
      by (intro dec_goto) (simp add: d_step_def)
    then show ?thesis
      using decode_done [OF assms(1), of 0 "lits @ c # post" cap dst] True by (simp add: with_literals_def)
  next
    case False
    have "d_next ?inp cap ?t (length out) dst = Ok (Goto (Match (unat c)) (Suc (length out + ?t)) (dst @ lits))"
      using assms(3,5) rdc copy_in_bytes_take [of "length out" ?t ?inp dst cap]
      by (cases post) (simp_all add: d_next_def HAVE_OP_def HAVE_IP_def)
    then have "decompress_from ?inp cap (Match_next ?t) (length out) dst
        = decompress_from ?inp cap (Match (unat c)) (Suc (length out + ?t)) (dst @ lits)"
      by (intro dec_goto) (simp add: d_step_def)
    then show ?thesis
      using decode_done [OF assms(1), of ?t "lits @ c # post" cap dst] True False by (simp add: w)
  qed
next
  case False
  have w: "with_literals out lits = out @ lit_code (length lits) @ lits"
    using False by (simp add: with_literals_def)
  show ?thesis
    using decode_done [OF assms(1), of 0 "lit_code (length lits) @ lits @ c # post" cap dst]
      decode_lit_run [of "length lits" lits dst cap c out post] assms False
    by (simp add: w add.assoc)
qed

lemma decode_eof: "decompress_from (pre @ [17, 0, 0]) cap (Match 17) (Suc (length pre)) dst = Ok (LZO_E_OK, dst)"
proof -
  have "rd_le16 (pre @ [17, 0, 0]) (Suc (length pre)) = Ok 0"
    using rd_le16_at [of "pre @ [17]" 0 0 "[]"] by simp
  then have "d_match (pre @ [17, 0, 0]) cap 17 (Suc (length pre)) dst = Ok (Return LZO_E_OK dst)"
    by (simp add: d_match_def Let_def match_len_def)
  then show ?thesis by (simp add: decompress_from.simps [of "pre @ [17, 0, 0]"] d_step_def)
qed

lemma lit_code_first: "4 \<le> t \<Longrightarrow> \<exists>b ys. lit_code t = b # ys \<and> unat b \<le> 17"
  using unat_byte [of "t - 3"] by (auto simp: lit_code_def)

lemma start_lit_run:
  assumes "4 \<le> t" "t + 1 < 2 ^ 32" "length lits = t" "t \<le> cap" "16 \<le> unat c"
  shows "lzo1x_decompress_safe (lit_code t @ lits @ c # post) cap
    = decompress_from (lit_code t @ lits @ c # post) cap (Match (unat c)) (Suc (length (lit_code t) + t)) lits"
proof -
  obtain b ys where b: "lit_code t = b # ys" "unat b \<le> 17" using lit_code_first [OF assms(1)] by blast
  then have "d_start (lit_code t @ lits @ c # post) cap = Ok (Goto Outer_loop 0 [])"
    by (simp add: d_start_def)
  then show ?thesis
    using decode_lit_run [of t lits "[]" cap c "[]" post] assms by (simp add: lzo1x_decompress_safe_def)
qed

subsection \<open>Copying a match reconstructs the source\<close>

lemma lz_copy_source:
  assumes "\<And>j. j < n \<Longrightarrow> src ! (m + j) = src ! (ip + j)" "m < ip" "ip + n \<le> length src"
  shows "lz_copy n m (take ip src) = take (ip + n) src"
  using assms
proof (induction n arbitrary: m ip)
  case (Suc n)
  have "src ! m = src ! ip" using Suc.prems(1) [of 0] by simp
  then have "take ip src @ [take ip src ! m] = take (Suc ip) src"
    using Suc.prems(2,3) by (simp add: take_Suc_conv_app_nth)
  moreover have "lz_copy n (Suc m) (take (Suc ip) src) = take (Suc ip + n) src"
    using Suc.prems(2,3) Suc.prems(1) [of "Suc _"] by (intro Suc.IH) auto
  ultimately show ?case by simp
qed simp

subsection \<open>The invariant of the compressor's loop\<close>

definition decodes :: "byte list \<Rightarrow> nat \<Rightarrow> nat \<Rightarrow> byte list \<Rightarrow> bool" where
  "decodes src cap ii out \<longleftrightarrow>
    (out = [] \<and> ii = 0) \<or>
    (patchable out \<and> (\<forall>k<4. \<forall>rest.
      lzo1x_decompress_safe (patch out k @ rest) cap
        = decompress_from (patch out k @ rest) cap Match_done (length out) (take ii src)))"

lemma with_literals_prefix:
  "\<exists>k<4. \<exists>rest. with_literals out lits = patch out k @ rest"
  by (auto simp: with_literals_def intro: exI [of _ "length lits"])
    (metis patch_0 zero_less_numeral)

text \<open>After any literals and the first byte of a match code or of the end marker.\<close>

lemma decodes_literals:
  assumes inv: "decodes src cap ii out" and cap: "length src \<le> cap" "length src + 1 < 2 ^ 32"
    and ip: "ii \<le> ip" "ip \<le> length src" and c: "16 \<le> unat c" "post \<noteq> []"
    and first: "out = [] \<longrightarrow> 4 \<le> ip"
  defines "out1 \<equiv> with_literals out (take (ip - ii) (drop ii src))"
  shows "lzo1x_decompress_safe (out1 @ c # post) cap
    = decompress_from (out1 @ c # post) cap (Match (unat c)) (Suc (length out1)) (take ip src)"
proof -
  let ?lits = "take (ip - ii) (drop ii src)"
  have len: "length ?lits = ip - ii" using ip by simp
  have app: "take ii src @ ?lits = take ip src"
    using ip(1) take_add [of ii "ip - ii" src] by simp
  show ?thesis
  proof (cases "out = []")
    case True
    then have ii: "ii = 0" using inv by (auto simp: decodes_def patchable_def)
    have "out1 = lit_code ip @ take ip src"
      using first True ip by (simp add: out1_def with_literals_def ii)
    then show ?thesis
      using start_lit_run [of ip "take ip src" cap c post] True first ip cap c by (simp add: min_absorb2)
  next
    case False
    then have p: "patchable out" and d: "\<And>k rest. k < 4 \<Longrightarrow>
        lzo1x_decompress_safe (patch out k @ rest) cap
          = decompress_from (patch out k @ rest) cap Match_done (length out) (take ii src)"
      using inv by (auto simp: decodes_def)
    obtain k rest where k: "k < 4" "out1 = patch out k @ rest"
      using with_literals_prefix unfolding out1_def by blast
    have "lzo1x_decompress_safe (out1 @ c # post) cap
        = decompress_from (out1 @ c # post) cap Match_done (length out) (take ii src)"
      using d [OF k(1), of "rest @ c # post"] by (simp add: k(2))
    also have "\<dots> = decompress_from (out1 @ c # post) cap (Match (unat c)) (Suc (length out1)) (take ii src @ ?lits)"
      unfolding out1_def using p cap ip c len by (intro decode_literals) auto
    finally show ?thesis by (simp only: app)
  qed
qed

lemma patch_append:
  assumes "2 \<le> length code"
  shows "patch (out @ code) k = out @ patch code k"
proof -
  have "length (out @ code) - 2 = length out + (length code - 2)" using assms by simp
  then show ?thesis unfolding patch_def by (simp only:) (simp add: nth_append list_update_append)
qed

lemma decodes_match:
  assumes inv: "decodes src cap ii out" and cap: "length src \<le> cap" "length src + 1 < 2 ^ 32"
    and ip: "ii \<le> ip" "ip + l \<le> length src" and first: "out = [] \<longrightarrow> 4 \<le> ip"
    and code: "steers code (ip - m) l" "patchable code"
    and m: "m < ip" "\<And>j. j < l \<Longrightarrow> src ! (m + j) = src ! (ip + j)"
  shows "decodes src cap (ip + l) (with_literals out (take (ip - ii) (drop ii src)) @ code)"
proof -
  define out1 where "out1 = with_literals out (take (ip - ii) (drop ii src))"
  have l2: "2 \<le> length code" using code(2) by (simp add: patchable_def)
  have "lzo1x_decompress_safe (out1 @ patch code k @ rest) cap
      = decompress_from (out1 @ patch code k @ rest) cap Match_done (length out1 + length code) (take (ip + l) src)"
    if k: "k < 4" for k rest
  proof -
    obtain c ys where c: "patch code k = c # ys" "ys \<noteq> []"
      using l2 length_patch [of code k] by (cases "patch code k"; cases "tl (patch code k)") auto
    have st: "16 \<le> unat c"
      "d_match (out1 @ patch code k @ rest) cap (unat c) (Suc (length out1)) (take ip src)
        = Ok (Goto Match_done (length out1 + length code) (lz_copy l (length (take ip src) - (ip - m)) (take ip src)))"
      using code(1) [unfolded steers_def, rule_format, of k "take ip src" cap out1 rest] k ip cap m(1)
      by (auto simp: c(1) min_absorb2)
    have "lzo1x_decompress_safe (out1 @ patch code k @ rest) cap
        = decompress_from (out1 @ patch code k @ rest) cap (Match (unat c)) (Suc (length out1)) (take ip src)"
      using decodes_literals [OF inv cap ip(1) _ st(1), of "ys @ rest"] ip first c
      by (simp add: out1_def)
    also have "\<dots> = decompress_from (out1 @ patch code k @ rest) cap Match_done (length out1 + length code)
        (lz_copy l (length (take ip src) - (ip - m)) (take ip src))"
      using st(2) by (intro dec_goto) (simp add: d_step_def)
    also have "lz_copy l (length (take ip src) - (ip - m)) (take ip src) = take (ip + l) src"
      using lz_copy_source [OF m(2,1) ip(2)] m(1) ip(2) by (simp add: min_absorb2)
    finally show ?thesis .
  qed
  then show ?thesis
    using patchable_append [OF code(2), of out1]
    by (simp add: decodes_def patch_append [OF l2] flip: out1_def)
qed

subsection \<open>What the compressor finds is a match\<close>

definition matches :: "byte list \<Rightarrow> nat \<Rightarrow> nat \<Rightarrow> nat \<Rightarrow> bool" where
  "matches src m ip n \<longleftrightarrow> m < ip \<and> (\<forall>j<n. src ! (m + j) = src ! (ip + j))"

lemma matches_add:
  "matches src m ip (a + b) \<longleftrightarrow> matches src m ip a \<and> (m < ip \<longrightarrow> matches src (m + a) (ip + a) b)"
proof -
  have "(\<forall>j<a + b. P j) \<longleftrightarrow> (\<forall>j<a. P j) \<and> (\<forall>j<b. P (a + j))" for P :: "nat \<Rightarrow> bool"
    by (metis add_less_cancel_left le_add_diff_inverse not_le trans_less_add1)
  then show ?thesis by (auto simp: matches_def add.assoc)
qed

lemma unat_inject: "unat x = unat y \<longleftrightarrow> x = y" for x y :: byte
  by (simp add: word_unat_eq_iff)

lemma rd_nth: "i < length inp \<Longrightarrow> rd inp i = Ok (unat (inp ! i))"
  by (simp add: rd_def)

text \<open>Where the input may lie: above the first 64 KB, and not across the end of memory.\<close>

definition placed :: "byte list \<Rightarrow> u32 \<Rightarrow> bool" where
  "placed src inb \<longleftrightarrow> 0x10000 \<le> unat inb \<and> unat inb + length src < 2 ^ 32"

lemma unat_minus_32: "w \<noteq> 0 \<Longrightarrow> unat (- w) = 2 ^ 32 - unat w" for w :: u32
proof -
  assume "w \<noteq> 0"
  then have pos: "0 < unat w" by (simp add: unat_gt_0)
  have "unat w \<le> 2 ^ 32" using unat_less_32 [of w] by (rule less_imp_le)
  then have "word_of_nat (2 ^ 32 - unat w) = (word_of_nat (2 ^ 32) - w :: u32)"
    by (subst of_nat_diff) simp_all
  then have "- w = word_of_nat (2 ^ 32 - unat w)" by simp
  then show ?thesis using unat_word_of_nat_32 [of "2 ^ 32 - unat w"] pos by simp
qed

lemma wrapped_far: "\<lbrakk>m < N; 0x10000 \<le> b; b + i < m\<rbrakk> \<Longrightarrow> 0xbfff < N - (m - (b + i))" for b i m N :: nat
  by linarith

lemma offset_of_candidate:
  assumes "placed src inb" "ip \<le> length src" "\<not> m_pos < inb"
    and d: "unat (inb + word_of_nat ip - m_pos) \<le> M4_MAX_OFFSET" "inb + word_of_nat ip - m_pos \<noteq> 0"
  shows "unat (m_pos - inb) < ip \<and> unat (inb + word_of_nat ip - m_pos) = ip - unat (m_pos - inb)"
proof -
  have ipw: "unat (inb + word_of_nat ip) = unat inb + ip"
    using assms(1,2) by (simp add: placed_def unat_add_32 unat_word_of_nat_32)
  have ge: "unat inb \<le> unat m_pos" using assms(3) by (simp add: word_less_nat_alt)
  have m: "unat (m_pos - inb) = unat m_pos - unat inb" using ge by (simp add: unat_sub_32)
  show ?thesis
  proof (cases "unat m_pos \<le> unat inb + ip")
    case True
    then have u: "unat (inb + word_of_nat ip - m_pos) = unat inb + ip - unat m_pos"
      using ipw by (simp add: unat_sub_32)
    moreover have "unat (inb + word_of_nat ip - m_pos) \<noteq> 0" using d(2) unat_eq_zero by blast
    ultimately show ?thesis using ge m by linarith
  next
    case False
    have "m_pos - (inb + word_of_nat ip) \<noteq> 0" using d(2) by auto
    have "unat (inb + word_of_nat ip - m_pos) = 2 ^ 32 - (unat m_pos - (unat inb + ip))"
    proof -
      have "inb + word_of_nat ip - m_pos = - (m_pos - (inb + word_of_nat ip))" by simp
      also have "unat \<dots> = 2 ^ 32 - unat (m_pos - (inb + word_of_nat ip))"
        using \<open>m_pos - (inb + word_of_nat ip) \<noteq> 0\<close> by (rule unat_minus_32)
      finally show ?thesis using False ipw by (simp add: unat_sub_32)
    qed
    moreover have "0xbfff < 2 ^ 32 - (unat m_pos - (unat inb + ip))"
      using assms(1) False unat_less_32 [of m_pos] by (intro wrapped_far) (simp_all only: placed_def not_le)
    ultimately have "M4_MAX_OFFSET < unat (inb + word_of_nat ip - m_pos)" by (simp only: M4_MAX_OFFSET_def)
    then show ?thesis using d(1) by simp
  qed
qed

lemma candidate_cases:
  assumes "placed src inb" "ip + 4 \<le> length src"
  obtains (none) c where "candidate src inb ip m_pos = Ok c" "c = To_literal \<or> c = Fall_through"
  | (found) m where "candidate src inb ip m_pos = Ok (To_try_match m (ip - m))" "m < ip"
      "ip - m \<le> M4_MAX_OFFSET" "M2_MAX_OFFSET < ip - m \<longrightarrow> src ! (m + 3) = src ! (ip + 3)"
proof (cases "m_pos < inb \<or> inb + word_of_nat ip - m_pos = 0
    \<or> M4_MAX_OFFSET < unat (inb + word_of_nat ip - m_pos)")
  case True
  then have "candidate src inb ip m_pos = Ok To_literal" by (auto simp: candidate_def Let_def)
  then show ?thesis by (rule none) simp
next
  case False
  define m where "m = unat (m_pos - inb)"
  have m: "m < ip" "unat (inb + word_of_nat ip - m_pos) = ip - m"
    using offset_of_candidate [OF assms(1), of ip m_pos] assms(2) False unfolding m_def by auto
  have c: "candidate src inb ip m_pos = (if ip - m \<le> M2_MAX_OFFSET \<or> src ! (m + 3) = src ! (ip + 3)
      then Ok (To_try_match m (ip - m)) else Ok Fall_through)"
    using False m assms(2) by (simp add: candidate_def Let_def m_def [symmetric] rd_nth unat_inject)
  show ?thesis
  proof (cases "ip - m \<le> M2_MAX_OFFSET \<or> src ! (m + 3) = src ! (ip + 3)")
    case True
    then show ?thesis using found [of m] c m False by auto
  next
    case no: False
    then show ?thesis using none [of Fall_through] c by simp
  qed
qed

lemma le16_inj: "unat x + 256 * unat y = unat x' + 256 * unat y' \<longleftrightarrow> x = x' \<and> y = y'" for x y x' y' :: byte
proof
  assume eq: "unat x + 256 * unat y = unat x' + 256 * unat y'"
  have "(unat a + 256 * unat b) mod 256 = unat a" "(unat a + 256 * unat b) div 256 = unat b" for a b :: byte
    using unat_less_8 [of a] by simp_all
  from this [of x y] this [of x' y'] have "unat x = unat x'" "unat y = unat y'" unfolding eq by simp_all
  then show "x = x' \<and> y = y'" by (simp add: word_unat_eq_iff)
qed simp

lemma try_match_Ok:
  assumes "m < ip" "ip + 3 \<le> length src"
  shows "try_match src ip m = Ok (matches src m ip 3)"
proof -
  have j: "(\<forall>j<3. P j) \<longleftrightarrow> P 0 \<and> P 1 \<and> P 2" for P :: "nat \<Rightarrow> bool"
    by (auto simp: numeral_3_eq_3 less_Suc_eq numeral_2_eq_2)
  show ?thesis
    using assms by (auto simp: try_match_def rd_le16_def rd_nth le16_inj unat_inject matches_def j)
qed

lemma find_match_cases:
  assumes "placed src inb" "ip + 4 \<le> length src"
  obtains (none) i where "find_match src inb dict ip = Ok (i, None)"
  | (found) i m where "find_match src inb dict ip = Ok (i, Some (m, ip - m))" "matches src m ip 3"
      "ip - m \<le> M4_MAX_OFFSET" "M2_MAX_OFFSET < ip - m \<longrightarrow> src ! (m + 3) = src ! (ip + 3)"
proof -
  obtain i where i: "hash1 src ip = Ok i" using assms(2) by (simp add: hash1_def rd_nth)
  note tm = try_match_Ok [of _ ip src]
  show ?thesis
  proof (rule candidate_cases [OF assms, of "dict i"])
    fix c
    assume c: "candidate src inb ip (dict i) = Ok c" "c = To_literal \<or> c = Fall_through"
    show ?thesis
    proof (cases "c = To_literal")
      case True
      then show ?thesis using none [of i] c i by (simp add: find_match_def)
    next
      case False
      then have ft: "c = Fall_through" using c by simp
      show ?thesis
      proof (rule candidate_cases [OF assms, of "dict (hash2 i)"])
        fix c'
        assume "candidate src inb ip (dict (hash2 i)) = Ok c'" "c' = To_literal \<or> c' = Fall_through"
        then show ?thesis using none [of "hash2 i"] c ft i by (auto simp: find_match_def)
      next
        fix m
        assume "candidate src inb ip (dict (hash2 i)) = Ok (To_try_match m (ip - m))" "m < ip"
          "ip - m \<le> M4_MAX_OFFSET" "M2_MAX_OFFSET < ip - m \<longrightarrow> src ! (m + 3) = src ! (ip + 3)"
        then show ?thesis
          using found [of "hash2 i" m] none [of "hash2 i"] c ft i tm [of m] assms(2)
          by (cases "matches src m ip 3") (simp_all add: find_match_def)
      qed
    qed
  next
    fix m
    assume "candidate src inb ip (dict i) = Ok (To_try_match m (ip - m))" "m < ip"
      "ip - m \<le> M4_MAX_OFFSET" "M2_MAX_OFFSET < ip - m \<longrightarrow> src ! (m + 3) = src ! (ip + 3)"
    then show ?thesis
      using found [of i m] none [of i] i tm [of m] assms(2)
      by (cases "matches src m ip 3") (simp_all add: find_match_def)
  qed
qed

lemma agree_Ok:
  "\<lbrakk>m < ip; ip + n \<le> length src\<rbrakk>
    \<Longrightarrow> \<exists>k\<le>n. agree src n m ip = Ok k \<and> matches src m ip k \<and> (0 < n \<and> src ! m = src ! ip \<longrightarrow> 0 < k)"
proof (induction n arbitrary: m ip)
  case (Suc n)
  show ?case
  proof (cases "src ! m = src ! ip")
    case True
    obtain k where k: "k \<le> n" "agree src n (Suc m) (Suc ip) = Ok k" "matches src (Suc m) (Suc ip) k"
      using Suc.IH [of "Suc m" "Suc ip"] Suc.prems by auto
    moreover have "matches src m ip (1 + k)"
      using k(3) True Suc.prems by (subst matches_add) (simp add: matches_def)
    ultimately show ?thesis
      using Suc.prems True by (intro exI [of _ "Suc k"]) (simp add: rd_nth)
  next
    case False
    then show ?thesis using Suc.prems by (intro exI [of _ 0]) (simp add: rd_nth matches_def unat_inject)
  qed
qed (simp add: matches_def)

lemma extend_Ok:
  "\<lbrakk>m < ip; ip \<le> length src\<rbrakk>
    \<Longrightarrow> \<exists>e. extend src m ip = Ok e \<and> ip \<le> e \<and> e \<le> length src \<and> matches src m ip (e - ip)"
proof (induction src m ip rule: extend.induct)
  case (1 src m ip)
  show ?case
  proof (cases "ip < length src \<and> src ! m = src ! ip")
    case True
    then obtain e where e: "extend src (Suc m) (Suc ip) = Ok e" "Suc ip \<le> e" "e \<le> length src"
        "matches src (Suc m) (Suc ip) (e - Suc ip)"
      using 1(1) [of "unat (src ! m)" "unat (src ! ip)"] 1(2) by (auto simp: rd_nth)
    have "matches src m ip (1 + (e - Suc ip))"
      using e(4) True 1(2) by (subst matches_add) (simp add: matches_def)
    then show ?thesis
      using e True 1(2) by (intro exI [of _ e]) (subst extend.simps, simp add: rd_nth Suc_diff_Suc)
  next
    case False
    then show ?thesis
      using 1(2,3) by (intro exI [of _ ip]) (subst extend.simps, auto simp: rd_nth matches_def unat_inject)
  qed
qed

subsection \<open>The compressor's loop\<close>

lemma emit_literals_Ok:
  assumes "length out < 2 \<longrightarrow> 3 < t" "t \<le> length src - ii"
  shows "emit_literals src ii t out = Ok (with_literals out (take t (drop ii src)))"
proof -
  have "length (take t (drop ii src)) = t" using assms(2) by simp
  then show ?thesis using assms(1) by (auto simp add: emit_literals_def with_literals_def simp del: length_take length_drop)
qed

lemma decodes_length: "decodes src cap ii out \<Longrightarrow> length out < 2 \<Longrightarrow> out = [] \<and> ii = 0"
  by (auto simp: decodes_def patchable_def)

lemma with_no_literals: "with_literals out [] = out"
  by (simp add: with_literals_def)

text \<open>The size of what is emitted, against the number of input bytes it stands for.\<close>

lemma length_emit_run: "length (emit_run t) \<le> 1 + t div 255"
proof (induction t rule: emit_run.induct)
  case (1 t)
  show ?case
  proof (cases "255 < t")
    case True
    have "t div 255 = 1 + (t - 255) div 255" using True le_div_geq [of 255 t] by simp
    then show ?thesis using 1 True by (subst emit_run.simps) simp
  next
    case False
    then show ?thesis by (subst emit_run.simps) simp
  qed
qed

lemma length_with_literals:
  "16 * length (with_literals out lits) \<le> 16 * length out + 17 * length lits + 16"
  using length_emit_run [of "length lits - 18"]
  by (auto simp: with_literals_def lit_code_def)

lemma length_emit_short:
  "\<lbrakk>3 \<le> l; M2_MAX_OFFSET < m_off \<longrightarrow> 4 \<le> l\<rbrakk> \<Longrightarrow> length (emit_short m_off l) + 1 \<le> l"
  by (auto simp: emit_short_def emit_offset_def Let_def)

lemma length_emit_long: "9 \<le> l \<Longrightarrow> length (emit_long m_off l) + 1 \<le> l"
  using length_emit_run [of "l - 33"] length_emit_run [of "l - M4_MAX_LEN"]
  by (auto simp: emit_long_def emit_offset_def Let_def M4_MAX_LEN_def)

definition c_inv :: "byte list \<Rightarrow> nat \<Rightarrow> nat \<Rightarrow> nat \<Rightarrow> byte list \<Rightarrow> bool" where
  "c_inv src cap ip ii out \<longleftrightarrow>
    decodes src cap ii out \<and> ii \<le> ip \<and> ip \<le> length src \<and> 4 \<le> ip \<and> 16 * length out \<le> 17 * ii"

lemma c_turn_match:
  assumes inv: "c_inv src cap ip ii out" and cap: "length src \<le> cap" "length src + 1 < 2 ^ 32"
    and m: "matches src m ip l" "ip + l \<le> length src"
    and code: "steers code (ip - m) l" "patchable code" "length code + 1 \<le> l"
  defines "out1 \<equiv> (if ip \<noteq> ii then emit_literals src ii (ip - ii) out else Ok out)"
  shows "\<exists>o1. out1 = Ok o1 \<and> c_inv src cap (ip + l) (ip + l) (o1 @ code)"
proof -
  let ?o1 = "with_literals out (take (ip - ii) (drop ii src))"
  have i: "decodes src cap ii out" "ii \<le> ip" "ip \<le> length src" "4 \<le> ip" "16 * length out \<le> 17 * ii"
    using inv by (simp_all add: c_inv_def)
  have first: "out = [] \<longrightarrow> 4 \<le> ip" using i(4) by simp
  have "out1 = Ok ?o1"
  proof (cases "ip = ii")
    case True
    then show ?thesis by (simp add: out1_def with_no_literals)
  next
    case False
    have "length out < 2 \<longrightarrow> 3 < ip - ii" using decodes_length [OF i(1)] i(4) by auto
    then show ?thesis using False i(3) by (simp add: out1_def emit_literals_Ok)
  qed
  moreover have "decodes src cap (ip + l) (?o1 @ code)"
    using m by (intro decodes_match [OF i(1) cap i(2) m(2) first code(1,2)]) (auto simp: matches_def)
  moreover have "16 * length (?o1 @ code) \<le> 17 * (ip + l)"
    using length_with_literals [of out "take (ip - ii) (drop ii src)"] i code(3) by simp
  ultimately show ?thesis using i(4) m(2) by (simp add: c_inv_def)
qed

lemma c_turn_inv:
  assumes inv: "c_inv src cap ip ii out" and ip: "ip + 9 \<le> length src"
    and src: "placed src inb" "length src \<le> cap"
  shows "\<exists>ip' ii' out' dict'. c_turn src inb ip ii out dict = Ok (ip', ii', out', dict') \<and> c_inv src cap ip' ii' out'"
proof -
  have len: "length src + 1 < 2 ^ 32" using src(1) by (simp add: placed_def)
  have ip4: "ip + 4 \<le> length src" using ip by simp
  show ?thesis
  proof (rule find_match_cases [OF src(1) ip4, of dict])
    fix i
    assume "find_match src inb dict ip = Ok (i, None)"
    then show ?thesis using inv ip by (simp add: c_turn_def c_inv_def)
  next
    fix i m
    assume f: "find_match src inb dict ip = Ok (i, Some (m, ip - m))" "matches src m ip 3"
      "ip - m \<le> M4_MAX_OFFSET" "M2_MAX_OFFSET < ip - m \<longrightarrow> src ! (m + 3) = src ! (ip + 3)"
    have lt: "m < ip" using f(2) by (simp add: matches_def)
    obtain k where k: "k \<le> 6" "agree src 6 (m + 3) (ip + 3) = Ok k" "matches src (m + 3) (ip + 3) k"
        "src ! (m + 3) = src ! (ip + 3) \<longrightarrow> 0 < k"
      using agree_Ok [of "m + 3" "ip + 3" 6 src] lt ip by auto
    have m3k: "matches src m ip (3 + k)" using f(2) k(3) by (simp add: matches_add)
    show ?thesis
    proof (cases "k < 6")
      case True
      have "steers (emit_short (ip - m) (3 + k)) (ip - m) (3 + k)"
        using True f(3) lt by (intro steers_short) simp_all
      moreover have "patchable (emit_short (ip - m) (3 + k))" using True by (intro patchable_short) simp_all
      moreover have "length (emit_short (ip - m) (3 + k)) + 1 \<le> 3 + k"
        using k(4) f(4) by (intro length_emit_short) auto
      ultimately obtain o1 where
          "(if ip \<noteq> ii then emit_literals src ii (ip - ii) out else Ok out) = Ok o1"
          "c_inv src cap (ip + (3 + k)) (ip + (3 + k)) (o1 @ emit_short (ip - m) (3 + k))"
        using c_turn_match [OF inv src(2) len m3k] ip True by auto
      then show ?thesis using f(1) k(2) True by (simp add: c_turn_def add.assoc)
    next
      case False
      then have k6: "k = 6" using k(1) by simp
      obtain e where e: "extend src (m + 9) (ip + 9) = Ok e" "ip + 9 \<le> e" "e \<le> length src"
          "matches src (m + 9) (ip + 9) (e - (ip + 9))"
        using extend_Ok [of "m + 9" "ip + 9" src] lt ip by auto
      have l: "e - ip = 9 + (e - (ip + 9))" using e(2) by simp
      have me: "matches src m ip (e - ip)"
        unfolding l using m3k e(4) k6 by (simp add: matches_add)
      have "steers (emit_long (ip - m) (e - ip)) (ip - m) (e - ip)"
        using e(2,3) f(3) lt len by (intro steers_long) simp_all
      moreover have "length (emit_long (ip - m) (e - ip)) + 1 \<le> e - ip"
        using e(2) by (intro length_emit_long) simp
      ultimately obtain o1 where
          "(if ip \<noteq> ii then emit_literals src ii (ip - ii) out else Ok out) = Ok o1"
          "c_inv src cap e e (o1 @ emit_long (ip - m) (e - ip))"
        using c_turn_match [OF inv src(2) len me _ _ patchable_long] e(2,3) by auto
      moreover have "extend src (9 + m) (ip + 9) = Ok e" using e(1) by (simp add: add.commute)
      ultimately show ?thesis using f(1) k(2) k6 by (simp add: c_turn_def M2_MAX_LEN_def)
    qed
  qed
qed

lemma compress_loop_inv:
  "\<lbrakk>c_inv src cap ip ii out; ip + 9 \<le> length src; placed src inb; length src \<le> cap\<rbrakk>
    \<Longrightarrow> \<exists>ii' out' ip'. compress_loop src inb ip ii out dict = Ok (ii', out') \<and> c_inv src cap ip' ii' out'"
proof (induction src inb ip ii out dict rule: compress_loop.induct)
  case (1 src inb ip ii out dict)
  obtain ip' ii' out' dict' where t: "c_turn src inb ip ii out dict = Ok (ip', ii', out', dict')"
      "c_inv src cap ip' ii' out'"
    using c_turn_inv [OF 1(2,3,4,5)] by blast
  show ?case
  proof (cases "length src - M2_MAX_LEN - 5 \<le> ip'")
    case True
    then show ?thesis using t by (subst compress_loop.simps) auto
  next
    case False
    then have "ip' + 9 \<le> length src" by (simp add: M2_MAX_LEN_def)
    then show ?thesis
      using 1(1) [of _ ip' "(ii', out', dict')" ii' "(out', dict')" out' dict'] t False 1(4,5)
      by (subst compress_loop.simps) simp
  qed
qed

subsection \<open>The whole code\<close>

text \<open>A code that starts with a literal run of at most 238 bytes.\<close>

lemma start_short:
  assumes "0 < length lits" "length lits \<le> 238" "length lits \<le> cap" "16 \<le> unat c" "post \<noteq> []"
  defines "code \<equiv> word_of_nat (17 + length lits) # lits @ c # post"
  shows "lzo1x_decompress_safe code cap
    = decompress_from code cap (Match (unat c)) (Suc (Suc (length lits))) lits"
proof -
  let ?t = "length lits"
  have b: "unat (word_of_nat (17 + ?t) :: byte) = 17 + ?t" using assms(2) by (intro unat_byte) simp
  have rd0: "rd code 0 = Ok (17 + ?t)" by (simp add: code_def rd_def b del: of_nat_add)
  have rdc: "rd code (Suc ?t) = Ok (unat c)"
    using rd_append [of "word_of_nat (17 + ?t) # lits" "c # post" 0] by (simp add: code_def)
  have ip: "\<not> HAVE_IP (?t + 1) code 1" "Suc (Suc ?t) < length code"
    using assms(5) by (cases post; simp add: HAVE_IP_def code_def)+
  have cp: "copy_in_bytes code cap ?t 1 [] = Ok (Suc ?t, lits)"
    using assms(3) copy_in_bytes_take [of 1 ?t code "[]" cap] by (simp add: code_def)
  have op: "\<not> HAVE_OP ?t cap []" using assms(3) by (simp add: HAVE_OP_def)
  show ?thesis
  proof (cases "?t < 4")
    case True
    have "d_start code cap = Ok (Goto (Match_next ?t) 1 [])"
      using rd0 True assms(1) by (simp add: d_start_def)
    moreover have "d_next code cap ?t 1 [] = Ok (Goto (Match (unat c)) (Suc (Suc ?t)) lits)"
      using ip op cp rdc by (simp add: d_next_def)
    then have "decompress_from code cap (Match_next ?t) 1 []
        = decompress_from code cap (Match (unat c)) (Suc (Suc ?t)) lits"
      by (intro dec_goto) (simp add: d_step_def)
    ultimately show ?thesis by (simp add: lzo1x_decompress_safe_def)
  next
    case False
    have "d_start code cap = Ok (Goto First_literal_run (Suc ?t) lits)"
      using rd0 False ip op cp assms(1) by (simp add: d_start_def)
    moreover have "d_first code cap (Suc ?t) lits = Ok (Goto (Match (unat c)) (Suc (Suc ?t)) lits)"
      using rdc assms(4) by (simp add: d_first_def)
    then have "decompress_from code cap First_literal_run (Suc ?t) lits
        = decompress_from code cap (Match (unat c)) (Suc (Suc ?t)) lits"
      by (intro dec_goto) (simp add: d_step_def)
    ultimately show ?thesis by (simp add: lzo1x_decompress_safe_def)
  qed
qed

lemma decompress_empty: "lzo1x_decompress_safe [17, 0, 0] cap = Ok (LZO_E_OK, [])"
proof -
  have "d_start [17, 0, 0] cap = Ok (Goto Outer_loop 0 [])" by (simp add: d_start_def rd_def)
  moreover have "d_outer [17, 0, 0] cap 0 [] = Ok (Goto (Match 17) 1 [])" by (simp add: d_outer_def rd_def)
  then have "decompress_from [17, 0, 0] cap Outer_loop 0 [] = decompress_from [17, 0, 0] cap (Match 17) 1 []"
    by (intro dec_goto) (simp add: d_step_def)
  ultimately show ?thesis using decode_eof [of "[]" cap "[]"] by (simp add: lzo1x_decompress_safe_def)
qed

text \<open>What the second half of \<^verbatim>\<open>lzo1x_1_compress\<close> emits after the loop.\<close>

definition last_literals :: "byte list \<Rightarrow> nat \<Rightarrow> byte list \<Rightarrow> byte list" where
  "last_literals src ii out =
    (if ii < length src \<and> out = [] \<and> length src - ii \<le> 238
     then word_of_nat (17 + (length src - ii)) # drop ii src
     else with_literals out (drop ii src))"

lemma decode_last:
  assumes "decodes src cap ii out" "ii \<le> length src" "length src \<le> cap" "length src + 1 < 2 ^ 32"
  shows "lzo1x_decompress_safe (last_literals src ii out @ [17, 0, 0]) cap = Ok (LZO_E_OK, src)"
proof (cases "out = [] \<and> length src \<le> 238")
  case True
  then have ii: "ii = 0" using assms(1) by (auto simp: decodes_def patchable_def)
  show ?thesis
  proof (cases "src = []")
    case True
    then show ?thesis
      using decompress_empty \<open>out = [] \<and> _\<close> ii by (simp add: last_literals_def with_no_literals)
  next
    case False
    have "lzo1x_decompress_safe (word_of_nat (17 + length src) # src @ [17, 0, 0]) cap
        = decompress_from (word_of_nat (17 + length src) # src @ [17, 0, 0]) cap (Match 17) (Suc (Suc (length src))) src"
      using start_short [of src cap 17 "[0, 0]"] False True assms(3) by simp
    then show ?thesis
      using decode_eof [of "word_of_nat (17 + length src) # src" cap src] False True ii
      by (simp add: last_literals_def del: of_nat_add)
  qed
next
  case False
  then have l: "last_literals src ii out = with_literals out (drop ii src)"
    using assms(1) by (auto simp: last_literals_def decodes_def patchable_def)
  have first: "out = [] \<longrightarrow> 4 \<le> length src" using False by auto
  show ?thesis
    using decodes_literals [OF assms(1,3,4,2) order_refl, of 17 "[0, 0]"] first
      decode_eof [of "with_literals out (drop ii src)" cap src] by (simp add: l)
qed

lemma compress_form:
  assumes "placed src inb" "length src \<le> cap"
  shows "\<exists>ii out. lzo1x_1_compress src inb dict = Ok (last_literals src ii out @ [17, 0, 0])
    \<and> decodes src cap ii out \<and> ii \<le> length src \<and> 16 * length out \<le> 17 * ii"
proof -
  have final: "(if 0 < length src - ii then
        (let ii' = length src - (length src - ii)
         in if out = [] \<and> length src - ii \<le> 238 then Ok (word_of_nat (17 + (length src - ii)) # take (length src - ii) (drop ii' src))
            else emit_literals src ii' (length src - ii) out)
      else Ok out) = Ok (last_literals src ii out)"
    if d: "decodes src cap ii out" and le: "ii \<le> length src" for ii out
  proof -
    have t: "take (length src - ii) (drop ii src) = drop ii src" by simp
    have "emit_literals src ii (length src - ii) out = Ok (with_literals out (drop ii src))"
      if "\<not> (out = [] \<and> length src - ii \<le> 238)"
      using emit_literals_Ok [of out "length src - ii" src ii] decodes_length [OF d] that by (auto simp: t)
    then show ?thesis
      using le by (auto simp: last_literals_def with_no_literals Let_def simp del: of_nat_add)
  qed
  show ?thesis
  proof (cases "length src \<le> M2_MAX_LEN + 5")
    case True
    have d: "decodes src cap 0 []" by (simp add: decodes_def)
    show ?thesis
      using True d
      by (intro exI [of _ 0] exI [of _ "[]"])
        (simp add: lzo1x_1_compress_def M4_MARKER_def M2_MAX_LEN_def last_literals_def with_no_literals)
  next
    case False
    have "c_inv src cap 4 0 []" using False by (simp add: c_inv_def decodes_def M2_MAX_LEN_def)
    then obtain ii out ip where l: "compress_loop src inb 4 0 [] dict = Ok (ii, out)" "c_inv src cap ip ii out"
      using compress_loop_inv [of src cap 4 0 "[]" inb dict] assms False by (auto simp: M2_MAX_LEN_def)
    then have i: "decodes src cap ii out" "ii \<le> length src" "16 * length out \<le> 17 * ii"
      by (simp_all add: c_inv_def)
    show ?thesis
      using final [OF i(1,2)] False i l(1)
      by (intro exI [of _ ii] exI [of _ out]) (simp add: lzo1x_1_compress_def lzo1x_1_do_compress_def M4_MARKER_def)
  qed
qed

subsection \<open>Properties\<close>

text \<open>The worst case the callers allow for (\<^verbatim>\<open>lzo1x_worst_compress\<close>).\<close>

lemma length_last_literals:
  assumes "16 * length out \<le> 17 * ii" "ii \<le> length src"
  shows "length (last_literals src ii out @ [17, 0, 0]) \<le> length src + length src div 16 + 64 + 3"
proof -
  have "16 * length (last_literals src ii out) \<le> 17 * length src + 32"
    using assms length_with_literals [of out "drop ii src"] unfolding last_literals_def
    by (simp split: if_split) linarith
  then have "length (last_literals src ii out) \<le> (length src + 16 * (length src + 2)) div 16"
    by (simp add: less_eq_div_iff_mult_less_eq)
  also have "\<dots> = length src div 16 + (length src + 2)" by (subst div_mult_self2) simp_all
  finally show ?thesis by simp
qed

text \<open>
  C1.  Round trip: for every input that fits below the top of the address space and above its
  first 64 KB, and whatever the work memory contained, \<^verbatim>\<open>lzo1x_1_compress\<close> returns a
  code, without reading outside the input, and \<^verbatim>\<open>lzo1x_decompress_safe\<close> turns the code
  into exactly the input, with status \<^verbatim>\<open>LZO_E_OK\<close>, in any buffer that is large enough.
\<close>

theorem lzo_roundtrip:
  assumes "placed src inb" "length src \<le> cap"
  shows "\<exists>code. lzo1x_1_compress src inb dict = Ok code
    \<and> lzo1x_decompress_safe code cap = Ok (LZO_E_OK, src)"
proof -
  have len: "length src + 1 < 2 ^ 32" using assms(1) by (simp add: placed_def)
  obtain ii out where c: "lzo1x_1_compress src inb dict = Ok (last_literals src ii out @ [17, 0, 0])"
      and d: "decodes src cap ii out" "ii \<le> length src"
    using compress_form [OF assms, of dict] by (elim exE conjE) (rule that)
  show ?thesis by (intro exI conjI, rule c, rule decode_last [OF d assms(2) len])
qed

theorem lzo_roundtrip_witness:
  "\<exists>code. lzo1x_1_compress [1, 2, 3, 1, 2, 3, 1, 2, 3, 1, 2, 3, 1, 2, 3, 1, 2, 3, 1, 2, 3] 0x08000000 (\<lambda>_. 0xdeadbeef) = Ok code
    \<and> lzo1x_decompress_safe code 32 = Ok (LZO_E_OK, [1, 2, 3, 1, 2, 3, 1, 2, 3, 1, 2, 3, 1, 2, 3, 1, 2, 3, 1, 2, 3])"
  by (rule lzo_roundtrip) (simp_all add: placed_def)

text \<open>
  C15.  Bound on the size of the code: it is at most the input plus a sixteenth of it plus 67
  bytes, the worst case that callers of the compressor reserve.
\<close>

theorem lzo_worst_compress:
  assumes "placed src inb"
  shows "\<exists>code. lzo1x_1_compress src inb dict = Ok code
    \<and> length code \<le> length src + length src div 16 + 64 + 3"
proof -
  obtain ii out where "lzo1x_1_compress src inb dict = Ok (last_literals src ii out @ [17, 0, 0])"
      "16 * length out \<le> 17 * ii" "ii \<le> length src"
    using compress_form [OF assms order_refl, of dict] by (elim exE conjE) (rule that)
  with length_last_literals [of out ii src] show ?thesis by (intro exI conjI)
qed

theorem lzo_worst_compress_witness:
  "\<exists>code. lzo1x_1_compress (replicate 100 7) 0x08000000 (\<lambda>_. 0) = Ok code \<and> length code \<le> 173"
  using lzo_worst_compress [of "replicate 100 7" "0x08000000" "\<lambda>_. 0"] by (simp add: placed_def)

end
