(* ===== verification/Kernel_Io.thy ===== *)
theory Kernel_Io
  imports Prelude
begin

text \<open>
  The file system calls the loader makes to write its logs and checkpoints.  The kernel is a
  parameter: a record of the three calls over a state of files and open descriptors.  What the
  code relies on is \<open>io_spec\<close>: a successful \<^verbatim>\<open>open\<close> returns an unused descriptor of the
  named file, emptied or at its end; a \<^verbatim>\<open>write\<close> that reports the whole length has
  appended the data; a successful \<^verbatim>\<open>close\<close> forgets the descriptor.
\<close>

record io_state =
  disk :: "string \<Rightarrow> byte list option"
  fds :: "int \<Rightarrow> string option"

datatype open_mode = Truncate | Append

record io_calls =
  sys_open :: "string \<Rightarrow> open_mode \<Rightarrow> io_state \<Rightarrow> int \<times> io_state"
  sys_write :: "int \<Rightarrow> byte list \<Rightarrow> io_state \<Rightarrow> int \<times> io_state"
  sys_close :: "int \<Rightarrow> io_state \<Rightarrow> int \<times> io_state"

definition content :: "string \<Rightarrow> io_state \<Rightarrow> byte list" where
  "content fn io = (case disk io fn of None \<Rightarrow> [] | Some bs \<Rightarrow> bs)"

definition opened :: "string \<Rightarrow> open_mode \<Rightarrow> int \<Rightarrow> io_state \<Rightarrow> io_state" where
  "opened fn m fd io =
    io\<lparr>disk := (disk io)(fn \<mapsto> (case m of Truncate \<Rightarrow> [] | Append \<Rightarrow> content fn io)), fds := (fds io)(fd \<mapsto> fn)\<rparr>"

definition written :: "string \<Rightarrow> byte list \<Rightarrow> io_state \<Rightarrow> io_state" where
  "written fn bs io = io\<lparr>disk := (disk io)(fn \<mapsto> content fn io @ bs)\<rparr>"

definition open_spec :: "io_calls \<Rightarrow> bool" where
  "open_spec k \<longleftrightarrow> (\<forall>fn m io. case sys_open k fn m io of (fd, io') \<Rightarrow>
    if fd < 0 then io' = io else fds io fd = None \<and> io' = opened fn m fd io)"

definition write_spec :: "io_calls \<Rightarrow> bool" where
  "write_spec k \<longleftrightarrow> (\<forall>fd fn bs io. fds io fd = Some fn \<longrightarrow>
    (case sys_write k fd bs io of (n, io') \<Rightarrow> n = int (length bs) \<longrightarrow> io' = written fn bs io))"

definition close_spec :: "io_calls \<Rightarrow> bool" where
  "close_spec k \<longleftrightarrow> (\<forall>fd io. case sys_close k fd io of (r, io') \<Rightarrow>
    r = 0 \<longrightarrow> io' = io\<lparr>fds := (fds io)(fd := None)\<rparr>)"

definition io_spec :: "io_calls \<Rightarrow> bool" where
  "io_spec k \<longleftrightarrow> open_spec k \<and> write_spec k \<and> close_spec k"

text \<open>
  A kernel with room on its disk: no call on an open descriptor fails or comes back short, and
  \<^verbatim>\<open>open\<close> succeeds while a descriptor below the limit of the process is free.
\<close>

definition OPEN_MAX :: int where "OPEN_MAX = 1023"

definition fd_free :: "io_state \<Rightarrow> bool" where
  "fd_free io \<longleftrightarrow> (\<exists>fd\<in>{3..OPEN_MAX}. fds io fd = None)"

definition io_reliable :: "io_calls \<Rightarrow> bool" where
  "io_reliable k \<longleftrightarrow> io_spec k \<and> (\<forall>fn m io. fd_free io \<longrightarrow> 0 \<le> fst (sys_open k fn m io))
    \<and> (\<forall>fd fn bs io. fds io fd = Some fn \<longrightarrow> fst (sys_write k fd bs io) = int (length bs))
    \<and> (\<forall>fd fn io. fds io fd = Some fn \<longrightarrow> fst (sys_close k fd io) = 0)"

lemma open_Ok:
  assumes "io_spec k" "sys_open k fn m io = (fd, io')" "0 \<le> fd"
  shows "fds io fd = None" "io' = opened fn m fd io"
proof -
  have "open_spec k" using assms(1) by (simp add: io_spec_def)
  show "fds io fd = None" "io' = opened fn m fd io"
    using spec [OF spec [OF spec [OF \<open>open_spec k\<close> [unfolded open_spec_def], of fn], of m], of io]
      assms(2,3) by simp_all
qed

lemma write_Ok:
  assumes "io_spec k" "sys_write k fd bs io = (n, io')" "fds io fd = Some fn" "n = int (length bs)"
  shows "io' = written fn bs io"
proof -
  have "write_spec k" using assms(1) by (simp add: io_spec_def)
  from this [unfolded write_spec_def, rule_format, OF assms(3), of bs] show ?thesis
    using assms(2,4) by simp
qed

lemma close_Ok:
  assumes "io_spec k" "sys_close k fd io = (0, io')"
  shows "io' = io\<lparr>fds := (fds io)(fd := None)\<rparr>"
proof -
  have "close_spec k" using assms(1) by (simp add: io_spec_def)
  from spec [OF spec [OF this [unfolded close_spec_def], of fd], of io] show ?thesis using assms(2) by simp
qed

lemma reliable_calls:
  assumes "io_reliable k"
  shows "io_spec k" "fd_free io \<Longrightarrow> 0 \<le> fst (sys_open k fn m io)"
    "fds io fd = Some fn \<Longrightarrow> fst (sys_write k fd bs io) = int (length bs)"
    "fds io fd = Some fn \<Longrightarrow> fst (sys_close k fd io) = 0"
  using assms unfolding io_reliable_def by blast+

lemma content_written [simp]: "content fn (written fn' bs io) = (if fn = fn' then content fn io @ bs else content fn io)"
  by (simp add: written_def content_def)

lemma fds_written [simp]: "fds (written fn bs io) = fds io"
  by (simp add: written_def)

lemma content_opened [simp]:
  "content fn (opened fn' m fd io) = (if fn = fn' \<and> m = Truncate then [] else content fn io)"
  by (auto simp: opened_def content_def split: open_mode.splits)

lemma fds_opened [simp]: "fds (opened fn m fd io) = (fds io)(fd \<mapsto> fn)"
  by (simp add: opened_def)

lemma content_fds [simp]: "content fn (io\<lparr>fds := f\<rparr>) = content fn io"
  by (simp add: content_def)

lemma written_twice: "written fn bs' (written fn bs io) = written fn (bs @ bs') io"
  by (simp add: written_def content_def)

lemma written_nil: "disk io fn = Some f \<Longrightarrow> written fn [] io = io"
  by (simp add: written_def content_def map_upd_triv)

subsection \<open>A kernel that satisfies the assumptions\<close>

text \<open>Descriptors are handed out from 3 on; there is always room.\<close>

definition next_fd :: "io_state \<Rightarrow> int" where
  "next_fd io = (case List.find (\<lambda>fd. fds io fd = None) [3..OPEN_MAX] of None \<Rightarrow> - 24 | Some fd \<Rightarrow> fd)"

definition demo_io :: io_calls where
  "demo_io = \<lparr>
    sys_open = \<lambda>fn m io. let fd = next_fd io in (fd, if fd < 0 then io else opened fn m fd io),
    sys_write = \<lambda>fd bs io. (case fds io fd of None \<Rightarrow> (- 9, io) | Some fn \<Rightarrow> (int (length bs), written fn bs io)),
    sys_close = \<lambda>fd io. (case fds io fd of None \<Rightarrow> (- 9, io) | Some fn \<Rightarrow> (0, io\<lparr>fds := (fds io)(fd := None)\<rparr>))\<rparr>"

definition no_files :: io_state where
  "no_files = \<lparr>disk = (\<lambda>_. None), fds = (\<lambda>_. None)\<rparr>"

lemma next_fd_free: "0 \<le> next_fd io \<Longrightarrow> fds io (next_fd io) = None"
proof (cases "List.find (\<lambda>fd. fds io fd = None) [3..OPEN_MAX]")
  case (Some fd)
  then have "fds io fd = None" by (auto simp: find_Some_iff)
  with Some show ?thesis by (simp add: next_fd_def)
qed (simp add: next_fd_def)

lemma next_fd_found: "fd_free io \<Longrightarrow> 0 \<le> next_fd io"
proof -
  assume "fd_free io"
  then have "List.find (\<lambda>fd. fds io fd = None) [3..OPEN_MAX] \<noteq> None"
    unfolding fd_free_def find_None_iff by auto
  then obtain fd where fd: "List.find (\<lambda>fd. fds io fd = None) [3..OPEN_MAX] = Some fd" by blast
  then have "fd \<in> {3..OPEN_MAX}" by (auto simp: find_Some_iff)
  then show ?thesis using fd by (simp add: next_fd_def)
qed

lemma demo_io_spec: "io_spec demo_io"
proof -
  have "open_spec demo_io"
    using next_fd_free by (simp add: open_spec_def demo_io_def Let_def)
  moreover have "write_spec demo_io" by (simp add: write_spec_def demo_io_def)
  moreover have "close_spec demo_io" by (simp add: close_spec_def demo_io_def split: option.splits)
  ultimately show ?thesis by (simp add: io_spec_def)
qed

lemma demo_io_reliable: "io_reliable demo_io"
proof -
  have "0 \<le> fst (sys_open demo_io fn m io)" if "fd_free io" for fn m io
    using next_fd_found [OF that] by (simp add: demo_io_def Let_def)
  then show ?thesis using demo_io_spec by (simp add: io_reliable_def) (simp add: demo_io_def)
qed

end
