(* ===== verification/Compression.thy ===== *)
theory Compression
  imports Lzo_Roundtrip Kernel_Io
begin

text \<open>
  Writing compressed blocks (\<^verbatim>\<open>src/core/loader/compression.c\<close> and
  \<^verbatim>\<open>compression.h\<close>): a file starts with a fixed header, then every block is a header
  with the original and the compressed size followed by the LZO code.  The repository has no
  program that reads such a file back; \<open>read_blocks\<close> is the specification of the format, and
  the properties say that what the writer produces reads back as the bytes it was given.

  The interface between the block writer and the compressor is the locale \<open>block_codec\<close>, which
  is interpreted on the LZO functions.
\<close>

subsection \<open>The format\<close>

definition BIGBUFFER_SZ :: nat where "BIGBUFFER_SZ = 2048 * 1024"

definition MAX_COMP_SZ :: nat where "MAX_COMP_SZ = BIGBUFFER_SZ"

definition lzo1x_worst_compress :: "nat \<Rightarrow> nat" where
  "lzo1x_worst_compress x = x + x div 16 + 64 + 3"

definition COMP_FILE_HEADER :: "byte list" where
  "COMP_FILE_HEADER = map of_char ''SNITCHASER-LZO000'' @ [0]"

datatype comp_block_type = COMP_NOCOMP | COMP_LZO_COMP

primrec comp_type_code :: "comp_block_type \<Rightarrow> u32" where
  "comp_type_code COMP_NOCOMP = 1"
| "comp_type_code COMP_LZO_COMP = 2"

record comp_block_head =
  block_type :: comp_block_type
  ori_sz :: u32
  comp_sz :: u32

definition le32 :: "u32 \<Rightarrow> byte list" where
  "le32 w = map (\<lambda>i. ucast (drop_bit (8 * i) w)) [0, 1, 2, 3]"

definition head_bytes :: "comp_block_head \<Rightarrow> byte list" where
  "head_bytes h = le32 (comp_type_code (block_type h)) @ le32 (ori_sz h) @ le32 (comp_sz h)"

subsection \<open>The writer\<close>

text \<open>
  The compression of one block: a memory error of the compressor, or a code longer than the
  destination of \<^verbatim>\<open>lzo1x_worst_compress\<close> bytes, would be a crash.
\<close>

definition lzo_block :: "dict \<times> u32 \<Rightarrow> byte list \<Rightarrow> byte list run" where
  "lzo_block p src = (case lzo1x_1_compress src (snd p) (fst p) of
      Inl _ \<Rightarrow> Stop Segv
    | Inr code \<Rightarrow> if length code \<le> lzo1x_worst_compress (length src) then Ok code else Stop Segv)"

type_synonym wrkmem = "io_state \<Rightarrow> dict" \<comment> \<open>what the stack held where the work memory is\<close>

definition flush_small_buffer ::
  "io_calls \<Rightarrow> wrkmem \<Rightarrow> int \<Rightarrow> u32 \<Rightarrow> byte list \<Rightarrow> io_state \<Rightarrow> io_state run" where
  "flush_small_buffer k wrkmem fd buffer bs io =
    bindR (assert_that (length bs \<le> MAX_COMP_SZ)) (\<lambda>_.
      if length bs = 0 then Ok io
      else
        bindR (lzo_block (wrkmem io, buffer) bs) (\<lambda>code.
          let head = head_bytes \<lparr>block_type = COMP_LZO_COMP, ori_sz = word_of_nat (length bs),
                comp_sz = word_of_nat (length code)\<rparr>;
              (err, io) = sys_write k fd head io
          in bindR (assert_that (err = int (length head))) (\<lambda>_.
               let (err, io) = sys_write k fd code io
               in bindR (assert_that (err = int (length code))) (\<lambda>_. Ok io))))"

function flush_comp_loop ::
  "io_calls \<Rightarrow> wrkmem \<Rightarrow> int \<Rightarrow> u32 \<Rightarrow> byte list \<Rightarrow> io_state \<Rightarrow> io_state run" where
  "flush_comp_loop k wrkmem fd buffer bs io =
    (if 0 < length bs then
       let flushsz = (if MAX_COMP_SZ < length bs then MAX_COMP_SZ else length bs)
       in bindR (flush_small_buffer k wrkmem fd buffer (take flushsz bs) io) (\<lambda>io.
            flush_comp_loop k wrkmem fd (buffer + word_of_nat flushsz) (drop flushsz bs) io)
     else Ok io)"
  by pat_completeness auto

termination
  by (relation "measure (\<lambda>(k, w, fd, buffer, bs, io). length bs)") (auto simp: MAX_COMP_SZ_def BIGBUFFER_SZ_def)

declare flush_comp_loop.simps [simp del]

definition flush_comp_buffer ::
  "io_calls \<Rightarrow> wrkmem \<Rightarrow> int \<Rightarrow> u32 \<Rightarrow> byte list \<Rightarrow> io_state \<Rightarrow> io_state run" where
  "flush_comp_buffer k wrkmem fd buffer bs io =
    bindR (assert_that (buffer \<noteq> 0)) (\<lambda>_.
    bindR (assert_that (0 \<le> fd)) (\<lambda>_. flush_comp_loop k wrkmem fd buffer bs io))"

definition decompress :: "byte list \<Rightarrow> nat \<Rightarrow> byte list run" where
  "decompress src dst_len = (case lzo1x_decompress_safe src dst_len of
      Inl _ \<Rightarrow> Stop Segv
    | Inr (err, out) \<Rightarrow> bindR (assert_that (err = LZO_E_OK)) (\<lambda>_. Ok out))"

definition write_comp_file_head :: "io_calls \<Rightarrow> int \<Rightarrow> io_state \<Rightarrow> io_state run" where
  "write_comp_file_head k fd io =
    bindR (assert_that (0 \<le> fd)) (\<lambda>_.
      let (err, io) = sys_write k fd COMP_FILE_HEADER io
      in bindR (assert_that (err = int (length COMP_FILE_HEADER))) (\<lambda>_. Ok io))"

subsection \<open>Reading a file back\<close>

definition of_le32 :: "byte list \<Rightarrow> u32" where
  "of_le32 bs = ucast (bs ! 0) OR push_bit 8 (ucast (bs ! 1)) OR push_bit 16 (ucast (bs ! 2))
     OR push_bit 24 (ucast (bs ! 3))"

lemma length_le32 [simp]: "length (le32 w) = 4"
  by (simp add: le32_def)

lemma length_head_bytes [simp]: "length (head_bytes h) = 12"
  by (simp add: head_bytes_def)

lemma of_le32_le32 [simp]: "of_le32 (le32 w @ bs) = w"
proof (rule bit_eqI)
  fix n
  assume "possible_bit TYPE(u32) n"
  then have "n < 32" by simp
  then show "bit (of_le32 (le32 w @ bs)) n = bit w n"
    by (cases "n < 8"; cases "n < 16"; cases "n < 24")
      (auto simp: of_le32_def le32_def bit_or_iff bit_push_bit_iff bit_ucast_iff bit_drop_bit_eq)
qed

function read_blocks :: "(byte list \<Rightarrow> nat \<Rightarrow> byte list run) \<Rightarrow> byte list \<Rightarrow> byte list option" where
  "read_blocks expand f =
    (if f = [] then Some []
     else if length f < 12 \<or> of_le32 f \<noteq> comp_type_code COMP_LZO_COMP then None
     else
       let ori = unat (of_le32 (drop 4 f)); comp = unat (of_le32 (drop 8 f))
       in if length f < 12 + comp then None
          else (case expand (take comp (drop 12 f)) ori of
              Inl _ \<Rightarrow> None
            | Inr bs \<Rightarrow>
                if length bs \<noteq> ori then None
                else map_option (\<lambda>r. bs @ r) (read_blocks expand (drop (12 + comp) f))))"
  by pat_completeness auto

termination
  by (relation "measure (\<lambda>(e, f). length f)") auto

declare read_blocks.simps [simp del]

definition comp_block :: "byte list \<Rightarrow> byte list \<Rightarrow> byte list" where
  "comp_block src code = head_bytes \<lparr>block_type = COMP_LZO_COMP, ori_sz = word_of_nat (length src),
     comp_sz = word_of_nat (length code)\<rparr> @ code"

lemma read_blocks_Nil [simp]: "read_blocks expand [] = Some []"
  by (simp add: read_blocks.simps)

lemma read_comp_block:
  assumes "length src < 2 ^ 32" "length code < 2 ^ 32" "expand code (length src) = Ok src"
  shows "read_blocks expand (comp_block src code @ f) = map_option (\<lambda>r. src @ r) (read_blocks expand f)"
proof -
  let ?f = "comp_block src code @ f"
  have h: "of_le32 ?f = 2" "of_le32 (drop 4 ?f) = word_of_nat (length src)"
    "of_le32 (drop 8 ?f) = word_of_nat (length code)" "drop 12 ?f = code @ f"
    by (simp_all add: comp_block_def head_bytes_def)
  have n: "unat (word_of_nat (length src) :: u32) = length src" "unat (word_of_nat (length code) :: u32) = length code"
    using assms(1,2) by (simp_all add: unat_word_of_nat_32)
  have len: "length ?f = 12 + length code + length f" by (simp add: comp_block_def)
  have d: "drop (12 + length code) ?f = f" by (simp add: comp_block_def)
  show ?thesis
    by (subst read_blocks.simps) (use h n len d assms(3) in \<open>auto simp: Let_def simp del: drop_append append_assoc\<close>)
qed

lemma read_blocks_append:
  "read_blocks expand f = Some d
    \<Longrightarrow> read_blocks expand (f @ g) = map_option (\<lambda>r. d @ r) (read_blocks expand g)"
proof (induction expand f arbitrary: d rule: read_blocks.induct)
  case (1 expand f)
  show ?case
  proof (cases "f = []")
    case True
    then show ?thesis using 1(2) by (simp add: option.map_ident)
  next
    case False
    let ?ori = "unat (of_le32 (drop 4 f))" and ?comp = "unat (of_le32 (drop 8 f))"
    have f: "\<not> length f < 12" "of_le32 f = comp_type_code COMP_LZO_COMP" "\<not> length f < 12 + ?comp"
      using 1(2) False by (subst (asm) read_blocks.simps, auto simp: Let_def split: if_splits)+
    obtain bs r where bs: "expand (take ?comp (drop 12 f)) ?ori = Ok bs" "length bs = ?ori"
        "read_blocks expand (drop (12 + ?comp) f) = Some r" "d = bs @ r"
      using 1(2) False f
      by (subst (asm) read_blocks.simps) (auto simp: Let_def split: if_splits sum.splits)
    have le: "of_le32 (f @ g) = of_le32 f" "of_le32 (drop 4 f @ g) = of_le32 (drop 4 f)"
      "of_le32 (drop 8 f @ g) = of_le32 (drop 8 f)"
      using f(1) False by (simp_all add: of_le32_def nth_append)
    have "read_blocks expand (drop (12 + ?comp) f @ g) = map_option (\<lambda>x. r @ x) (read_blocks expand g)"
      using 1(1) [OF False _ refl refl f(3) bs(1) _ bs(3)] f(1,2) bs(2) by simp
    then have "map_option (\<lambda>x. bs @ x) (read_blocks expand (drop (12 + ?comp) f @ g))
        = map_option (\<lambda>x. d @ x) (read_blocks expand g)"
      by (simp add: bs(4) option.map_comp comp_def)
    then show ?thesis
      using f False le bs(1,2) by (subst read_blocks.simps) (simp add: Let_def)
  qed
qed

subsection \<open>The interface to the compressor\<close>

locale block_codec =
  fixes comp :: "'p \<Rightarrow> byte list \<Rightarrow> byte list run"
    and expand :: "byte list \<Rightarrow> nat \<Rightarrow> byte list run"
    and fits :: "'p \<Rightarrow> byte list \<Rightarrow> bool"
  assumes comp_expand: "fits p src
    \<Longrightarrow> \<exists>code. comp p src = Ok code \<and> length src < 2 ^ 32 \<and> length code < 2 ^ 32 \<and> expand code (length src) = Ok src"
begin

lemma append_block:
  assumes "fits p src" "read_blocks expand f = Some d"
  shows "\<exists>code. comp p src = Ok code \<and> read_blocks expand (f @ comp_block src code) = Some (d @ src)"
proof -
  obtain code where c: "comp p src = Ok code" "length src < 2 ^ 32" "length code < 2 ^ 32"
      "expand code (length src) = Ok src"
    using comp_expand [OF assms(1)] by (elim exE conjE) (rule that)
  have "read_blocks expand (comp_block src code @ []) = Some src"
    using read_comp_block [of src code expand "[]", OF c(2-4)] by (simp only: read_blocks_Nil) simp
  then show ?thesis using c(1) read_blocks_append [OF assms(2), of "comp_block src code"] by simp
qed

end

lemma lzo_block_Ok:
  assumes "placed src inb" "length src \<le> MAX_COMP_SZ"
  shows "\<exists>code. lzo_block (dict, inb) src = Ok code \<and> length code \<le> lzo1x_worst_compress (length src)
    \<and> decompress code (length src) = Ok src"
proof -
  have len: "length src + 1 < 2 ^ 32" using assms(1) by (simp add: placed_def)
  obtain ii out where c: "lzo1x_1_compress src inb dict = Ok (last_literals src ii out @ [17, 0, 0])"
      and d: "decodes src (length src) ii out" "ii \<le> length src" "16 * length out \<le> 17 * ii"
    using compress_form [OF assms(1) order_refl, of dict] by (elim exE conjE) (rule that)
  have "length (last_literals src ii out @ [17, 0, 0]) \<le> lzo1x_worst_compress (length src)"
    unfolding lzo1x_worst_compress_def by (rule length_last_literals [OF d(3,2)])
  moreover have "decompress (last_literals src ii out @ [17, 0, 0]) (length src) = Ok src"
    using decode_last [OF d(1,2) order_refl len] by (simp add: decompress_def assert_that_def)
  ultimately show ?thesis using c by (intro exI conjI) (simp_all add: lzo_block_def)
qed

interpretation lzo: block_codec lzo_block decompress "\<lambda>p src. placed src (snd p) \<and> length src \<le> MAX_COMP_SZ"
proof (unfold_locales, elim conjE)
  fix p :: "dict \<times> u32" and src
  assume s: "placed src (snd p)" "length src \<le> MAX_COMP_SZ"
  then obtain code where c: "lzo_block p src = Ok code" "length code \<le> lzo1x_worst_compress (length src)"
      "decompress code (length src) = Ok src"
    using lzo_block_Ok [of src "snd p" "fst p"] by auto
  moreover have "lzo1x_worst_compress (length src) < 2 ^ 32"
    using s(2) by (simp add: lzo1x_worst_compress_def MAX_COMP_SZ_def BIGBUFFER_SZ_def)
  moreover have "length src < 2 ^ 32" using s(2) by (simp add: MAX_COMP_SZ_def BIGBUFFER_SZ_def)
  ultimately show "\<exists>code. lzo_block p src = Ok code \<and> length src < 2 ^ 32 \<and> length code < 2 ^ 32
      \<and> decompress code (length src) = Ok src"
    by (intro exI [of _ code]) simp
qed

subsection \<open>The stream in a file\<close>

text \<open>The data a file holds, after a header \<open>h\<close>.\<close>

definition stream :: "byte list \<Rightarrow> byte list \<Rightarrow> byte list option" where
  "stream h f = (if take (length h) f = h then read_blocks decompress (drop (length h) f) else None)"

lemma stream_header [simp]: "stream h h = Some []"
  by (simp add: stream_def)

lemma stream_append:
  assumes "stream h f = Some d" "read_blocks decompress (drop (length h) f @ b) = Some d'"
  shows "stream h (f @ b) = Some d'"
proof -
  have h: "take (length h) f = h" using assms(1) by (simp add: stream_def split: if_splits)
  then have "length h \<le> length f" by (metis length_take min.cobounded1)
  then show ?thesis using h assms(2) by (simp add: stream_def)
qed

text \<open>
  The outcome of writing \<open>bs\<close> to the file \<open>fn\<close> in blocks: the file's stream grows by
  \<open>bs\<close> and nothing else changes, or an assertion fails because the kernel did not write
  everything.
\<close>

definition streamed :: "io_calls \<Rightarrow> byte list \<Rightarrow> string \<Rightarrow> byte list \<Rightarrow> io_state \<Rightarrow> io_state run \<Rightarrow> bool" where
  "streamed k h fn bs io r \<longleftrightarrow> (case r of
      Inl e \<Rightarrow> e = Assertion \<and> \<not> io_reliable k
    | Inr io' \<Rightarrow> (\<exists>d. stream h (content fn io) = Some d \<and> stream h (content fn io') = Some (d @ bs))
        \<and> fds io' = fds io \<and> (\<forall>fn'. fn' \<noteq> fn \<longrightarrow> content fn' io' = content fn' io))"

lemma streamed_nil: "stream h (content fn io) \<noteq> None \<Longrightarrow> streamed k h fn [] io (Ok io)"
  by (auto simp: streamed_def)

lemma streamed_bind:
  assumes "streamed k h fn bs io r" "\<And>io'. r = Ok io' \<Longrightarrow> streamed k h fn bs' io' (g io')"
  shows "streamed k h fn (bs @ bs') io (bindR r g)"
proof (cases r)
  case (Inl e)
  then show ?thesis using assms(1) by (simp add: streamed_def bindR_def)
next
  case (Inr io')
  then show ?thesis
    using assms(1) assms(2) [OF Inr] by (auto simp: streamed_def split: sum.splits)
qed

lemma flush_small_streamed:
  assumes k: "io_spec k" and fd: "fds io fd = Some fn"
    and bs: "placed bs buffer" "length bs \<le> MAX_COMP_SZ" and d: "stream h (content fn io) = Some d"
  shows "streamed k h fn bs io (flush_small_buffer k wrkmem fd buffer bs io)"
proof (cases "bs = []")
  case True
  then show ?thesis using d streamed_nil [of h fn io k] by (simp add: flush_small_buffer_def assert_that_def)
next
  case False
  have r: "read_blocks decompress (drop (length h) (content fn io)) = Some d"
    using d by (simp add: stream_def split: if_splits)
  obtain code where c: "lzo_block (wrkmem io, buffer) bs = Ok code"
      and rb: "read_blocks decompress (drop (length h) (content fn io) @ comp_block bs code) = Some (d @ bs)"
    using lzo.append_block [of bs "(wrkmem io, buffer)", OF _ r] bs by auto
  note st = stream_append [OF d rb]
  let ?head = "head_bytes \<lparr>block_type = COMP_LZO_COMP, ori_sz = word_of_nat (length bs), comp_sz = word_of_nat (length code)\<rparr>"
  obtain e1 io1 where w1: "sys_write k fd ?head io = (e1, io1)" by (cases "sys_write k fd ?head io")
  obtain e2 io2 where w2: "sys_write k fd code io1 = (e2, io2)" by (cases "sys_write k fd code io1")
  have run: "flush_small_buffer k wrkmem fd buffer bs io
      = (if e1 = 12 \<and> e2 = int (length code) then Ok io2 else Stop Assertion)"
    using False bs(2) c w1 w2 by (simp add: flush_small_buffer_def assert_that_def Let_def)
  show ?thesis
  proof (cases "e1 = 12 \<and> e2 = int (length code)")
    case True
    then have io1: "io1 = written fn ?head io" using write_Ok [OF k w1 fd] by simp
    have "io2 = written fn code io1" using write_Ok [OF k w2 _, of fn] True fd io1 by simp
    then have "io2 = written fn (comp_block bs code) io" by (simp add: io1 written_twice comp_block_def)
    then show ?thesis using run True d st by (simp add: streamed_def)
  next
    case no: False
    have "\<not> io_reliable k"
    proof
      assume rel: "io_reliable k"
      have e1: "e1 = 12" using reliable_calls(3) [OF rel fd, of ?head] w1 by simp
      then have "io1 = written fn ?head io" using write_Ok [OF k w1 fd] by simp
      then have "e2 = int (length code)" using reliable_calls(3) [OF rel, of io1 fd fn code] w2 fd by simp
      with e1 no show False by simp
    qed
    then show ?thesis using run no by (auto simp: streamed_def)
  qed
qed

lemma placed_split:
  assumes "placed bs buffer" "n \<le> length bs"
  shows "placed (take n bs) buffer" "placed (drop n bs) (buffer + word_of_nat n)"
proof -
  have "unat (buffer + word_of_nat n) = unat buffer + n"
    using assms by (subst unat_add_32) (simp_all add: placed_def unat_word_of_nat_32)
  then show "placed (take n bs) buffer" "placed (drop n bs) (buffer + word_of_nat n)"
    using assms by (simp_all add: placed_def)
qed

lemma flush_comp_streamed:
  "\<lbrakk>io_spec k; fds io fd = Some fn; placed bs buffer; stream h (content fn io) \<noteq> None\<rbrakk>
    \<Longrightarrow> streamed k h fn bs io (flush_comp_loop k wrkmem fd buffer bs io)"
proof (induction k wrkmem fd buffer bs io rule: flush_comp_loop.induct)
  case (1 k wrkmem fd buffer bs io)
  show ?case
  proof (cases "bs = []")
    case True
    then show ?thesis using 1(5) by (subst flush_comp_loop.simps) (simp add: streamed_nil)
  next
    case False
    define n where "n = (if MAX_COMP_SZ < length bs then MAX_COMP_SZ else length bs)"
    have n: "n \<le> length bs" "n \<le> MAX_COMP_SZ" by (simp_all add: n_def)
    obtain d where d: "stream h (content fn io) = Some d" using 1(5) by blast
    have s: "streamed k h fn (take n bs) io (flush_small_buffer k wrkmem fd buffer (take n bs) io)"
      using n by (intro flush_small_streamed [OF 1(2,3) placed_split(1) [OF 1(4)] _ d]) simp_all
    have "streamed k h fn (take n bs @ drop n bs) io
        (bindR (flush_small_buffer k wrkmem fd buffer (take n bs) io)
          (\<lambda>io. flush_comp_loop k wrkmem fd (buffer + word_of_nat n) (drop n bs) io))"
    proof (rule streamed_bind [OF s])
      fix io'
      assume io': "flush_small_buffer k wrkmem fd buffer (take n bs) io = Ok io'"
      show "streamed k h fn (drop n bs) io' (flush_comp_loop k wrkmem fd (buffer + word_of_nat n) (drop n bs) io')"
        using s io' 1(3) False
        by (intro 1(1) [OF _ n_def, of io'] 1(2) placed_split(2) [OF 1(4) n(1)]) (auto simp: streamed_def)
    qed
    then show ?thesis using False by (subst flush_comp_loop.simps) (simp add: Let_def flip: n_def)
  qed
qed

lemma flush_comp_buffer_streamed:
  assumes "io_spec k" "fds io fd = Some fn" "placed bs buffer" "stream h (content fn io) \<noteq> None" "0 \<le> fd"
  shows "streamed k h fn bs io (flush_comp_buffer k wrkmem fd buffer bs io)"
proof -
  have "buffer \<noteq> 0" using assms(3) by (auto simp: placed_def)
  then show ?thesis
    using flush_comp_streamed [OF assms(1-4)] assms(5) by (simp add: flush_comp_buffer_def assert_that_def)
qed

end
