(* ===== verification/Big_Buffer.thy ===== *)
theory Big_Buffer
  imports Compression
begin

text \<open>
  The 2 MB buffer of every thread (\<^verbatim>\<open>src/core/loader/bigbuffer.c\<close> and
  \<^verbatim>\<open>bigbuffer.h\<close>).  It collects bytes and is flushed as compressed blocks when it is
  full.  The buffer is a list of \<open>BIGBUFFER_SZ\<close> bytes at the address \<open>buffer_addr\<close>; a
  copy or a read outside it is the fault \<open>Segv\<close>.
\<close>

record bigbuffer =
  buffer :: "byte list"
  buffer_addr :: u32
  bb_ptr :: nat

definition reset_bigbuffer_ptr :: "bigbuffer \<Rightarrow> bigbuffer" where
  "reset_bigbuffer_ptr bb = bb\<lparr>bb_ptr := 0\<rparr>"

definition set_bigbuffer_ptr :: "bigbuffer \<Rightarrow> nat \<Rightarrow> bigbuffer" where
  "set_bigbuffer_ptr bb offset = bb\<lparr>bb_ptr := offset\<rparr>"

definition init_bigbuffer :: "bigbuffer \<Rightarrow> bigbuffer" where
  "init_bigbuffer bb = reset_bigbuffer_ptr bb"

definition memcpy_into :: "byte list \<Rightarrow> nat \<Rightarrow> byte list \<Rightarrow> byte list run" where
  "memcpy_into buf p bs =
    (if p + length bs \<le> length buf then Ok (take p buf @ bs @ drop (p + length bs) buf) else Stop Segv)"

definition flush_bigbuffer ::
  "io_calls \<Rightarrow> wrkmem \<Rightarrow> int \<Rightarrow> bigbuffer \<Rightarrow> io_state \<Rightarrow> (bigbuffer \<times> io_state) run" where
  "flush_bigbuffer k wrkmem fd bb io =
    bindR (assert_that (0 \<le> fd)) (\<lambda>_.
    bindR (if bb_ptr bb \<noteq> 0 then
             (if bb_ptr bb \<le> length (buffer bb)
              then flush_comp_buffer k wrkmem fd (buffer_addr bb) (take (bb_ptr bb) (buffer bb)) io
              else Stop Segv)
           else Ok io) (\<lambda>io.
      Ok (reset_bigbuffer_ptr bb, io)))"

lemma flush_bigbuffer_resets: "flush_bigbuffer k w fd bb io = Ok (bb', io') \<Longrightarrow> bb' = reset_bigbuffer_ptr bb"
  by (auto simp: flush_bigbuffer_def elim!: bindR_OkE)

text \<open>The \<^verbatim>\<open>do ... while (sz > 0)\<close> loop of \<^verbatim>\<open>append_bigbuffer\<close>.\<close>

function append_loop ::
  "io_calls \<Rightarrow> wrkmem \<Rightarrow> int \<Rightarrow> bigbuffer \<Rightarrow> byte list \<Rightarrow> io_state \<Rightarrow> (bigbuffer \<times> io_state) run" where
  "append_loop k wrkmem fd bb bs io =
    (if BIGBUFFER_SZ < bb_ptr bb then Stop Segv
     else
       let cp_sz = min (BIGBUFFER_SZ - bb_ptr bb) (length bs)
       in bindR (if 0 < cp_sz
                 then bindR (memcpy_into (buffer bb) (bb_ptr bb) (take cp_sz bs)) (\<lambda>b.
                   Ok (bb\<lparr>buffer := b, bb_ptr := bb_ptr bb + cp_sz\<rparr>))
                 else Ok bb) (\<lambda>bb.
            if 0 < length (drop cp_sz bs) then
              bindR (assert_that (bb_ptr bb = BIGBUFFER_SZ)) (\<lambda>_.
              bindR (flush_bigbuffer k wrkmem fd bb io) (\<lambda>(bb, io).
                append_loop k wrkmem fd bb (drop cp_sz bs) io))
            else Ok (bb, io)))"
  by pat_completeness auto

termination
  by (relation "measures [\<lambda>(k, w, fd, bb, bs, io). length bs, \<lambda>(k, w, fd, bb, bs, io). bb_ptr bb]")
    (auto simp: BIGBUFFER_SZ_def reset_bigbuffer_ptr_def assert_that_def run_simps
      dest!: flush_bigbuffer_resets split: if_splits)

declare append_loop.simps [simp del]

definition append_bigbuffer ::
  "io_calls \<Rightarrow> wrkmem \<Rightarrow> int \<Rightarrow> bigbuffer \<Rightarrow> byte list \<Rightarrow> io_state \<Rightarrow> (bigbuffer \<times> io_state) run" where
  "append_bigbuffer k wrkmem fd bb bs io =
    bindR (assert_that (bb_ptr bb < BIGBUFFER_SZ)) (\<lambda>_.
    bindR (assert_that (0 \<le> fd)) (\<lambda>_.
      if length bs = 0 then Ok (bb, io) else append_loop k wrkmem fd bb bs io))"

subsection \<open>The buffer as the tail of a stream\<close>

definition bb_inv :: "bigbuffer \<Rightarrow> bool" where
  "bb_inv bb \<longleftrightarrow> length (buffer bb) = BIGBUFFER_SZ \<and> bb_ptr bb \<le> BIGBUFFER_SZ
    \<and> 0x10000 \<le> unat (buffer_addr bb) \<and> unat (buffer_addr bb) + BIGBUFFER_SZ < 2 ^ 32"

definition pending :: "bigbuffer \<Rightarrow> byte list" where
  "pending bb = take (bb_ptr bb) (buffer bb)"

lemma pending_reset [simp]: "pending (reset_bigbuffer_ptr bb) = []"
  by (simp add: pending_def reset_bigbuffer_ptr_def)

lemma bb_inv_reset [simp]: "bb_inv bb \<Longrightarrow> bb_inv (reset_bigbuffer_ptr bb)"
  by (simp add: bb_inv_def reset_bigbuffer_ptr_def)

lemma reset_fields [simp]:
  "buffer_addr (reset_bigbuffer_ptr bb) = buffer_addr bb" "bb_ptr (reset_bigbuffer_ptr bb) = 0"
  "buffer (reset_bigbuffer_ptr bb) = buffer bb"
  by (simp_all add: reset_bigbuffer_ptr_def)

lemma pending_placed: "bb_inv bb \<Longrightarrow> placed (pending bb) (buffer_addr bb)"
  by (simp add: bb_inv_def pending_def placed_def)

text \<open>
  The outcome of putting \<open>bs\<close> behind what the file and the buffer already hold: together they
  hold \<open>bs\<close> more, and no other file has changed.
\<close>

definition buffered ::
  "io_calls \<Rightarrow> byte list \<Rightarrow> string \<Rightarrow> byte list \<Rightarrow> bigbuffer \<Rightarrow> io_state \<Rightarrow> (bigbuffer \<times> io_state) run \<Rightarrow> bool" where
  "buffered k h fn bs bb io r \<longleftrightarrow> (case r of
      Inl e \<Rightarrow> e = Assertion \<and> \<not> io_reliable k
    | Inr (bb', io') \<Rightarrow> bb_inv bb' \<and> buffer_addr bb' = buffer_addr bb
        \<and> (\<exists>d d'. stream h (content fn io) = Some d \<and> stream h (content fn io') = Some d'
            \<and> d' @ pending bb' = d @ pending bb @ bs)
        \<and> fds io' = fds io \<and> (\<forall>fn'. fn' \<noteq> fn \<longrightarrow> content fn' io' = content fn' io))"

lemma flush_bigbuffer_buffered:
  assumes "io_spec k" "fds io fd = Some fn" "bb_inv bb" "stream h (content fn io) \<noteq> None" "0 \<le> fd"
  shows "buffered k h fn [] bb io (flush_bigbuffer k wrkmem fd bb io)"
proof (cases "bb_ptr bb = 0")
  case True
  then show ?thesis
    using assms
    by (auto simp: flush_bigbuffer_def buffered_def assert_that_def pending_def reset_bigbuffer_ptr_def bb_inv_def)
next
  case False
  have s: "streamed k h fn (pending bb) io (flush_comp_buffer k wrkmem fd (buffer_addr bb) (pending bb) io)"
    using assms by (intro flush_comp_buffer_streamed pending_placed) simp_all
  have f: "flush_bigbuffer k wrkmem fd bb io
      = bindR (flush_comp_buffer k wrkmem fd (buffer_addr bb) (pending bb) io) (\<lambda>io. Ok (reset_bigbuffer_ptr bb, io))"
    using False assms(3,5) by (simp add: flush_bigbuffer_def assert_that_def pending_def bb_inv_def)
  show ?thesis
    using s assms(3) unfolding f by (auto simp: streamed_def buffered_def bindR_def split: sum.splits)
qed

lemma memcpy_pending:
  assumes "bb_inv bb" "bb_ptr bb + length bs \<le> BIGBUFFER_SZ"
  shows "\<exists>b. memcpy_into (buffer bb) (bb_ptr bb) bs = Ok b
    \<and> bb_inv (bb\<lparr>buffer := b, bb_ptr := bb_ptr bb + length bs\<rparr>)
    \<and> pending (bb\<lparr>buffer := b, bb_ptr := bb_ptr bb + length bs\<rparr>) = pending bb @ bs"
  using assms by (simp add: memcpy_into_def bb_inv_def pending_def)

lemma buffered_bind:
  assumes "buffered k h fn bs bb io r"
    and "\<And>bb' io'. \<lbrakk>r = Ok (bb', io'); bb_inv bb'; stream h (content fn io') \<noteq> None; fds io' = fds io\<rbrakk>
      \<Longrightarrow> buffered k h fn bs' bb' io' (g bb' io')"
  shows "buffered k h fn (bs @ bs') bb io (bindR r (\<lambda>(bb, io). g bb io))"
proof (cases r)
  case (Inl e)
  then show ?thesis using assms(1) by (simp add: buffered_def bindR_def)
next
  case (Inr s)
  obtain bb' io' where s: "s = (bb', io')" by (cases s)
  note b = assms(1) [unfolded Inr s buffered_def, simplified]
  have "buffered k h fn bs' bb' io' (g bb' io')" using b by (intro assms(2)) (auto simp: Inr s)
  then show ?thesis
    using b unfolding Inr s by (fastforce simp: buffered_def bindR_def split: sum.splits)
qed

lemma append_loop_buffered:
  "\<lbrakk>io_spec k; fds io fd = Some fn; bb_inv bb; stream h (content fn io) \<noteq> None; 0 \<le> fd\<rbrakk>
    \<Longrightarrow> buffered k h fn bs bb io (append_loop k wrkmem fd bb bs io)"
proof (induction k wrkmem fd bb bs io rule: append_loop.induct)
  case (1 k wrkmem fd bb bs io)
  define n where "n = min (BIGBUFFER_SZ - bb_ptr bb) (length bs)"
  have le: "\<not> BIGBUFFER_SZ < bb_ptr bb" using 1(4) by (simp add: bb_inv_def)
  have n: "bb_ptr bb + length (take n bs) \<le> BIGBUFFER_SZ" "length (take n bs) = n"
    using le by (auto simp: n_def)
  obtain b where b: "memcpy_into (buffer bb) (bb_ptr bb) (take n bs) = Ok b"
    and inv1: "bb_inv (bb\<lparr>buffer := b, bb_ptr := bb_ptr bb + n\<rparr>)"
    and p1: "pending (bb\<lparr>buffer := b, bb_ptr := bb_ptr bb + n\<rparr>) = pending bb @ take n bs"
    using memcpy_pending [OF 1(4) n(1)] n(2) by auto
  define bb1 where "bb1 = (if 0 < n then bb\<lparr>buffer := b, bb_ptr := bb_ptr bb + n\<rparr> else bb)"
  have bb1: "bb_inv bb1" "pending bb1 = pending bb @ take n bs" "buffer_addr bb1 = buffer_addr bb"
    "bb_ptr bb1 = bb_ptr bb + n"
    using inv1 p1 1(4) by (auto simp: bb1_def)
  have step: "(if 0 < n
      then bindR (memcpy_into (buffer bb) (bb_ptr bb) (take n bs)) (\<lambda>b. Ok (bb\<lparr>buffer := b, bb_ptr := bb_ptr bb + n\<rparr>))
      else Ok bb) = Ok bb1"
    using b by (simp add: bb1_def)
  have unfold: "append_loop k wrkmem fd bb bs io =
      (if 0 < length (drop n bs)
       then bindR (flush_bigbuffer k wrkmem fd bb1 io) (\<lambda>(bb, io). append_loop k wrkmem fd bb (drop n bs) io)
       else Ok (bb1, io))"
  proof -
    have full: "bb_ptr bb1 = BIGBUFFER_SZ" if "0 < length (drop n bs)"
      using that bb1(4) le by (auto simp: n_def)
    show ?thesis
      using le step full by (subst append_loop.simps) (simp add: Let_def assert_that_def flip: n_def)
  qed
  show ?case
  proof (cases "0 < length (drop n bs)")
    case True
    have fl: "buffered k h fn [] bb1 io (flush_bigbuffer k wrkmem fd bb1 io)"
      using 1 bb1(1) by (intro flush_bigbuffer_buffered) simp_all
    have "buffered k h fn ([] @ drop n bs) bb1 io
        (bindR (flush_bigbuffer k wrkmem fd bb1 io) (\<lambda>(bb, io). append_loop k wrkmem fd bb (drop n bs) io))"
    proof (rule buffered_bind [OF fl])
      fix bb' io'
      assume r: "flush_bigbuffer k wrkmem fd bb1 io = Ok (bb', io')" "bb_inv bb'"
        "stream h (content fn io') \<noteq> None" "fds io' = fds io"
      have full: "bb_ptr bb1 = BIGBUFFER_SZ" using True bb1(4) le by (auto simp: n_def)
      show "buffered k h fn (drop n bs) bb' io' (append_loop k wrkmem fd bb' (drop n bs) io')"
        using r 1(2,3,6) full
        by (intro 1(1) [OF le n_def step True _ r(1) refl]) (simp_all add: assert_that_def)
    qed
    then show ?thesis
      using True bb1(2,3) unfolding unfold by (auto simp: buffered_def split: sum.splits)
  next
    case False
    then have "take n bs = bs" by simp
    then show ?thesis using False bb1 1(5) unfolding unfold by (auto simp: buffered_def)
  qed
qed

lemma append_loop_fill:
  assumes "bb_inv bb" "bb_ptr bb + length bs = BIGBUFFER_SZ" "bs \<noteq> []"
  shows "\<exists>b. append_loop k wrkmem fd bb bs io = Ok (bb\<lparr>buffer := b, bb_ptr := BIGBUFFER_SZ\<rparr>, io)"
proof -
  obtain b where "memcpy_into (buffer bb) (bb_ptr bb) bs = Ok b"
    using memcpy_pending [OF assms(1), of bs] assms(2) by auto
  moreover have "min (BIGBUFFER_SZ - bb_ptr bb) (length bs) = length bs" "\<not> BIGBUFFER_SZ < bb_ptr bb"
    using assms(2) by simp_all
  ultimately show ?thesis
    using assms(2,3) by (intro exI [of _ b]) (subst append_loop.simps, simp add: Let_def)
qed

subsection \<open>Properties\<close>

definition demo_bb :: "bigbuffer" where
  "demo_bb = \<lparr>buffer = replicate BIGBUFFER_SZ 0, buffer_addr = 0x40000000, bb_ptr = 0\<rparr>"

lemma demo_bb_inv: "bb_inv demo_bb"
  by (simp add: bb_inv_def demo_bb_def BIGBUFFER_SZ_def)

text \<open>
  C20.  \<^verbatim>\<open>append_bigbuffer\<close> refines appending to a stream: whatever the length of the data,
  the decompressed contents of the file followed by the bytes still in the buffer are afterwards
  what they were before, followed by the new data.  The only failure is the assertion on a
  \<^verbatim>\<open>write\<close> that the kernel did not complete.
\<close>

theorem append_bigbuffer_stream:
  assumes "io_spec k" "fds io fd = Some fn" "bb_inv bb" "stream h (content fn io) \<noteq> None" "0 \<le> fd"
    and "bb_ptr bb < BIGBUFFER_SZ"
  shows "case append_bigbuffer k wrkmem fd bb bs io of
      Inl e \<Rightarrow> e = Assertion \<and> \<not> io_reliable k
    | Inr (bb', io') \<Rightarrow> bb_inv bb' \<and> fds io' = fds io
        \<and> (\<exists>d d'. stream h (content fn io) = Some d \<and> stream h (content fn io') = Some d'
            \<and> d' @ pending bb' = d @ pending bb @ bs)"
proof (cases "bs = []")
  case True
  then show ?thesis using assms by (auto simp: append_bigbuffer_def assert_that_def)
next
  case False
  then show ?thesis
    using append_loop_buffered [OF assms(1-5), of bs wrkmem] assms(5,6)
    by (auto simp: append_bigbuffer_def assert_that_def buffered_def split: sum.splits)
qed

theorem append_bigbuffer_stream_witness:
  "case append_bigbuffer demo_io (\<lambda>_ _. 0) 3 demo_bb [1, 2, 3] (opened ''ckpt'' Truncate 3 no_files) of
      Inl e \<Rightarrow> False
    | Inr (bb', io') \<Rightarrow> \<exists>d'. stream [] (content ''ckpt'' io') = Some d' \<and> d' @ pending bb' = [1, 2, 3]"
proof -
  have s: "stream [] (content ''ckpt'' (opened ''ckpt'' Truncate 3 no_files)) = Some []"
    by (simp add: stream_def)
  have "bb_ptr demo_bb < BIGBUFFER_SZ" "pending demo_bb = []"
    by (simp_all add: demo_bb_def BIGBUFFER_SZ_def pending_def)
  then show ?thesis
    using append_bigbuffer_stream [OF demo_io_spec, where io = "opened ''ckpt'' Truncate 3 no_files" and fd = 3
        and fn = "''ckpt''" and bb = demo_bb and h = "[]" and wrkmem = "\<lambda>_ _. 0" and bs = "[1, 2, 3]"]
      demo_bb_inv demo_io_reliable s
    by (auto split: sum.splits)
qed

text \<open>
  C22.  An append that fills the buffer exactly succeeds without flushing, and leaves a buffer on
  which the next append of anything, even of no bytes at all, fails its first assertion.
\<close>

theorem append_bigbuffer_exact_fill:
  assumes "bb_inv bb" "bb_ptr bb + length bs = BIGBUFFER_SZ" "bs \<noteq> []" "0 \<le> fd"
  shows "\<exists>bb'. append_bigbuffer k wrkmem fd bb bs io = Ok (bb', io)
    \<and> append_bigbuffer k wrkmem fd bb' bs' io = Stop Assertion"
proof -
  obtain b where b: "append_loop k wrkmem fd bb bs io = Ok (bb\<lparr>buffer := b, bb_ptr := BIGBUFFER_SZ\<rparr>, io)"
    using append_loop_fill [OF assms(1-3)] by blast
  have "bb_ptr bb < BIGBUFFER_SZ" using assms(2,3) by (cases bs) simp_all
  then show ?thesis using b assms(3,4) by (simp add: append_bigbuffer_def assert_that_def)
qed

theorem append_bigbuffer_exact_fill_witness:
  "\<exists>bb'. append_bigbuffer demo_io (\<lambda>_ _. 0) 3 demo_bb (replicate BIGBUFFER_SZ 7) no_files = Ok (bb', no_files)
    \<and> append_bigbuffer demo_io (\<lambda>_ _. 0) 3 bb' [] no_files = Stop Assertion"
  by (rule append_bigbuffer_exact_fill [OF demo_bb_inv]) (simp_all add: demo_bb_def BIGBUFFER_SZ_def)

end
