(* ===== verification/Logger.thy ===== *)
theory Logger
  imports Big_Buffer
begin

text \<open>
  The per-thread logger (\<^verbatim>\<open>src/core/loader/logger.c\<close>, \<^verbatim>\<open>logger.h\<close>,
  \<^verbatim>\<open>logger_tpd.h\<close>).  It writes into the thread's big buffer through
  \<^verbatim>\<open>asm_curr_ptr\<close>, an offset from the thread area that assembly code shares; 32 bytes are
  kept free at the end for it.  When the buffer is full the logger opens the log file, appends
  the buffer as compressed blocks and closes the file again.

  The offset \<open>base\<close> stands for \<^verbatim>\<open>ASM_BASE\<close>, the offset of the buffer in the thread
  area; it depends on the sizes the compiler gives to the structures.  The mutex of the logger is
  the flag \<open>log_flush_locked\<close>: \<^verbatim>\<open>flush_logger\<close> takes and releases it.
\<close>

record logger_tpd_stub =
  log_fn :: string
  this_bigbuffer :: bigbuffer
  log_flush_locked :: bool
  asm_curr_ptr :: u32
  asm_end_ptr :: u32

definition MAX_OUTPUT_FN_LEN :: nat where "MAX_OUTPUT_FN_LEN = 128"

text \<open>
  \<^verbatim>\<open>init_logger\<close>: \<open>name\<close> is what the format
  \<^verbatim>\<open>"%s/%d-%d-%010u-%010u.log"\<close> yields for the process, the thread and the time.
  \<^verbatim>\<open>snprintf\<close> stores at most 126 characters of it and returns its whole length.
\<close>

definition init_logger ::
  "io_calls \<Rightarrow> u32 \<Rightarrow> string \<Rightarrow> logger_tpd_stub \<Rightarrow> io_state \<Rightarrow> (logger_tpd_stub \<times> io_state) run" where
  "init_logger k base name l io =
    (let l = l\<lparr>this_bigbuffer := reset_bigbuffer_ptr (this_bigbuffer l),
           log_fn := take (MAX_OUTPUT_FN_LEN - 1 - 1) name\<rparr>
     in bindR (assert_that (length name < MAX_OUTPUT_FN_LEN)) (\<lambda>_.
          let l = l\<lparr>asm_curr_ptr := base, asm_end_ptr := base + word_of_nat BIGBUFFER_SZ - 32,
                log_flush_locked := False\<rparr>;
              (fd, io) = sys_open k (log_fn l) Truncate io
          in if fd < 0 then Ok (l, io)
             else bindR (write_comp_file_head k fd io) (\<lambda>io.
               let (err, io) = sys_close k fd io in Ok (l, io))))"

definition flush_logger ::
  "io_calls \<Rightarrow> wrkmem \<Rightarrow> u32 \<Rightarrow> logger_tpd_stub \<Rightarrow> io_state \<Rightarrow> (logger_tpd_stub \<times> io_state) run" where
  "flush_logger k wrkmem base l io =
    (let l = l\<lparr>log_flush_locked := True\<rparr>;
         curr_offset = unat (asm_curr_ptr l - base);
         pbb = set_bigbuffer_ptr (this_bigbuffer l) curr_offset
     in bindR (assert_that (curr_offset < BIGBUFFER_SZ)) (\<lambda>_.
          let (fd, io) = sys_open k (log_fn l) Append io
          in if fd < 0 then
               Ok (l\<lparr>log_flush_locked := False, this_bigbuffer := reset_bigbuffer_ptr pbb, asm_curr_ptr := base\<rparr>, io)
             else
               bindR (flush_bigbuffer k wrkmem fd pbb io) (\<lambda>(pbb, io).
                 let pbb = reset_bigbuffer_ptr pbb;
                     (err, io) = sys_close k fd io
                 in if err \<noteq> 0 then Stop Fatal
                    else Ok (l\<lparr>this_bigbuffer := pbb, asm_curr_ptr := base, log_flush_locked := False\<rparr>, io))))"

text \<open>
  \<^verbatim>\<open>append_logger\<close>: the loop would not end if no byte were free after a flush, so its
  result is an option, and \<open>None\<close> means that it does not return.
\<close>

partial_function (option) append_logger ::
  "io_calls \<Rightarrow> wrkmem \<Rightarrow> u32 \<Rightarrow> logger_tpd_stub \<Rightarrow> byte list \<Rightarrow> io_state \<Rightarrow> (logger_tpd_stub \<times> io_state) run option" where
  "append_logger k wrkmem base l bs io =
    (if length bs = 0 then Some (Ok (l, io))
     else
       let aval = unat (asm_end_ptr l - asm_curr_ptr l);
           cpysz = (if length bs < aval then length bs else aval)
       in case memcpy_into (buffer (this_bigbuffer l)) (unat (asm_curr_ptr l - base)) (take cpysz bs) of
            Inl e \<Rightarrow> Some (Stop e)
          | Inr b \<Rightarrow>
              let l = l\<lparr>this_bigbuffer := (this_bigbuffer l)\<lparr>buffer := b\<rparr>,
                    asm_curr_ptr := asm_curr_ptr l + word_of_nat cpysz\<rparr>;
                  bs = drop cpysz bs
              in if 0 < length bs then
                   (case flush_logger k wrkmem base l io of
                      Inl e \<Rightarrow> Some (Stop e)
                    | Inr (l, io) \<Rightarrow> append_logger k wrkmem base l bs io)
                 else append_logger k wrkmem base l bs io)"

text \<open>\<^verbatim>\<open>append_logger_u32\<close>, \<^verbatim>\<open>_ptr\<close>, \<^verbatim>\<open>_u16\<close>, \<^verbatim>\<open>_u8\<close> and
  \<^verbatim>\<open>_int\<close>: the bytes of a value of one to four bytes.\<close>

definition append_logger_TYPE ::
  "io_calls \<Rightarrow> wrkmem \<Rightarrow> u32 \<Rightarrow> logger_tpd_stub \<Rightarrow> byte list \<Rightarrow> io_state \<Rightarrow> (logger_tpd_stub \<times> io_state) run" where
  "append_logger_TYPE k wrkmem base l x io =
    bindR (if asm_end_ptr l < asm_curr_ptr l + word_of_nat (length x)
           then flush_logger k wrkmem base l io else Ok (l, io)) (\<lambda>(l, io).
    bindR (memcpy_into (buffer (this_bigbuffer l)) (unat (asm_curr_ptr l - base)) x) (\<lambda>b.
      Ok (l\<lparr>this_bigbuffer := (this_bigbuffer l)\<lparr>buffer := b\<rparr>,
            asm_curr_ptr := asm_curr_ptr l + word_of_nat (length x)\<rparr>, io)))"

text \<open>\<^verbatim>\<open>flush_all_logger\<close>: the loggers of the live threads, in the order of the list.\<close>

fun flush_all_logger ::
  "io_calls \<Rightarrow> wrkmem \<Rightarrow> u32 \<Rightarrow> logger_tpd_stub list \<Rightarrow> io_state \<Rightarrow> (logger_tpd_stub list \<times> io_state) run" where
  "flush_all_logger k wrkmem base [] io = Ok ([], io)"
| "flush_all_logger k wrkmem base (l # ls) io =
    bindR (flush_logger k wrkmem base l io) (\<lambda>(l, io).
    bindR (flush_all_logger k wrkmem base ls io) (\<lambda>(ls, io). Ok (l # ls, io)))"

subsection \<open>The invariant and the log\<close>

definition logger_inv :: "u32 \<Rightarrow> logger_tpd_stub \<Rightarrow> bool" where
  "logger_inv base l \<longleftrightarrow> bb_inv (this_bigbuffer l) \<and> unat base + BIGBUFFER_SZ < 2 ^ 32
    \<and> unat (asm_end_ptr l) = unat base + BIGBUFFER_SZ - 32
    \<and> base \<le> asm_curr_ptr l \<and> asm_curr_ptr l \<le> asm_end_ptr l"

text \<open>The offset of the next free byte, and the bytes logged but not yet flushed.\<close>

definition log_off :: "u32 \<Rightarrow> logger_tpd_stub \<Rightarrow> nat" where
  "log_off base l = unat (asm_curr_ptr l - base)"

definition log_pending :: "u32 \<Rightarrow> logger_tpd_stub \<Rightarrow> byte list" where
  "log_pending base l = take (log_off base l) (buffer (this_bigbuffer l))"

definition log_stream :: "logger_tpd_stub \<Rightarrow> io_state \<Rightarrow> byte list option" where
  "log_stream l io = stream COMP_FILE_HEADER (content (log_fn l) io)"

text \<open>Everything logged so far.\<close>

definition log_data :: "u32 \<Rightarrow> logger_tpd_stub \<times> io_state \<Rightarrow> byte list" where
  "log_data base s = the (log_stream (fst s) (snd s)) @ log_pending base (fst s)"

definition log_inv :: "io_calls \<Rightarrow> u32 \<Rightarrow> logger_tpd_stub \<times> io_state \<Rightarrow> bool" where
  "log_inv k base s \<longleftrightarrow> io_reliable k \<and> logger_inv base (fst s) \<and> fd_free (snd s)
    \<and> log_stream (fst s) (snd s) \<noteq> None"

lemma log_off_le:
  assumes "logger_inv base l"
  shows "log_off base l \<le> BIGBUFFER_SZ - 32" "unat (asm_curr_ptr l) = unat base + log_off base l"
    "unat (asm_end_ptr l - asm_curr_ptr l) = BIGBUFFER_SZ - 32 - log_off base l"
proof -
  have c: "unat base \<le> unat (asm_curr_ptr l)" "unat (asm_curr_ptr l) \<le> unat (asm_end_ptr l)"
    "unat (asm_end_ptr l) = unat base + (BIGBUFFER_SZ - 32)"
    using assms by (simp_all add: logger_inv_def word_le_nat_alt BIGBUFFER_SZ_def)
  then show "log_off base l \<le> BIGBUFFER_SZ - 32" "unat (asm_curr_ptr l) = unat base + log_off base l"
    "unat (asm_end_ptr l - asm_curr_ptr l) = BIGBUFFER_SZ - 32 - log_off base l"
    by (simp_all add: log_off_def unat_sub_32)
qed

text \<open>Copying to the free part of the buffer and moving the pointer.\<close>

definition log_put :: "logger_tpd_stub \<Rightarrow> byte list \<Rightarrow> byte list \<Rightarrow> logger_tpd_stub" where
  "log_put l b bs = l\<lparr>this_bigbuffer := (this_bigbuffer l)\<lparr>buffer := b\<rparr>,
     asm_curr_ptr := asm_curr_ptr l + word_of_nat (length bs)\<rparr>"

lemma log_put_Ok:
  assumes inv: "log_inv k base (l, io)" and len: "log_off base l + length bs \<le> BIGBUFFER_SZ - 32"
  shows "\<exists>b. memcpy_into (buffer (this_bigbuffer l)) (log_off base l) bs = Ok b
    \<and> log_inv k base (log_put l b bs, io) \<and> log_data base (log_put l b bs, io) = log_data base (l, io) @ bs
    \<and> log_off base (log_put l b bs) = log_off base l + length bs"
proof -
  have i: "logger_inv base l" using inv by (simp add: log_inv_def)
  have sz: "length (buffer (this_bigbuffer l)) = BIGBUFFER_SZ" "unat base + BIGBUFFER_SZ < 2 ^ 32"
    "unat (asm_end_ptr l) = unat base + BIGBUFFER_SZ - 32"
    using i by (simp_all add: logger_inv_def bb_inv_def)
  have big: "32 < BIGBUFFER_SZ" by (simp add: BIGBUFFER_SZ_def)
  define b where "b = take (log_off base l) (buffer (this_bigbuffer l)) @ bs
    @ drop (log_off base l + length bs) (buffer (this_bigbuffer l))"
  have m: "memcpy_into (buffer (this_bigbuffer l)) (log_off base l) bs = Ok b"
    using len sz(1) by (simp add: memcpy_into_def b_def)
  have lb: "length b = BIGBUFFER_SZ" using len sz(1) by (simp add: b_def)
  have c: "unat (asm_curr_ptr l + word_of_nat (length bs)) = unat base + (log_off base l + length bs)"
    using log_off_le(2) [OF i] len sz(2) by (subst unat_add_32) (simp_all add: unat_word_of_nat_32)
  have off: "log_off base (log_put l b bs) = log_off base l + length bs"
    using c by (simp add: log_off_def log_put_def unat_sub_32)
  have "logger_inv base (log_put l b bs)"
    using i lb c len sz(3) big by (simp add: logger_inv_def log_put_def bb_inv_def word_le_nat_alt)
  then have "log_inv k base (log_put l b bs, io)"
    using inv by (simp add: log_inv_def log_stream_def log_put_def)
  moreover have "log_pending base (log_put l b bs) = log_pending base l @ bs"
    unfolding log_pending_def off using len sz(1) by (simp add: log_put_def b_def)
  then have "log_data base (log_put l b bs, io) = log_data base (l, io) @ bs"
    by (simp add: log_data_def log_stream_def) (simp add: log_put_def)
  ultimately show ?thesis using m off by blast
qed

lemma flush_logger_Ok:
  assumes inv: "log_inv k base (l, io)"
  shows "\<exists>l' io'. flush_logger k wrkmem base l io = Ok (l', io') \<and> log_inv k base (l', io')
    \<and> log_data base (l', io') = log_data base (l, io) \<and> log_off base l' = 0
    \<and> log_fn l' = log_fn l \<and> \<not> log_flush_locked l' \<and> fds io' = fds io
    \<and> (\<forall>fn. fn \<noteq> log_fn l \<longrightarrow> content fn io' = content fn io)"
proof -
  have rel: "io_reliable k" and i: "logger_inv base l" and free: "fd_free io"
    and str: "log_stream l io \<noteq> None"
    using inv by (simp_all add: log_inv_def)
  note spec = reliable_calls(1) [OF rel]
  have lt: "log_off base l < BIGBUFFER_SZ" using log_off_le(1) [OF i] by (simp add: BIGBUFFER_SZ_def)
  define pbb where "pbb = set_bigbuffer_ptr (this_bigbuffer l) (log_off base l)"
  have pbb: "bb_inv pbb" "pending pbb = log_pending base l"
    using i lt by (simp_all add: pbb_def logger_inv_def bb_inv_def set_bigbuffer_ptr_def pending_def log_pending_def)
  obtain fd io1 where o: "sys_open k (log_fn l) Append io = (fd, io1)"
    by (cases "sys_open k (log_fn l) Append io")
  then have fd: "0 \<le> fd" using reliable_calls(2) [OF rel free, of "log_fn l" Append] by simp
  note op = open_Ok [OF spec o fd]
  have st1: "stream COMP_FILE_HEADER (content (log_fn l) io1) = log_stream l io"
    by (simp add: op(2) log_stream_def)
  have "buffered k COMP_FILE_HEADER (log_fn l) [] pbb io1 (flush_bigbuffer k wrkmem fd pbb io1)"
    using st1 str fd pbb(1) by (intro flush_bigbuffer_buffered [OF spec]) (simp_all add: op(2))
  then obtain pbb' io2 d d' where f: "flush_bigbuffer k wrkmem fd pbb io1 = Ok (pbb', io2)" "bb_inv pbb'"
      "log_stream l io = Some d" "stream COMP_FILE_HEADER (content (log_fn l) io2) = Some d'"
      "d' @ pending pbb' = d @ pending pbb" "fds io2 = fds io1"
      "\<forall>fn. fn \<noteq> log_fn l \<longrightarrow> content fn io2 = content fn io1"
    using rel st1 by (auto simp: buffered_def split: sum.splits)
  have "pbb' = reset_bigbuffer_ptr pbb" using f(1) by (rule flush_bigbuffer_resets)
  then have d': "d' = d @ log_pending base l" using f(5) pbb(2) by simp
  obtain err io3 where c: "sys_close k fd io2 = (err, io3)" by (cases "sys_close k fd io2")
  have fd2: "fds io2 fd = Some (log_fn l)" using f(6) by (simp add: op(2))
  have err: "err = 0" using reliable_calls(4) [OF rel fd2] c by simp
  then have io3: "io3 = io2\<lparr>fds := (fds io2)(fd := None)\<rparr>" using close_Ok [OF spec, of fd io2 io3] c by simp
  have fds3: "fds io3 = fds io" using f(6) op(1) by (auto simp: io3 op(2))
  define l' where "l' = l\<lparr>this_bigbuffer := reset_bigbuffer_ptr pbb', asm_curr_ptr := base, log_flush_locked := False\<rparr>"
  have run: "flush_logger k wrkmem base l io = Ok (l', io3)"
    using lt o fd f(1) c err
    by (simp add: flush_logger_def Let_def assert_that_def l'_def pbb_def log_off_def)
  have off: "log_off base l' = 0" by (simp add: l'_def log_off_def)
  have str': "log_stream l' io3 = Some d'" using f(4) by (simp add: log_stream_def l'_def io3)
  have "logger_inv base l'" using i f(2) by (auto simp: logger_inv_def l'_def bb_inv_def word_le_nat_alt)
  then have "log_inv k base (l', io3)" using rel free str' fds3 by (simp add: log_inv_def fd_free_def)
  moreover have "log_data base (l', io3) = log_data base (l, io)"
    using str' f(3) d' off by (simp add: log_data_def log_pending_def)
  moreover have "\<forall>fn. fn \<noteq> log_fn l \<longrightarrow> content fn io3 = content fn io"
    using f(7) by (simp add: io3 op(2))
  ultimately show ?thesis using run off fds3 by (auto simp: l'_def)
qed

lemma append_logger_Ok:
  "log_inv k base (l, io)
    \<Longrightarrow> \<exists>l' io'. append_logger k wrkmem base l bs io = Some (Ok (l', io')) \<and> log_inv k base (l', io')
      \<and> log_data base (l', io') = log_data base (l, io) @ bs"
proof (induction "2 * length bs + (if log_off base l = BIGBUFFER_SZ - 32 then 1 else 0)"
    arbitrary: l io bs rule: less_induct)
  case less
  show ?case
  proof (cases "bs = []")
    case True
    then show ?thesis using less.prems by (subst append_logger.simps) simp
  next
    case False
    have i: "logger_inv base l" using less.prems by (simp add: log_inv_def)
    note off = log_off_le [OF i]
    define n where "n = (if length bs < BIGBUFFER_SZ - 32 - log_off base l then length bs
      else BIGBUFFER_SZ - 32 - log_off base l)"
    have n: "log_off base l + length (take n bs) \<le> BIGBUFFER_SZ - 32" "length (take n bs) = n"
      using off(1) by (auto simp: n_def)
    obtain b where b: "memcpy_into (buffer (this_bigbuffer l)) (log_off base l) (take n bs) = Ok b"
        and i1: "log_inv k base (log_put l b (take n bs), io)"
        and d1: "log_data base (log_put l b (take n bs), io) = log_data base (l, io) @ take n bs"
        and o1: "log_off base (log_put l b (take n bs)) = log_off base l + n"
      using log_put_Ok [OF less.prems n(1)] n(2) by auto
    have n': "(if length bs < unat (asm_end_ptr l - asm_curr_ptr l) then length bs
        else unat (asm_end_ptr l - asm_curr_ptr l)) = n"
      by (simp only: off(3) n_def)
    have nle: "\<not> n < length bs \<Longrightarrow> length bs = n" using n(2) by simp
    have run: "append_logger k wrkmem base l bs io
        = (if 0 < length (drop n bs) then
             (case flush_logger k wrkmem base (log_put l b (take n bs)) io of
                Inl e \<Rightarrow> Some (Stop e)
              | Inr (l, io) \<Rightarrow> append_logger k wrkmem base l (drop n bs) io)
           else append_logger k wrkmem base (log_put l b (take n bs)) (drop n bs) io)"
      using False b n(2) nle
      by (subst append_logger.simps) (auto simp: Let_def n' log_put_def log_off_def [symmetric])
    show ?thesis
    proof (cases "0 < length (drop n bs)")
      case True
      obtain l2 io2 where f: "flush_logger k wrkmem base (log_put l b (take n bs)) io = Ok (l2, io2)"
          "log_inv k base (l2, io2)" "log_data base (l2, io2) = log_data base (log_put l b (take n bs), io)"
          "log_off base l2 = 0"
        using flush_logger_Ok [OF i1] by blast
      have lt: "2 * length (drop n bs) + (if log_off base l2 = BIGBUFFER_SZ - 32 then 1 else 0)
          < 2 * length bs + (if log_off base l = BIGBUFFER_SZ - 32 then 1 else 0)"
        using True f(4) off(1) by (auto simp: n_def BIGBUFFER_SZ_def)
      show ?thesis
        using less.hyps [OF lt f(2)] True f(1,3) d1 unfolding run by auto
    next
      case no: False
      then have "take n bs = bs" by simp
      then show ?thesis using no i1 d1 unfolding run by (subst append_logger.simps) auto
    qed
  qed
qed

lemma append_logger_TYPE_Ok:
  assumes inv: "log_inv k base (l, io)" and x: "length x \<le> 32"
  shows "\<exists>l' io'. append_logger_TYPE k wrkmem base l x io = Ok (l', io') \<and> log_inv k base (l', io')
    \<and> log_data base (l', io') = log_data base (l, io) @ x"
proof -
  have i: "logger_inv base l" using inv by (simp add: log_inv_def)
  have sz: "unat base + BIGBUFFER_SZ < 2 ^ 32" "unat (asm_end_ptr l) = unat base + BIGBUFFER_SZ - 32"
    using i by (simp_all add: logger_inv_def)
  have big: "64 < BIGBUFFER_SZ" by (simp add: BIGBUFFER_SZ_def)
  note off = log_off_le [OF i]
  have "unat (asm_curr_ptr l + word_of_nat (length x)) = unat base + (log_off base l + length x)"
    using off(1,2) sz(1) x big by (subst unat_add_32) (simp_all add: unat_word_of_nat_32)
  then have test: "asm_end_ptr l < asm_curr_ptr l + word_of_nat (length x)
      \<longleftrightarrow> BIGBUFFER_SZ - 32 < log_off base l + length x"
    using sz(2) big by (auto simp: word_less_nat_alt)
  define r where "r = (if asm_end_ptr l < asm_curr_ptr l + word_of_nat (length x)
    then flush_logger k wrkmem base l io else Ok (l, io))"
  obtain l1 io1 where r: "r = Ok (l1, io1)" "log_inv k base (l1, io1)"
      "log_data base (l1, io1) = log_data base (l, io)" "log_off base l1 + length x \<le> BIGBUFFER_SZ - 32"
  proof (cases "asm_end_ptr l < asm_curr_ptr l + word_of_nat (length x)")
    case True
    then obtain l1 io1 where "r = Ok (l1, io1)" "log_inv k base (l1, io1)"
        "log_data base (l1, io1) = log_data base (l, io)" "log_off base l1 = 0"
      using flush_logger_Ok [OF inv, of wrkmem] by (auto simp: r_def)
    then show ?thesis using x big by (intro that [of l1 io1]) simp_all
  next
    case False
    then show ?thesis using inv test by (intro that [of l io]) (simp_all add: r_def)
  qed
  show ?thesis
    using log_put_Ok [OF r(2,4)] r(1,3)
    by (auto simp: append_logger_TYPE_def log_put_def log_off_def simp flip: r_def)
qed

subsection \<open>The logger as a byte sink\<close>

text \<open>
  What the rest of the loader relies on: a sink takes data in any form that has an encoding as
  bytes, never fails while its invariant holds, and its contents grow by exactly the encoding.
\<close>

fun puts :: "('d \<Rightarrow> 's \<Rightarrow> 's \<Rightarrow> bool) \<Rightarrow> 'd list \<Rightarrow> 's \<Rightarrow> 's \<Rightarrow> bool" where
  "puts put [] s s' \<longleftrightarrow> s' = s"
| "puts put (d # ds) s s' \<longleftrightarrow> (\<exists>s1. put d s s1 \<and> puts put ds s1 s')"

locale byte_sink =
  fixes inv :: "'s \<Rightarrow> bool" and abs :: "'s \<Rightarrow> byte list"
    and enc :: "'d \<Rightarrow> byte list" and put :: "'d \<Rightarrow> 's \<Rightarrow> 's \<Rightarrow> bool"
  assumes put_step: "inv s \<Longrightarrow> \<exists>s'. put d s s' \<and> inv s' \<and> abs s' = abs s @ enc d"
    and put_det: "put d s s1 \<Longrightarrow> put d s s2 \<Longrightarrow> s1 = s2"
begin

lemma puts_step:
  "inv s \<Longrightarrow> \<exists>s'. puts put ds s s' \<and> inv s' \<and> abs s' = abs s @ concat (map enc ds)"
proof (induction ds arbitrary: s)
  case (Cons d ds)
  obtain s1 where s1: "put d s s1" "inv s1" "abs s1 = abs s @ enc d" using put_step [OF Cons.prems] by blast
  show ?case using Cons.IH [OF s1(2)] s1 by auto
qed simp

lemma puts_det: "puts put ds s s1 \<Longrightarrow> puts put ds s s2 \<Longrightarrow> s1 = s2"
proof (induction ds arbitrary: s)
  case (Cons d ds)
  then obtain t1 t2 where "put d s t1" "puts put ds t1 s1" "put d s t2" "puts put ds t2 s2" by auto
  moreover from this have "t1 = t2" by (blast intro: put_det)
  ultimately show ?case using Cons.IH by blast
qed simp

lemma puts_abs:
  assumes "inv s" "puts put ds s s'"
  shows "inv s'" "abs s' = abs s @ concat (map enc ds)"
  using puts_step [OF assms(1), of ds] puts_det [OF assms(2)] by blast+

end

text \<open>The operations on the logger of a thread.\<close>

datatype log_op =
    Log_data "byte list" \<comment> \<open>\<^verbatim>\<open>append_logger\<close>\<close>
  | Log_u32 u32
  | Log_u16 u16
  | Log_u8 byte
  | Log_flush \<comment> \<open>\<^verbatim>\<open>flush_self_logger\<close>\<close>

definition le16 :: "u16 \<Rightarrow> byte list" where
  "le16 w = [ucast w, ucast (drop_bit 8 w)]"

primrec log_bytes :: "log_op \<Rightarrow> byte list" where
  "log_bytes (Log_data bs) = bs"
| "log_bytes (Log_u32 w) = le32 w"
| "log_bytes (Log_u16 w) = le16 w"
| "log_bytes (Log_u8 b) = [b]"
| "log_bytes Log_flush = []"

type_synonym log_env = "io_calls \<times> wrkmem \<times> u32"

fun log_step :: "log_op \<Rightarrow> log_env \<times> logger_tpd_stub \<times> io_state \<Rightarrow> (logger_tpd_stub \<times> io_state) run option" where
  "log_step (Log_data bs) ((k, wrkmem, base), l, io) = append_logger k wrkmem base l bs io"
| "log_step (Log_u32 w) ((k, wrkmem, base), l, io) = Some (append_logger_TYPE k wrkmem base l (le32 w) io)"
| "log_step (Log_u16 w) ((k, wrkmem, base), l, io) = Some (append_logger_TYPE k wrkmem base l (le16 w) io)"
| "log_step (Log_u8 b) ((k, wrkmem, base), l, io) = Some (append_logger_TYPE k wrkmem base l [b] io)"
| "log_step Log_flush ((k, wrkmem, base), l, io) = Some (flush_logger k wrkmem base l io)"

definition log_runs ::
  "log_op \<Rightarrow> log_env \<times> logger_tpd_stub \<times> io_state \<Rightarrow> log_env \<times> logger_tpd_stub \<times> io_state \<Rightarrow> bool" where
  "log_runs op s s' \<longleftrightarrow> fst s' = fst s \<and> log_step op s = Some (Ok (snd s'))"

definition env_inv :: "log_env \<times> logger_tpd_stub \<times> io_state \<Rightarrow> bool" where
  "env_inv s = (case s of ((k, wrkmem, base), st) \<Rightarrow> log_inv k base st)"

definition env_data :: "log_env \<times> logger_tpd_stub \<times> io_state \<Rightarrow> byte list" where
  "env_data s = (case s of ((k, wrkmem, base), st) \<Rightarrow> log_data base st)"

interpretation logger: byte_sink env_inv env_data log_bytes log_runs
proof
  fix op and s :: "log_env \<times> logger_tpd_stub \<times> io_state"
  assume inv: "env_inv s"
  obtain k wrkmem base l io where s: "s = ((k, wrkmem, base), l, io)" by (metis prod.exhaust)
  have i: "log_inv k base (l, io)" using inv by (simp add: env_inv_def s)
  have "\<exists>l' io'. log_step op s = Some (Ok (l', io')) \<and> log_inv k base (l', io')
      \<and> log_data base (l', io') = log_data base (l, io) @ log_bytes op"
  proof (cases op)
    case (Log_data bs)
    then show ?thesis using append_logger_Ok [OF i] by (simp add: s)
  next
    case Log_flush
    then show ?thesis using flush_logger_Ok [OF i, of wrkmem] by (auto simp: s)
  qed (use append_logger_TYPE_Ok [OF i] in \<open>auto simp: s le16_def\<close>)
  then obtain l' io' where "log_step op s = Some (Ok (l', io'))" "log_inv k base (l', io')"
      "log_data base (l', io') = log_data base (l, io) @ log_bytes op" by blast
  then show "\<exists>s'. log_runs op s s' \<and> env_inv s' \<and> env_data s' = env_data s @ log_bytes op"
    by (intro exI [of _ "((k, wrkmem, base), l', io')"]) (simp add: log_runs_def env_inv_def env_data_def s)
qed (auto simp: log_runs_def prod_eq_iff)

lemma puts_env: "puts log_runs ops s s' \<Longrightarrow> fst s' = fst s"
  by (induction ops arbitrary: s) (auto simp: log_runs_def)

lemma puts_append: "puts put (ds @ es) s s' \<longleftrightarrow> (\<exists>s1. puts put ds s s1 \<and> puts put es s1 s')"
  by (induction ds arbitrary: s) auto

subsection \<open>Properties\<close>

lemma init_logger_Ok:
  assumes rel: "io_reliable k" and bb: "bb_inv (this_bigbuffer l)" and base: "unat base + BIGBUFFER_SZ < 2 ^ 32"
    and free: "fd_free io" and len: "length name < MAX_OUTPUT_FN_LEN"
  shows "\<exists>l' io'. init_logger k base name l io = Ok (l', io') \<and> log_inv k base (l', io')
    \<and> log_data base (l', io') = []"
proof -
  define fn where "fn = take (MAX_OUTPUT_FN_LEN - 1 - 1) name"
  note spec = reliable_calls(1) [OF rel]
  obtain fd io1 where o: "sys_open k fn Truncate io = (fd, io1)" by (cases "sys_open k fn Truncate io")
  then have fd: "0 \<le> fd" using reliable_calls(2) [OF rel free, of fn Truncate] by simp
  note op = open_Ok [OF spec o fd]
  have fd1: "fds io1 fd = Some fn" by (simp add: op(2))
  obtain n io2 where w: "sys_write k fd COMP_FILE_HEADER io1 = (n, io2)"
    by (cases "sys_write k fd COMP_FILE_HEADER io1")
  have n: "n = int (length COMP_FILE_HEADER)" using reliable_calls(3) [OF rel fd1, of COMP_FILE_HEADER] w by simp
  have io2: "io2 = written fn COMP_FILE_HEADER io1" by (rule write_Ok [OF spec w fd1 n])
  obtain err io3 where c: "sys_close k fd io2 = (err, io3)" by (cases "sys_close k fd io2")
  have "err = 0" using reliable_calls(4) [OF rel, of io2 fd fn] c fd1 by (simp add: io2)
  then have io3: "io3 = io2\<lparr>fds := (fds io2)(fd := None)\<rparr>" using close_Ok [OF spec, of fd io2 io3] c by simp
  have fds3: "fds io3 = fds io" using op by (auto simp: io3 io2)
  define l' where "l' = l\<lparr>this_bigbuffer := reset_bigbuffer_ptr (this_bigbuffer l), log_fn := fn,
    asm_curr_ptr := base, asm_end_ptr := base + word_of_nat BIGBUFFER_SZ - 32, log_flush_locked := False\<rparr>"
  have run: "init_logger k base name l io = Ok (l', io3)"
    unfolding init_logger_def Let_def fn_def [symmetric]
    using o fd w n c len by (simp add: write_comp_file_head_def assert_that_def l'_def)
  have str: "log_stream l' io3 = Some []" by (simp add: log_stream_def l'_def io3 io2 op(2))
  have u: "unat (base + word_of_nat BIGBUFFER_SZ) = unat base + BIGBUFFER_SZ"
    using base by (subst unat_add_32) (simp_all add: unat_word_of_nat_32)
  have "32 \<le> unat base + BIGBUFFER_SZ" by (simp add: BIGBUFFER_SZ_def)
  then have "unat (base + word_of_nat BIGBUFFER_SZ - 32) = unat base + BIGBUFFER_SZ - 32"
    using u by (subst unat_sub_32) simp_all
  then have e: "unat (asm_end_ptr l') = unat base + BIGBUFFER_SZ - 32" by (simp add: l'_def)
  then have "asm_curr_ptr l' \<le> asm_end_ptr l'" by (simp add: word_le_nat_alt BIGBUFFER_SZ_def l'_def)
  then have "logger_inv base l'" using bb base e by (simp add: logger_inv_def) (simp add: l'_def)
  then have "log_inv k base (l', io3)" using rel free fds3 str by (simp add: log_inv_def fd_free_def)
  moreover have "log_data base (l', io3) = []"
    using str by (simp add: log_data_def log_pending_def log_off_def) (simp add: l'_def)
  ultimately show ?thesis using run by (auto simp: l'_def)
qed

definition demo_logger :: logger_tpd_stub where
  "demo_logger = \<lparr>log_fn = [], this_bigbuffer = demo_bb, log_flush_locked = False, asm_curr_ptr = 0, asm_end_ptr = 0\<rparr>"

lemma demo_free: "fd_free no_files"
  by (auto simp: fd_free_def no_files_def OPEN_MAX_def)

text \<open>
  C3.  Nothing logged is lost or reordered: after \<^verbatim>\<open>init_logger\<close>, every sequence of
  logging operations and flushes returns, and after a last flush the log file, decompressed,
  holds exactly the logged values in order.  This is for a kernel that opens the log file and
  completes its writes.
\<close>

theorem logger_complete:
  assumes "io_reliable k" "bb_inv (this_bigbuffer l)" "unat base + BIGBUFFER_SZ < 2 ^ 32" "fd_free io"
    "length name < MAX_OUTPUT_FN_LEN"
  shows "\<exists>l1 io1 l2 io2. init_logger k base name l io = Ok (l1, io1)
    \<and> puts log_runs (ops @ [Log_flush]) ((k, wrkmem, base), l1, io1) ((k, wrkmem, base), l2, io2)
    \<and> stream COMP_FILE_HEADER (content (log_fn l2) io2) = Some (concat (map log_bytes ops))"
proof -
  obtain l1 io1 where i: "init_logger k base name l io = Ok (l1, io1)" "log_inv k base (l1, io1)"
      "log_data base (l1, io1) = []"
    using init_logger_Ok [OF assms] by blast
  let ?s1 = "((k, wrkmem, base), l1, io1)"
  have inv1: "env_inv ?s1" using i(2) by (simp add: env_inv_def)
  obtain s where s: "puts log_runs ops ?s1 s" "env_inv s" "env_data s = concat (map log_bytes ops)"
    using logger.puts_step [OF inv1, of ops] i(3) by (auto simp: env_data_def)
  have "fst s = (k, wrkmem, base)" using puts_env [OF s(1)] by simp
  then obtain l2 io2 where e: "s = ((k, wrkmem, base), l2, io2)" by (cases s) auto
  have inv2: "log_inv k base (l2, io2)" using s(2) by (simp add: e env_inv_def)
  obtain l3 io3 where f: "flush_logger k wrkmem base l2 io2 = Ok (l3, io3)" "log_inv k base (l3, io3)"
      "log_data base (l3, io3) = log_data base (l2, io2)" "log_off base l3 = 0"
    using flush_logger_Ok [OF inv2] by blast
  have "stream COMP_FILE_HEADER (content (log_fn l3) io3) = Some (concat (map log_bytes ops))"
    using f(2-4) s(3) by (auto simp: log_inv_def log_data_def log_stream_def log_pending_def env_data_def e)
  moreover have "log_runs Log_flush s ((k, wrkmem, base), l3, io3)"
    using f(1) by (simp add: log_runs_def e)
  then have "puts log_runs (ops @ [Log_flush]) ?s1 ((k, wrkmem, base), l3, io3)"
    using s(1) unfolding puts_append by (intro exI [of _ s]) simp
  ultimately show ?thesis using i(1) by blast
qed

theorem logger_complete_witness:
  "\<exists>l1 io1 l2 io2. init_logger demo_io 0x1000 ''log'' demo_logger no_files = Ok (l1, io1)
    \<and> puts log_runs ([Log_u32 42, Log_data (replicate 5000000 7), Log_u8 1] @ [Log_flush])
        ((demo_io, \<lambda>_ _. 0, 0x1000), l1, io1) ((demo_io, \<lambda>_ _. 0, 0x1000), l2, io2)
    \<and> stream COMP_FILE_HEADER (content (log_fn l2) io2)
      = Some (concat (map log_bytes [Log_u32 42, Log_data (replicate 5000000 7), Log_u8 1]))"
  by (rule logger_complete [OF demo_io_reliable _ _ demo_free])
    (simp_all add: demo_logger_def demo_bb_inv MAX_OUTPUT_FN_LEN_def, simp add: BIGBUFFER_SZ_def)

text \<open>
  Error path of the flush: when the log file cannot be opened, the flush returns normally,
  releases its mutex and makes the whole buffer free again, but the pending bytes are gone: they
  are in no file and no longer in the buffer.
\<close>

theorem flush_logger_open_fails:
  assumes "open_spec k" "logger_inv base l" "fst (sys_open k (log_fn l) Append io) < 0"
  shows "\<exists>l'. flush_logger k wrkmem base l io = Ok (l', io) \<and> logger_inv base l'
    \<and> log_pending base l' = [] \<and> \<not> log_flush_locked l' \<and> log_fn l' = log_fn l"
proof -
  obtain fd io' where o: "sys_open k (log_fn l) Append io = (fd, io')" by (cases "sys_open k (log_fn l) Append io")
  have fd: "fd < 0" using assms(3) o by simp
  then have io': "io' = io"
    using spec [OF spec [OF spec [OF assms(1) [unfolded open_spec_def], of "log_fn l"], of Append], of io] o by simp
  have lt: "log_off base l < BIGBUFFER_SZ"
    using log_off_le(1) [OF assms(2)] by (simp add: BIGBUFFER_SZ_def)
  define l' where "l' = l\<lparr>log_flush_locked := False,
    this_bigbuffer := reset_bigbuffer_ptr (set_bigbuffer_ptr (this_bigbuffer l) (log_off base l)), asm_curr_ptr := base\<rparr>"
  have "flush_logger k wrkmem base l io = Ok (l', io)"
    using lt o fd io' by (simp add: flush_logger_def Let_def assert_that_def log_off_def l'_def)
  moreover have "logger_inv base l'"
    using assms(2) by (auto simp: logger_inv_def l'_def bb_inv_def set_bigbuffer_ptr_def word_le_nat_alt)
  moreover have "log_pending base l' = []" by (simp add: log_pending_def log_off_def l'_def)
  ultimately show ?thesis by (auto simp: l'_def)
qed

theorem flush_logger_open_fails_witness:
  "\<exists>l'. flush_logger (demo_io\<lparr>sys_open := \<lambda>fn m io. (- 13, io)\<rparr>) (\<lambda>_ _. 0) 0x1000
      (demo_logger\<lparr>asm_curr_ptr := 0x1010, asm_end_ptr := 0x200fe0\<rparr>) no_files = Ok (l', no_files)
    \<and> log_pending 0x1000 l' = []"
  using flush_logger_open_fails [of "demo_io\<lparr>sys_open := \<lambda>fn m io. (- 13, io)\<rparr>" "0x1000"
      "demo_logger\<lparr>asm_curr_ptr := 0x1010, asm_end_ptr := 0x200fe0\<rparr>" no_files "\<lambda>_ _. 0"] demo_bb_inv
  by (auto simp: open_spec_def logger_inv_def demo_logger_def BIGBUFFER_SZ_def)

lemma flush_all_logger_Ok:
  "\<lbrakk>\<forall>l\<in>set ls. log_inv k base (l, io); distinct (map log_fn ls)\<rbrakk>
    \<Longrightarrow> \<exists>ls' io'. flush_all_logger k wrkmem base ls io = Ok (ls', io') \<and> length ls' = length ls
      \<and> (\<forall>i<length ls. log_stream (ls' ! i) io' = Some (log_data base (ls ! i, io)) \<and> log_pending base (ls' ! i) = [])
      \<and> (\<forall>fn. fn \<notin> log_fn ` set ls \<longrightarrow> content fn io' = content fn io) \<and> map log_fn ls' = map log_fn ls"
proof (induction ls arbitrary: io)
  case (Cons l ls)
  have "log_inv k base (l, io)" using Cons.prems(1) by simp
  then obtain l1 io1 where f: "flush_logger k wrkmem base l io = Ok (l1, io1)" "log_inv k base (l1, io1)"
      "log_data base (l1, io1) = log_data base (l, io)" "log_off base l1 = 0" "log_fn l1 = log_fn l"
      "fds io1 = fds io" "\<forall>fn. fn \<noteq> log_fn l \<longrightarrow> content fn io1 = content fn io"
    using flush_logger_Ok [of k base l io wrkmem] by blast
  have same: "log_stream l' io1 = log_stream l' io" if "l' \<in> set ls" for l'
  proof -
    have "log_fn l' \<noteq> log_fn l" using Cons.prems(2) imageI [OF that, of log_fn] by auto
    then show ?thesis using f(7) by (simp add: log_stream_def)
  qed
  have inv: "\<forall>l\<in>set ls. log_inv k base (l, io1)"
    using Cons.prems(1) same f(6) by (simp add: log_inv_def fd_free_def)
  obtain ls' io' where r: "flush_all_logger k wrkmem base ls io1 = Ok (ls', io')" "length ls' = length ls"
      "\<forall>i<length ls. log_stream (ls' ! i) io' = Some (log_data base (ls ! i, io1)) \<and> log_pending base (ls' ! i) = []"
      "\<forall>fn. fn \<notin> log_fn ` set ls \<longrightarrow> content fn io' = content fn io1" "map log_fn ls' = map log_fn ls"
    using Cons.IH [OF inv] Cons.prems(2) by auto
  have p1: "log_pending base l1 = []" using f(4) by (simp add: log_pending_def)
  have "log_fn l \<notin> log_fn ` set ls" using Cons.prems(2) by auto
  then have "log_stream l1 io' = log_stream l1 io1" using r(4) f(5) by (simp add: log_stream_def)
  also have "\<dots> = Some (log_data base (l, io))"
    using f(2,3) p1 by (auto simp: log_inv_def log_data_def)
  finally have s1: "log_stream l1 io' = Some (log_data base (l, io))" .
  have d: "log_data base (ls ! i, io1) = log_data base (ls ! i, io)" if "i < length ls" for i
    using same [of "ls ! i"] that by (simp add: log_data_def)
  show ?case
    using f(1,5,7) r d s1 p1
    by (intro exI [of _ "l1 # ls'"] exI [of _ io']) (auto simp: nth_Cons less_Suc_eq_0_disj split: nat.splits)
qed simp

text \<open>
  C21.  \<^verbatim>\<open>flush_all_logger\<close> flushes every live thread: afterwards the log file of each of
  them, decompressed, holds everything that thread has logged.  The files are distinct because
  their names contain the thread id.
\<close>

theorem flush_all_logger_complete:
  assumes "\<forall>l\<in>set ls. log_inv k base (l, io)" "distinct (map log_fn ls)"
  shows "\<exists>ls' io'. flush_all_logger k wrkmem base ls io = Ok (ls', io')
    \<and> list_all2 (\<lambda>l l'. log_fn l' = log_fn l \<and> log_pending base l' = []
        \<and> stream COMP_FILE_HEADER (content (log_fn l) io') = Some (log_data base (l, io))) ls ls'"
proof -
  obtain ls' io' where r: "flush_all_logger k wrkmem base ls io = Ok (ls', io')" "length ls' = length ls"
      "\<forall>i<length ls. log_stream (ls' ! i) io' = Some (log_data base (ls ! i, io)) \<and> log_pending base (ls' ! i) = []"
      "map log_fn ls' = map log_fn ls"
    using flush_all_logger_Ok [OF assms, of wrkmem] by blast
  have fn: "log_fn (ls' ! i) = log_fn (ls ! i)" if "i < length ls" for i
    using arg_cong [OF r(4), of "\<lambda>xs. xs ! i"] r(2) that by simp
  show ?thesis
    using r fn by (intro exI [of _ ls'] exI [of _ io']) (auto simp: list_all2_conv_all_nth log_stream_def)
qed

lemma demo_logger_inv:
  "log_inv demo_io 0x1000 (demo_logger\<lparr>log_fn := ''a'', asm_curr_ptr := 0x1002, asm_end_ptr := 0x200fe0\<rparr>,
    written ''a'' COMP_FILE_HEADER no_files)"
  using demo_io_reliable demo_free demo_bb_inv
  by (simp add: log_inv_def logger_inv_def demo_logger_def BIGBUFFER_SZ_def log_stream_def fd_free_def)
    (simp add: content_def no_files_def)

theorem flush_all_logger_complete_witness:
  "\<exists>ls' io'. flush_all_logger demo_io (\<lambda>_ _. 0) 0x1000
      [demo_logger\<lparr>log_fn := ''a'', asm_curr_ptr := 0x1002, asm_end_ptr := 0x200fe0\<rparr>]
      (written ''a'' COMP_FILE_HEADER no_files) = Ok (ls', io')
    \<and> stream COMP_FILE_HEADER (content ''a'' io') = Some [0, 0]"
proof -
  let ?l = "demo_logger\<lparr>log_fn := ''a'', asm_curr_ptr := 0x1002, asm_end_ptr := 0x200fe0\<rparr>"
  let ?io = "written ''a'' COMP_FILE_HEADER no_files"
  have "content ''a'' no_files = []" by (simp add: content_def no_files_def)
  moreover have "replicate 2 (0 :: byte) = [0, 0]" by (simp add: numeral_2_eq_2)
  ultimately have d: "log_data 0x1000 (?l, ?io) = [0, 0]"
    by (simp add: log_data_def log_stream_def log_pending_def log_off_def demo_logger_def demo_bb_def
        BIGBUFFER_SZ_def)
  show ?thesis
    using flush_all_logger_complete [of "[?l]" demo_io "0x1000" ?io "\<lambda>_ _. 0"] demo_logger_inv d
    by (auto simp: list_all2_Cons1)
qed

end
