(* ===== verification/Ctype.thy ===== *)
theory Ctype
  imports Prelude
begin

text \<open>
  Character classes (\<^verbatim>\<open>src/lib/ctype.c\<close> and the macros of
  \<^verbatim>\<open>linux-include/include/linux/ctype.h\<close>): a table of 256 flag bytes, tested with a
  mask.  The lemmas give each class as a set of codes.
\<close>

unbundle bit_operations_syntax

definition c_U :: byte where "c_U = 0x01"
definition c_L :: byte where "c_L = 0x02"
definition c_D :: byte where "c_D = 0x04"
definition c_C :: byte where "c_C = 0x08"
definition c_P :: byte where "c_P = 0x10"
definition c_S :: byte where "c_S = 0x20"
definition c_X :: byte where "c_X = 0x40"
definition c_SP :: byte where "c_SP = 0x80"

definition ctype_table :: "byte list" where
  "ctype_table = [
     c_C, c_C, c_C, c_C, c_C, c_C, c_C, c_C,
     c_C, c_C OR c_S, c_C OR c_S, c_C OR c_S, c_C OR c_S, c_C OR c_S, c_C, c_C,
     c_C, c_C, c_C, c_C, c_C, c_C, c_C, c_C,
     c_C, c_C, c_C, c_C, c_C, c_C, c_C, c_C,
     c_S OR c_SP, c_P, c_P, c_P, c_P, c_P, c_P, c_P,
     c_P, c_P, c_P, c_P, c_P, c_P, c_P, c_P,
     c_D, c_D, c_D, c_D, c_D, c_D, c_D, c_D,
     c_D, c_D, c_P, c_P, c_P, c_P, c_P, c_P,
     c_P, c_U OR c_X, c_U OR c_X, c_U OR c_X, c_U OR c_X, c_U OR c_X, c_U OR c_X, c_U,
     c_U, c_U, c_U, c_U, c_U, c_U, c_U, c_U,
     c_U, c_U, c_U, c_U, c_U, c_U, c_U, c_U,
     c_U, c_U, c_U, c_P, c_P, c_P, c_P, c_P,
     c_P, c_L OR c_X, c_L OR c_X, c_L OR c_X, c_L OR c_X, c_L OR c_X, c_L OR c_X, c_L,
     c_L, c_L, c_L, c_L, c_L, c_L, c_L, c_L,
     c_L, c_L, c_L, c_L, c_L, c_L, c_L, c_L,
     c_L, c_L, c_L, c_P, c_P, c_P, c_P, c_C,
     0, 0, 0, 0, 0, 0, 0, 0, 0, 0, 0, 0, 0, 0, 0, 0,
     0, 0, 0, 0, 0, 0, 0, 0, 0, 0, 0, 0, 0, 0, 0, 0,
     c_S OR c_SP, c_P, c_P, c_P, c_P, c_P, c_P, c_P, c_P, c_P, c_P, c_P, c_P, c_P, c_P, c_P,
     c_P, c_P, c_P, c_P, c_P, c_P, c_P, c_P, c_P, c_P, c_P, c_P, c_P, c_P, c_P, c_P,
     c_U, c_U, c_U, c_U, c_U, c_U, c_U, c_U, c_U, c_U, c_U, c_U, c_U, c_U, c_U, c_U,
     c_U, c_U, c_U, c_U, c_U, c_U, c_U, c_P, c_U, c_U, c_U, c_U, c_U, c_U, c_U, c_L,
     c_L, c_L, c_L, c_L, c_L, c_L, c_L, c_L, c_L, c_L, c_L, c_L, c_L, c_L, c_L, c_L,
     c_L, c_L, c_L, c_L, c_L, c_L, c_L, c_P, c_L, c_L, c_L, c_L, c_L, c_L, c_L, c_L]"

definition ismask :: "byte \<Rightarrow> byte" where
  "ismask c = ctype_table ! unat c"

definition isalnum :: "byte \<Rightarrow> bool" where "isalnum c \<longleftrightarrow> ismask c AND (c_U OR c_L OR c_D) \<noteq> 0"
definition isalpha :: "byte \<Rightarrow> bool" where "isalpha c \<longleftrightarrow> ismask c AND (c_U OR c_L) \<noteq> 0"
definition iscntrl :: "byte \<Rightarrow> bool" where "iscntrl c \<longleftrightarrow> ismask c AND c_C \<noteq> 0"
definition isdigit :: "byte \<Rightarrow> bool" where "isdigit c \<longleftrightarrow> ismask c AND c_D \<noteq> 0"
definition isgraph :: "byte \<Rightarrow> bool" where "isgraph c \<longleftrightarrow> ismask c AND (c_P OR c_U OR c_L OR c_D) \<noteq> 0"
definition islower :: "byte \<Rightarrow> bool" where "islower c \<longleftrightarrow> ismask c AND c_L \<noteq> 0"
definition isprint :: "byte \<Rightarrow> bool" where "isprint c \<longleftrightarrow> ismask c AND (c_P OR c_U OR c_L OR c_D OR c_SP) \<noteq> 0"
definition ispunct :: "byte \<Rightarrow> bool" where "ispunct c \<longleftrightarrow> ismask c AND c_P \<noteq> 0"
definition isspace :: "byte \<Rightarrow> bool" where "isspace c \<longleftrightarrow> ismask c AND c_S \<noteq> 0"
definition isupper :: "byte \<Rightarrow> bool" where "isupper c \<longleftrightarrow> ismask c AND c_U \<noteq> 0"
definition isxdigit :: "byte \<Rightarrow> bool" where "isxdigit c \<longleftrightarrow> ismask c AND (c_D OR c_X) \<noteq> 0"
definition isascii :: "byte \<Rightarrow> bool" where "isascii c \<longleftrightarrow> c \<le> 0x7f"
definition toascii :: "byte \<Rightarrow> byte" where "toascii c = c AND 0x7f"

definition tolower :: "byte \<Rightarrow> byte" where
  "tolower c = (if isupper c then c - (0x41 - 0x61) else c)"

definition toupper :: "byte \<Rightarrow> byte" where
  "toupper c = (if islower c then c - (0x61 - 0x41) else c)"

subsection \<open>The classes as sets of codes\<close>

lemmas class_masks = c_U_def c_L_def c_D_def c_C_def c_P_def c_S_def c_X_def c_SP_def

lemma length_ctype_table: "length ctype_table = 256"
  by (simp add: ctype_table_def)

text \<open>A test on the table is a test on the code, if it is for each of the 256 entries.\<close>

lemma class_codes:
  assumes "map (\<lambda>x. x AND m \<noteq> 0) ctype_table = map P [0..<256]"
  shows "ismask c AND m \<noteq> 0 \<longleftrightarrow> P (unat c)"
proof -
  have "map (\<lambda>x. x AND m \<noteq> 0) ctype_table ! unat c = map P [0..<256] ! unat c" by (simp only: assms)
  then show ?thesis using unat_less_8 [of c] by (simp add: ismask_def length_ctype_table)
qed

lemma isspace_codes: "isspace c \<longleftrightarrow> unat c \<in> {9, 10, 11, 12, 13, 32, 160}"
  unfolding isspace_def by (rule class_codes) code_simp

lemma isdigit_codes: "isdigit c \<longleftrightarrow> 48 \<le> unat c \<and> unat c \<le> 57"
  unfolding isdigit_def by (rule class_codes) code_simp

lemma isxdigit_codes:
  "isxdigit c \<longleftrightarrow> 48 \<le> unat c \<and> unat c \<le> 57 \<or> 65 \<le> unat c \<and> unat c \<le> 70 \<or> 97 \<le> unat c \<and> unat c \<le> 102"
  unfolding isxdigit_def by (rule class_codes) code_simp

lemma isupper_codes:
  "isupper c \<longleftrightarrow> 65 \<le> unat c \<and> unat c \<le> 90 \<or> 192 \<le> unat c \<and> unat c \<le> 222 \<and> unat c \<noteq> 215"
  unfolding isupper_def by (rule class_codes) code_simp

lemma islower_codes:
  "islower c \<longleftrightarrow> 97 \<le> unat c \<and> unat c \<le> 122 \<or> 223 \<le> unat c \<and> unat c \<noteq> 247"
  unfolding islower_def by (rule class_codes) code_simp

lemma isalpha_codes: "isalpha c \<longleftrightarrow> isupper c \<or> islower c"
  unfolding isupper_codes islower_codes isalpha_def by (rule class_codes) code_simp

lemma isalnum_codes: "isalnum c \<longleftrightarrow> isalpha c \<or> isdigit c"
  unfolding isalpha_codes isupper_codes islower_codes isdigit_codes isalnum_def by (rule class_codes) code_simp

lemma isprint_codes: "isprint c \<longleftrightarrow> 32 \<le> unat c \<and> unat c \<le> 126 \<or> 160 \<le> unat c"
  unfolding isprint_def by (rule class_codes) code_simp

lemma isspace_not_0 [simp]: "\<not> isspace 0"
  by (simp add: isspace_codes)

text \<open>
  Lower-casing moves an upper-case code by 32.
\<close>

lemma unat_tolower: "unat (tolower c) = (if isupper c then unat c + 32 else unat c)"
proof (cases "isupper c")
  case True
  then have u: "unat c \<le> 222" by (auto simp: isupper_codes)
  have "tolower c = c + 32" using True by (simp add: tolower_def)
  then show ?thesis using u True by (simp add: unat_word_ariths)
qed (simp add: tolower_def)

lemma tolower_not_upper: "\<not> isupper (tolower c)"
  by (auto simp: isupper_codes unat_tolower)

lemma tolower_idem [simp]: "tolower (tolower c) = tolower c"
  using tolower_not_upper [of c] by (simp add: tolower_def [of "tolower c"])

lemma tolower_0 [simp]: "tolower c = 0 \<longleftrightarrow> c = 0"
proof
  assume "tolower c = 0"
  then have "unat (tolower c) = 0" by simp
  then show "c = 0" by (auto simp: unat_tolower isupper_codes unat_eq_zero split: if_splits)
qed (simp add: tolower_def isupper_codes)

lemma tolower_zero [simp]: "tolower 0 = 0"
  by simp

end
