(* ===== verification/Cstring.thy ===== *)
theory Cstring
  imports Ctype "HOL-Library.List_Lexorder" "HOL-Library.Sublist"
begin

text \<open>
  The string functions (\<^verbatim>\<open>src/lib/string.c\<close>) over a byte-addressed memory.  A pointer is
  an address, \<^verbatim>\<open>NULL\<close> is \<open>None\<close>, and a function that writes returns the new memory.  A
  loop that runs up to the terminating NUL is a partial function: \<open>None\<close> means that it does
  not return.  Loops over a count are recursive in the count.

  \<open>cstr m p s\<close> says that the NUL-terminated string \<open>s\<close> is at \<open>p\<close>.  For every function
  a lemma gives its result in terms of lists.
\<close>

type_synonym mem = "nat \<Rightarrow> byte"

definition cstr :: "mem \<Rightarrow> nat \<Rightarrow> byte list \<Rightarrow> bool" where
  "cstr m p s \<longleftrightarrow> (\<forall>i<length s. m (p + i) = s ! i) \<and> 0 \<notin> set s \<and> m (p + length s) = 0"

definition bytes_at :: "mem \<Rightarrow> nat \<Rightarrow> nat \<Rightarrow> byte list" where
  "bytes_at m p n = map (\<lambda>i. m (p + i)) [0..<n]"

subsection \<open>Lengths\<close>

partial_function (option) strlen_loop :: "mem \<Rightarrow> nat \<Rightarrow> nat option" where
  "strlen_loop m sc = (if m sc \<noteq> 0 then strlen_loop m (Suc sc) else Some sc)"

definition strlen :: "mem \<Rightarrow> nat \<Rightarrow> nat option" where
  "strlen m s = map_option (\<lambda>sc. sc - s) (strlen_loop m s)"

fun strnlen_loop :: "mem \<Rightarrow> nat \<Rightarrow> nat \<Rightarrow> nat" where
  "strnlen_loop m sc 0 = sc"
| "strnlen_loop m sc (Suc count) = (if m sc \<noteq> 0 then strnlen_loop m (Suc sc) count else sc)"

definition strnlen :: "mem \<Rightarrow> nat \<Rightarrow> nat \<Rightarrow> nat" where
  "strnlen m s count = strnlen_loop m s count - s"

subsection \<open>Memory areas\<close>

fun memset :: "mem \<Rightarrow> nat \<Rightarrow> byte \<Rightarrow> nat \<Rightarrow> mem" where
  "memset m xs c 0 = m"
| "memset m xs c (Suc count) = memset (m(xs := c)) (Suc xs) c count"

fun memcpy :: "mem \<Rightarrow> nat \<Rightarrow> nat \<Rightarrow> nat \<Rightarrow> mem" where
  "memcpy m tmp s 0 = m"
| "memcpy m tmp s (Suc count) = memcpy (m(tmp := m s)) (Suc tmp) (Suc s) count"

text \<open>The loop of \<^verbatim>\<open>memmove\<close> that runs downwards from the ends.\<close>

fun memcpy_down :: "mem \<Rightarrow> nat \<Rightarrow> nat \<Rightarrow> nat \<Rightarrow> mem" where
  "memcpy_down m tmp s 0 = m"
| "memcpy_down m tmp s (Suc count) = memcpy_down (m(tmp - 1 := m (s - 1))) (tmp - 1) (s - 1) count"

definition memmove :: "mem \<Rightarrow> nat \<Rightarrow> nat \<Rightarrow> nat \<Rightarrow> mem" where
  "memmove m dest src count =
    (if dest \<le> src then memcpy m dest src count else memcpy_down m (dest + count) (src + count) count)"

fun memcmp :: "mem \<Rightarrow> nat \<Rightarrow> nat \<Rightarrow> nat \<Rightarrow> int" where
  "memcmp m su1 su2 0 = 0"
| "memcmp m su1 su2 (Suc count) =
    (let res = int (unat (m su1)) - int (unat (m su2))
     in if res \<noteq> 0 then res else memcmp m (Suc su1) (Suc su2) count)"

fun memscan :: "mem \<Rightarrow> nat \<Rightarrow> int \<Rightarrow> nat \<Rightarrow> nat" where
  "memscan m p c 0 = p"
| "memscan m p c (Suc sz) = (if int (unat (m p)) = c then p else memscan m (Suc p) c sz)"

fun memchr :: "mem \<Rightarrow> nat \<Rightarrow> byte \<Rightarrow> nat \<Rightarrow> nat option" where
  "memchr m p c 0 = None"
| "memchr m p c (Suc n) = (if c = m p then Some p else memchr m (Suc p) c n)"

subsection \<open>Copying and concatenating\<close>

partial_function (option) strcpy :: "mem \<Rightarrow> nat \<Rightarrow> nat \<Rightarrow> mem option" where
  "strcpy m dest src =
    (let m = m(dest := m src) in if m dest \<noteq> 0 then strcpy m (Suc dest) (Suc src) else Some m)"

fun strncpy :: "mem \<Rightarrow> nat \<Rightarrow> nat \<Rightarrow> nat \<Rightarrow> mem" where
  "strncpy m tmp src 0 = m"
| "strncpy m tmp src (Suc count) =
    (let m = m(tmp := m src) in strncpy m (Suc tmp) (if m tmp \<noteq> 0 then Suc src else src) count)"

definition strlcpy :: "mem \<Rightarrow> nat \<Rightarrow> nat \<Rightarrow> nat \<Rightarrow> (nat \<times> mem) option" where
  "strlcpy m dest src sz =
    Option.bind (strlen m src) (\<lambda>ret.
      if sz \<noteq> 0 then
        let len = (if sz \<le> ret then sz - 1 else ret);
            m = memcpy m dest src len
        in Some (ret, m(dest + len := 0))
      else Some (ret, m))"

definition strcat :: "mem \<Rightarrow> nat \<Rightarrow> nat \<Rightarrow> mem option" where
  "strcat m dest src = Option.bind (strlen_loop m dest) (\<lambda>dest. strcpy m dest src)"

text \<open>\<open>count\<close> is positive in the loop.\<close>

fun strncat_loop :: "mem \<Rightarrow> nat \<Rightarrow> nat \<Rightarrow> nat \<Rightarrow> mem" where
  "strncat_loop m dest src 0 = m"
| "strncat_loop m dest src (Suc count) =
    (let m = m(dest := m src)
     in if m dest \<noteq> 0 then
          (if count = 0 then m(Suc dest := 0) else strncat_loop m (Suc dest) (Suc src) count)
        else m)"

definition strncat :: "mem \<Rightarrow> nat \<Rightarrow> nat \<Rightarrow> nat \<Rightarrow> mem option" where
  "strncat m dest src count =
    (if count \<noteq> 0 then map_option (\<lambda>dest. strncat_loop m dest src count) (strlen_loop m dest) else Some m)"

text \<open>\<^verbatim>\<open>BUG_ON(dsize >= count)\<close> stops the program.\<close>

definition strlcat :: "mem \<Rightarrow> nat \<Rightarrow> nat \<Rightarrow> nat \<Rightarrow> (nat \<times> mem) run option" where
  "strlcat m dest src count =
    Option.bind (strlen m dest) (\<lambda>dsize.
    Option.bind (strlen m src) (\<lambda>len.
      let res = dsize + len
      in if count \<le> dsize then Some (Stop Assertion)
         else
           let dest = dest + dsize; count = count - dsize;
               len = (if count \<le> len then count - 1 else len);
               m = memcpy m dest src len
           in Some (Ok (res, m(dest + len := 0)))))"

subsection \<open>Comparing\<close>

partial_function (option) strcmp :: "mem \<Rightarrow> nat \<Rightarrow> nat \<Rightarrow> int option" where
  "strcmp m cs ct =
    (let c1 = m cs; c2 = m ct
     in if c1 \<noteq> c2 then Some (if c1 < c2 then - 1 else 1)
        else if c1 = 0 then Some 0
        else strcmp m (Suc cs) (Suc ct))"

fun strncmp :: "mem \<Rightarrow> nat \<Rightarrow> nat \<Rightarrow> nat \<Rightarrow> int" where
  "strncmp m cs ct 0 = 0"
| "strncmp m cs ct (Suc count) =
    (let c1 = m cs; c2 = m ct
     in if c1 \<noteq> c2 then (if c1 < c2 then - 1 else 1)
        else if c1 = 0 then 0
        else strncmp m (Suc cs) (Suc ct) count)"

primrec strnicmp :: "mem \<Rightarrow> nat \<Rightarrow> nat \<Rightarrow> nat \<Rightarrow> int" where
  "strnicmp m s1 s2 0 = 0"
| "strnicmp m s1 s2 (Suc len) =
    (let c1 = m s1; c2 = m s2
     in if c1 = 0 \<or> c2 = 0 then int (unat c1) - int (unat c2)
        else if c1 = c2 then (if len = 0 then int (unat c1) - int (unat c2) else strnicmp m (Suc s1) (Suc s2) len)
        else
          let c1 = tolower c1; c2 = tolower c2
          in if c1 \<noteq> c2 then int (unat c1) - int (unat c2)
             else if len = 0 then int (unat c1) - int (unat c2)
             else strnicmp m (Suc s1) (Suc s2) len)"

partial_function (option) strcasecmp :: "mem \<Rightarrow> nat \<Rightarrow> nat \<Rightarrow> int option" where
  "strcasecmp m s1 s2 =
    (let c1 = tolower (m s1); c2 = tolower (m s2)
     in if c1 = c2 \<and> c1 \<noteq> 0 then strcasecmp m (Suc s1) (Suc s2)
        else Some (int (unat c1) - int (unat c2)))"

text \<open>\<^verbatim>\<open>strncasecmp\<close> decrements \<open>n\<close> before it tests it: a zero wraps around.\<close>

partial_function (option) strncasecmp :: "mem \<Rightarrow> nat \<Rightarrow> nat \<Rightarrow> nat \<Rightarrow> int option" where
  "strncasecmp m s1 s2 n =
    (let c1 = tolower (m s1); c2 = tolower (m s2); n = (if n = 0 then 2 ^ 32 - 1 else n - 1)
     in if 0 < n \<and> c1 = c2 \<and> c1 \<noteq> 0 then strncasecmp m (Suc s1) (Suc s2) n
        else Some (int (unat c1) - int (unat c2)))"

partial_function (option) sysfs_streq :: "mem \<Rightarrow> nat \<Rightarrow> nat \<Rightarrow> bool option" where
  "sysfs_streq m s1 s2 =
    (if m s1 \<noteq> 0 \<and> m s1 = m s2 then sysfs_streq m (Suc s1) (Suc s2)
     else Some (if m s1 = m s2 then True
       else if m s1 = 0 \<and> m s2 = 10 \<and> m (Suc s2) = 0 then True
       else if m s1 = 10 \<and> m (Suc s1) = 0 \<and> m s2 = 0 then True
       else False))"

subsection \<open>Searching\<close>

partial_function (option) strchr :: "mem \<Rightarrow> nat \<Rightarrow> byte \<Rightarrow> nat option option" where
  "strchr m s c =
    (if m s \<noteq> c then (if m s = 0 then Some None else strchr m (Suc s) c) else Some (Some s))"

text \<open>The loop of \<^verbatim>\<open>strrchr\<close> from \<open>p\<close> down to \<open>s\<close>; its argument is \<open>p - s\<close>.\<close>

fun strrchr_loop :: "mem \<Rightarrow> nat \<Rightarrow> nat \<Rightarrow> byte \<Rightarrow> nat option" where
  "strrchr_loop m s 0 c = (if m s = c then Some s else None)"
| "strrchr_loop m s (Suc d) c = (if m (s + Suc d) = c then Some (s + Suc d) else strrchr_loop m s d c)"

definition strrchr :: "mem \<Rightarrow> nat \<Rightarrow> byte \<Rightarrow> nat option option" where
  "strrchr m s c = map_option (\<lambda>len. strrchr_loop m s len c) (strlen m s)"

fun strnchr :: "mem \<Rightarrow> nat \<Rightarrow> nat \<Rightarrow> byte \<Rightarrow> nat option" where
  "strnchr m s 0 c = None"
| "strnchr m s (Suc count) c =
    (if m s \<noteq> 0 then (if m s = c then Some s else strnchr m (Suc s) count c) else None)"

partial_function (option) skip_spaces :: "mem \<Rightarrow> nat \<Rightarrow> nat option" where
  "skip_spaces m str = (if isspace (m str) then skip_spaces m (Suc str) else Some str)"

text \<open>The loop of \<^verbatim>\<open>strim\<close> from \<open>s + n\<close> down: the number of characters kept.\<close>

fun strim_loop :: "mem \<Rightarrow> nat \<Rightarrow> nat \<Rightarrow> nat" where
  "strim_loop m s 0 = 0"
| "strim_loop m s (Suc n) = (if isspace (m (s + n)) then strim_loop m s n else Suc n)"

definition strim :: "mem \<Rightarrow> nat \<Rightarrow> (nat \<times> mem) option" where
  "strim m s =
    Option.bind (skip_spaces m s) (\<lambda>s.
    Option.bind (strlen m s) (\<lambda>sz.
      if sz = 0 then Some (s, m) else Some (s, m(s + strim_loop m s sz := 0))))"

text \<open>
  The inner loops of \<^verbatim>\<open>strspn\<close>, \<^verbatim>\<open>strcspn\<close> and \<^verbatim>\<open>strpbrk\<close>: whether
  the character is in the set.
\<close>

partial_function (option) in_set :: "mem \<Rightarrow> nat \<Rightarrow> byte \<Rightarrow> bool option" where
  "in_set m a c = (if m a \<noteq> 0 then (if c = m a then Some True else in_set m (Suc a) c) else Some False)"

partial_function (option) strspn_loop :: "mem \<Rightarrow> nat \<Rightarrow> nat \<Rightarrow> nat \<Rightarrow> nat option" where
  "strspn_loop m p accept count =
    (if m p \<noteq> 0 then
       Option.bind (in_set m accept (m p)) (\<lambda>found.
         if \<not> found then Some count else strspn_loop m (Suc p) accept (Suc count))
     else Some count)"

definition strspn :: "mem \<Rightarrow> nat \<Rightarrow> nat \<Rightarrow> nat option" where
  "strspn m s accept = strspn_loop m s accept 0"

partial_function (option) strcspn_loop :: "mem \<Rightarrow> nat \<Rightarrow> nat \<Rightarrow> nat \<Rightarrow> nat option" where
  "strcspn_loop m p reject count =
    (if m p \<noteq> 0 then
       Option.bind (in_set m reject (m p)) (\<lambda>found.
         if found then Some count else strcspn_loop m (Suc p) reject (Suc count))
     else Some count)"

definition strcspn :: "mem \<Rightarrow> nat \<Rightarrow> nat \<Rightarrow> nat option" where
  "strcspn m s reject = strcspn_loop m s reject 0"

partial_function (option) strpbrk :: "mem \<Rightarrow> nat \<Rightarrow> nat \<Rightarrow> nat option option" where
  "strpbrk m sc1 ct =
    (if m sc1 \<noteq> 0 then
       Option.bind (in_set m ct (m sc1)) (\<lambda>found.
         if found then Some (Some sc1) else strpbrk m (Suc sc1) ct)
     else Some None)"

text \<open>The returned token, the new value of \<^verbatim>\<open>*s\<close> and the memory.\<close>

definition strsep :: "mem \<Rightarrow> nat option \<Rightarrow> nat \<Rightarrow> (nat option \<times> nat option \<times> mem) option" where
  "strsep m s ct = (case s of
      None \<Rightarrow> Some (None, None, m)
    | Some sbegin \<Rightarrow>
        Option.bind (strpbrk m sbegin ct) (\<lambda>r. case r of
            Some e \<Rightarrow> Some (Some sbegin, Some (Suc e), m(e := 0))
          | None \<Rightarrow> Some (Some sbegin, None, m)))"

function strstr_loop :: "mem \<Rightarrow> nat \<Rightarrow> nat \<Rightarrow> nat \<Rightarrow> nat \<Rightarrow> nat option" where
  "strstr_loop m s1 s2 l1 l2 =
    (if l2 \<le> l1 \<and> 0 < l2 then
       (if memcmp m s1 s2 l2 = 0 then Some s1 else strstr_loop m (Suc s1) s2 (l1 - 1) l2)
     else None)"
  by pat_completeness auto

termination
  by (relation "measure (\<lambda>(m, s1, s2, l1, l2). l1)") auto

declare strstr_loop.simps [simp del]

definition strstr :: "mem \<Rightarrow> nat \<Rightarrow> nat \<Rightarrow> nat option option" where
  "strstr m s1 s2 =
    Option.bind (strlen m s2) (\<lambda>l2.
      if l2 = 0 then Some (Some s1)
      else Option.bind (strlen m s1) (\<lambda>l1. Some (strstr_loop m s1 s2 l1 l2)))"

definition strnstr :: "mem \<Rightarrow> nat \<Rightarrow> nat \<Rightarrow> nat \<Rightarrow> nat option option" where
  "strnstr m s1 s2 len =
    Option.bind (strlen m s2) (\<lambda>l2.
      if l2 = 0 then Some (Some s1) else Some (strstr_loop m s1 s2 len l2))"

subsection \<open>Strings in memory\<close>

lemma uint_byte_eq [simp]: "uint a = uint b \<longleftrightarrow> a = b" "uint a = 0 \<longleftrightarrow> a = 0" "0 = uint a \<longleftrightarrow> a = 0"
  for a b :: byte
  using word_uint_eq_iff [of a b] word_uint_eq_iff [of a 0] by auto

lemma cstr_Nil [simp]: "cstr m p [] \<longleftrightarrow> m p = 0"
  by (simp add: cstr_def)

lemma cstr_Cons [simp]: "cstr m p (c # s) \<longleftrightarrow> m p = c \<and> c \<noteq> 0 \<and> cstr m (Suc p) s"
proof -
  have "(\<forall>i<length (c # s). m (p + i) = (c # s) ! i) \<longleftrightarrow> m p = c \<and> (\<forall>i<length s. m (Suc p + i) = s ! i)"
    by (auto simp: less_Suc_eq_0_disj)
  then show ?thesis by (auto simp: cstr_def)
qed

lemma cstr_append:
  "cstr m p (s @ t) \<longleftrightarrow> (\<forall>i<length s. m (p + i) = s ! i) \<and> 0 \<notin> set s \<and> cstr m (p + length s) t"
  by (induction s arbitrary: p) (auto simp: less_Suc_eq_0_disj)

lemma cstr_unique: "cstr m p s \<Longrightarrow> cstr m p t \<Longrightarrow> s = t"
  by (induction s arbitrary: p t) (case_tac t; auto)+

lemma cstr_cong:
  assumes "\<And>i. i \<le> length s \<Longrightarrow> m' (p' + i) = m (p + i)"
  shows "cstr m' p' s = cstr m p s"
  using assms by (simp add: cstr_def)

lemma strlen_loop_cstr: "cstr m p s \<Longrightarrow> strlen_loop m p = Some (p + length s)"
proof (induction s arbitrary: p)
  case Nil
  then show ?case by (subst strlen_loop.simps) simp
next
  case (Cons c s)
  then show ?case by (subst strlen_loop.simps) simp
qed

lemma strlen_cstr [simp]: "cstr m p s \<Longrightarrow> strlen m p = Some (length s)"
  by (simp add: strlen_def strlen_loop_cstr)

lemma strnlen_loop_cstr: "cstr m p s \<Longrightarrow> strnlen_loop m p n = p + min n (length s)"
  by (induction m p n arbitrary: s rule: strnlen_loop.induct) (case_tac s; auto)+

lemma strnlen_cstr: "cstr m p s \<Longrightarrow> strnlen m p n = min n (length s)"
  by (simp add: strnlen_def strnlen_loop_cstr)

subsection \<open>Memory areas\<close>

definition copied :: "mem \<Rightarrow> nat \<Rightarrow> nat \<Rightarrow> nat \<Rightarrow> mem" where
  "copied m d s n = (\<lambda>a. if d \<le> a \<and> a < d + n then m (s + (a - d)) else m a)"

lemma memcpy_copied: "d \<le> s \<or> s + n \<le> d \<Longrightarrow> memcpy m d s n = copied m d s n"
proof (induction n arbitrary: m d s)
  case (Suc n)
  have "memcpy m d s (Suc n) = copied (m(d := m s)) (Suc d) (Suc s) n"
    unfolding memcpy.simps using Suc.prems by (intro Suc.IH) auto
  also have "\<dots> = copied m d s (Suc n)"
    using Suc.prems by (auto simp: copied_def fun_eq_iff Suc_diff_Suc)
  finally show ?case .
qed (auto simp: copied_def fun_eq_iff)

lemma memcpy_down_copied: "s \<le> d \<Longrightarrow> memcpy_down m (d + n) (s + n) n = copied m d s n"
proof (induction n arbitrary: m)
  case (Suc n)
  have "memcpy_down m (d + Suc n) (s + Suc n) (Suc n) = copied (m(d + n := m (s + n))) d s n"
    using Suc by simp
  also have "\<dots> = copied m d s (Suc n)" using Suc.prems by (auto simp: copied_def fun_eq_iff)
  finally show ?case .
qed (auto simp: copied_def fun_eq_iff)

lemma memset_bytes: "memset m p c n = (\<lambda>a. if p \<le> a \<and> a < p + n then c else m a)"
proof (induction n arbitrary: m p)
  case (Suc n)
  show ?case unfolding memset.simps Suc.IH by (auto simp: fun_eq_iff)
qed (auto simp: fun_eq_iff)

lemma bytes_at_Suc: "bytes_at m a (Suc n) = m a # bytes_at m (Suc a) n"
  by (simp add: bytes_at_def upt_conv_Cons map_Suc_upt [symmetric] del: upt_Suc)

lemma memcmp_zero: "memcmp m p q n = 0 \<longleftrightarrow> bytes_at m p n = bytes_at m q n"
  by (induction n arbitrary: p q) (auto simp: Let_def bytes_at_Suc bytes_at_def [of m _ 0])

lemma memchr_first:
  "memchr m p c n = (case List.find (\<lambda>i. m (p + i) = c) [0..<n] of None \<Rightarrow> None | Some i \<Rightarrow> Some (p + i))"
proof (induction m p c n rule: memchr.induct)
  case (2 m p c n)
  have shift: "List.find (\<lambda>i. m (p + i) = c) (map Suc xs) = map_option Suc (List.find (\<lambda>i. m (Suc p + i) = c) xs)" for xs
    by (induction xs) auto
  have "[0..<Suc n] = 0 # map Suc [0..<n]" by (simp add: upt_conv_Cons map_Suc_upt del: upt_Suc)
  then show ?case using 2 shift [of "[0..<n]"] by (auto split: option.splits)
qed simp

lemma memscan_first:
  "memscan m p c n = (case List.find (\<lambda>i. int (unat (m (p + i))) = c) [0..<n] of None \<Rightarrow> p + n | Some i \<Rightarrow> p + i)"
proof (induction m p c n rule: memscan.induct)
  case (2 m p c n)
  have shift: "List.find (\<lambda>i. int (unat (m (p + i))) = c) (map Suc xs)
      = map_option Suc (List.find (\<lambda>i. int (unat (m (Suc p + i))) = c) xs)" for xs
    by (induction xs) auto
  have "[0..<Suc n] = 0 # map Suc [0..<n]" by (simp add: upt_conv_Cons map_Suc_upt del: upt_Suc)
  then show ?case using 2 shift [of "[0..<n]"] by (auto split: option.splits)
qed simp

subsection \<open>Copying and concatenating\<close>

lemma cstr_copied:
  "cstr m src s \<Longrightarrow> n \<le> length s \<Longrightarrow> cstr ((copied m dest src n)(dest + n := 0)) dest (take n s)"
  by (auto simp: cstr_def copied_def dest: in_set_takeD)

lemma strcpy_cstr:
  "\<lbrakk>cstr m src s; dest \<le> src \<or> src + length s < dest\<rbrakk>
    \<Longrightarrow> strcpy m dest src = Some (copied m dest src (Suc (length s)))"
proof (induction s arbitrary: m dest src)
  case Nil
  then show ?case by (subst strcpy.simps) (auto simp: copied_def fun_eq_iff)
next
  case (Cons c s)
  define m1 where "m1 = m(dest := m src)"
  have "cstr m1 (Suc src) s"
    using Cons.prems by (subst cstr_cong [of s m1 "Suc src" m "Suc src"]) (auto simp: m1_def)
  then have "strcpy m1 (Suc dest) (Suc src) = Some (copied m1 (Suc dest) (Suc src) (Suc (length s)))"
    using Cons.prems(2) by (intro Cons.IH) auto
  moreover have "copied m1 (Suc dest) (Suc src) (Suc (length s)) = copied m dest src (Suc (length (c # s)))"
    using Cons.prems(2) by (auto simp: copied_def fun_eq_iff Suc_diff_Suc m1_def)
  moreover have "m1 dest = c" "c \<noteq> 0" using Cons.prems(1) by (simp_all add: m1_def)
  ultimately show ?case by (subst strcpy.simps) (simp add: Let_def flip: m1_def)
qed

lemma strcpy_result:
  assumes "cstr m src s" "dest \<le> src \<or> src + length s < dest"
  shows "\<exists>m'. strcpy m dest src = Some m' \<and> cstr m' dest s
    \<and> (\<forall>a. a < dest \<or> dest + length s < a \<longrightarrow> m' a = m a)"
proof -
  have "cstr (copied m dest src (Suc (length s))) dest s"
    using assms(1) by (auto simp: cstr_def copied_def)
  then show ?thesis using strcpy_cstr [OF assms] by (auto simp: copied_def)
qed

text \<open>\<^verbatim>\<open>strncpy\<close> pads with zeros and terminates only strings shorter than the count.\<close>

lemma strncpy_bytes:
  "\<lbrakk>cstr m src s; dest + n \<le> src \<or> src + length s < dest\<rbrakk>
    \<Longrightarrow> strncpy m dest src n = (\<lambda>a. if dest \<le> a \<and> a < dest + n
         then (if a - dest < length s then s ! (a - dest) else 0) else m a)"
proof (induction n arbitrary: m dest src s)
  case (Suc n)
  show ?case
  proof (cases s)
    case Nil
    define m1 where "m1 = m(dest := 0)"
    have "cstr m1 src []" using Suc.prems Nil by (auto simp: m1_def)
    note IH = Suc.IH [OF this, of "Suc dest"]
    have "strncpy m dest src (Suc n) = strncpy m1 (Suc dest) src n"
      using Suc.prems Nil by (simp add: Let_def m1_def)
    also have "\<dots> = (\<lambda>a. if Suc dest \<le> a \<and> a < Suc dest + n then 0 else m1 a)"
      using IH Suc.prems Nil by auto
    finally show ?thesis using Nil by (auto simp: fun_eq_iff m1_def)
  next
    case (Cons c t)
    define m1 where "m1 = m(dest := c)"
    have c: "m src = c" "c \<noteq> 0" using Suc.prems Cons by auto
    have "cstr m1 (Suc src) t"
      using Suc.prems Cons by (subst cstr_cong [of t m1 "Suc src" m "Suc src"]) (auto simp: m1_def)
    note IH = Suc.IH [OF this, of "Suc dest"]
    have "strncpy m dest src (Suc n) = strncpy m1 (Suc dest) (Suc src) n"
      using c by (simp add: Let_def m1_def)
    also have "\<dots> = (\<lambda>a. if Suc dest \<le> a \<and> a < Suc dest + n
        then (if a - Suc dest < length t then t ! (a - Suc dest) else 0) else m1 a)"
      using IH Suc.prems Cons by auto
    finally show ?thesis using Cons by (auto simp: fun_eq_iff m1_def nth_Cons' Suc_diff_Suc)
  qed
qed (auto simp: fun_eq_iff)

lemma strlcpy_result:
  assumes "cstr m src s" "dest + sz \<le> src \<or> src + length s < dest" "0 < sz"
  shows "\<exists>m'. strlcpy m dest src sz = Some (length s, m') \<and> cstr m' dest (take (sz - 1) s)
    \<and> (\<forall>a. a < dest \<or> dest + sz \<le> a \<longrightarrow> m' a = m a)"
proof -
  define n where "n = (if sz \<le> length s then sz - 1 else length s)"
  have n: "n \<le> length s" "n < sz" "take n s = take (sz - 1) s" using assms(3) by (auto simp: n_def)
  have "memcpy m dest src n = copied m dest src n"
    using assms(2) n by (intro memcpy_copied) auto
  then have "strlcpy m dest src sz = Some (length s, (copied m dest src n)(dest + n := 0))"
    using assms(1,3) by (simp add: strlcpy_def Let_def flip: n_def)
  moreover have "cstr ((copied m dest src n)(dest + n := 0)) dest (take (sz - 1) s)"
    using cstr_copied [OF assms(1) n(1)] n(3) by simp
  ultimately show ?thesis using n(2) by (auto simp: copied_def)
qed

text \<open>Two strings that do not overlap: the source is clear of the destination's whole area.\<close>

lemma strcat_result:
  assumes "cstr m dest d" "cstr m src s" "dest + length d + length s < src \<or> src + length s < dest"
  shows "\<exists>m'. strcat m dest src = Some m' \<and> cstr m' dest (d @ s)"
proof -
  let ?m = "copied m (dest + length d) src (Suc (length s))"
  have "strcpy m (dest + length d) src = Some ?m" using assms(2,3) by (intro strcpy_cstr) auto
  moreover have "cstr ?m dest (d @ s)"
    using assms(1,2) by (auto simp: cstr_append) (auto simp: cstr_def copied_def)
  ultimately show ?thesis using assms(1) by (simp add: strcat_def strlen_loop_cstr)
qed

lemma strncat_loop_bytes:
  "\<lbrakk>cstr m src s; dest + n < src \<or> src + length s < dest; 0 < n\<rbrakk>
    \<Longrightarrow> strncat_loop m dest src n
      = (copied m dest src (min n (length s)))(dest + min n (length s) := 0)"
proof (induction n arbitrary: m dest src s)
  case (Suc n)
  show ?case
  proof (cases s)
    case Nil
    then show ?thesis using Suc.prems by (auto simp: Let_def copied_def fun_eq_iff)
  next
    case (Cons c t)
    define m1 where "m1 = m(dest := c)"
    have c: "m src = c" "c \<noteq> 0" using Suc.prems Cons by auto
    have step: "strncat_loop m dest src (Suc n)
        = (if n = 0 then m1(Suc dest := 0) else strncat_loop m1 (Suc dest) (Suc src) n)"
      using c by (simp add: Let_def m1_def)
    show ?thesis
    proof (cases "n = 0")
      case True
      then show ?thesis using step c Cons by (auto simp: m1_def copied_def fun_eq_iff)
    next
      case False
      have t: "cstr m1 (Suc src) t"
        using Suc.prems Cons by (subst cstr_cong [of t m1 "Suc src" m "Suc src"]) (auto simp: m1_def)
      have "strncat_loop m1 (Suc dest) (Suc src) n
          = (copied m1 (Suc dest) (Suc src) (min n (length t)))(Suc dest + min n (length t) := 0)"
        using Suc.prems Cons False by (intro Suc.IH [OF t]) auto
      moreover have "copied m1 (Suc dest) (Suc src) (min n (length t)) = copied m dest src (Suc (min n (length t)))"
        using Suc.prems(2) Cons c by (auto simp: copied_def fun_eq_iff Suc_diff_Suc m1_def)
      ultimately show ?thesis using step False Cons by simp
    qed
  qed
qed simp

lemma strncat_result:
  assumes "cstr m dest d" "cstr m src s" "dest + length d + n < src \<or> src + length s < dest"
  shows "\<exists>m'. strncat m dest src n = Some m' \<and> cstr m' dest (d @ take n s)"
proof (cases "n = 0")
  case True
  then show ?thesis using assms(1) by (simp add: strncat_def)
next
  case False
  let ?k = "min n (length s)"
  let ?m = "(copied m (dest + length d) src ?k)(dest + length d + ?k := 0)"
  have "strncat_loop m (dest + length d) src n = ?m"
    using assms(2,3) False by (intro strncat_loop_bytes) auto
  moreover have "cstr ?m (dest + length d) (take n s)"
    using cstr_copied [OF assms(2) min.cobounded2, of "dest + length d" n] take_take [of n "length s" s] by simp
  then have "cstr ?m dest (d @ take n s)"
    using assms(1) by (auto simp: cstr_append) (auto simp: cstr_def copied_def)
  ultimately show ?thesis using assms(1) False by (simp add: strncat_def strlen_loop_cstr)
qed

lemma strlcat_result:
  assumes "cstr m dest d" "cstr m src s" "dest + count \<le> src \<or> src + length s < dest" "length d < count"
  shows "\<exists>m'. strlcat m dest src count = Some (Ok (length d + length s, m')) \<and> cstr m' dest (take (count - 1) (d @ s))"
proof -
  define n where "n = (if count - length d \<le> length s then count - length d - 1 else length s)"
  have n: "n \<le> length s" "length d + n < count" "take n s = take (count - 1 - length d) s"
    using assms(4) by (auto simp: n_def)
  let ?m = "(copied m (dest + length d) src n)(dest + length d + n := 0)"
  have "memcpy m (dest + length d) src n = copied m (dest + length d) src n"
    using assms(3) n by (intro memcpy_copied) auto
  then have "strlcat m dest src count = Some (Ok (length d + length s, ?m))"
    using assms(1,2,4) by (simp add: strlcat_def Let_def flip: n_def)
  moreover have "cstr ?m (dest + length d) (take n s)" using cstr_copied [OF assms(2) n(1)] by simp
  then have "cstr ?m dest (d @ take n s)"
    using assms(1) by (auto simp: cstr_append) (auto simp: cstr_def copied_def)
  then have "cstr ?m dest (take (count - 1) (d @ s))" using assms(4) n(3) by simp
  ultimately show ?thesis by blast
qed

lemma strlcat_bug:
  "cstr m dest d \<Longrightarrow> cstr m src s \<Longrightarrow> count \<le> length d \<Longrightarrow> strlcat m dest src count = Some (Stop Assertion)"
  by (simp add: strlcat_def)

subsection \<open>Comparing\<close>

lemma strcmp_cstr:
  "\<lbrakk>cstr m p s; cstr m q t\<rbrakk>
    \<Longrightarrow> strcmp m p q = Some (if s = t then 0 else if s < t then - 1 else 1)"
proof (induction s arbitrary: p q t)
  case Nil
  then show ?case by (cases t) (subst strcmp.simps, auto simp: word_neq_0_conv)+
next
  case (Cons c s)
  show ?case
  proof (cases t)
    case Nil
    then show ?thesis using Cons.prems by (subst strcmp.simps) (auto simp: word_neq_0_conv dest: less_imp_not_less)
  next
    case (Cons d t')
    then show ?thesis using Cons.IH [of "Suc p" "Suc q" t'] Cons.prems
      by (subst strcmp.simps) (auto simp: Let_def)
  qed
qed

lemma strncmp_cstr:
  "\<lbrakk>cstr m p s; cstr m q t\<rbrakk>
    \<Longrightarrow> strncmp m p q n = (if take n s = take n t then 0 else if take n s < take n t then - 1 else 1)"
proof (induction n arbitrary: p q s t)
  case (Suc n)
  then show ?case
    by (cases s; cases t) (auto simp: Let_def word_neq_0_conv dest: less_imp_not_less)
qed simp

lemma strcasecmp_zero:
  "\<lbrakk>cstr m p s; cstr m q t\<rbrakk>
    \<Longrightarrow> \<exists>r. strcasecmp m p q = Some r \<and> (r = 0 \<longleftrightarrow> map tolower s = map tolower t)"
proof (induction s arbitrary: p q t)
  case Nil
  then show ?case by (cases t) (subst strcasecmp.simps, auto simp: Let_def)+
next
  case (Cons c s)
  show ?case
  proof (cases t)
    case Nil
    then show ?thesis using Cons.prems by (subst strcasecmp.simps) (auto simp: Let_def)
  next
    case (Cons d t')
    then show ?thesis using Cons.IH [of "Suc p" "Suc q" t'] Cons.prems
      by (subst strcasecmp.simps) (auto simp: Let_def)
  qed
qed

lemma sysfs_streq_cstr:
  "\<lbrakk>cstr m p s; cstr m q t\<rbrakk> \<Longrightarrow> sysfs_streq m p q = Some (s = t \<or> t = s @ [10] \<or> s = t @ [10])"
proof (induction s arbitrary: p q t)
  case Nil
  then show ?case by (cases t; cases "tl t") (subst sysfs_streq.simps, auto)+
next
  case (Cons c s)
  show ?case
  proof (cases t)
    case Nil
    then show ?thesis using Cons.prems by (subst sysfs_streq.simps) (cases s; auto)
  next
    case (Cons d t')
    then show ?thesis using Cons.IH [of "Suc p" "Suc q" t'] Cons.prems
      by (subst sysfs_streq.simps) (cases s; auto)
  qed
qed

lemma strnicmp_zero:
  "\<lbrakk>cstr m p s; cstr m q t\<rbrakk>
    \<Longrightarrow> strnicmp m p q n = 0 \<longleftrightarrow> map tolower (take n s) = map tolower (take n t)"
proof (induction n arbitrary: p q s t)
  case (Suc n)
  show ?case
  proof (cases "s = [] \<or> t = []")
    case True
    then show ?thesis using Suc.prems by (cases s; cases t) (auto simp: Let_def)
  next
    case False
    then obtain c s' d t' where st: "s = c # s'" "t = d # t'" by (meson list.exhaust)
    have "map tolower (take 0 s') = map tolower (take 0 t')" by simp
    then show ?thesis
      using Suc.prems Suc.IH [of "Suc p" s' "Suc q" t'] st
      by (auto simp: Let_def)
  qed
qed simp

lemma strncasecmp_zero:
  "\<lbrakk>cstr m p s; cstr m q t; 0 < n\<rbrakk>
    \<Longrightarrow> \<exists>r. strncasecmp m p q n = Some r \<and> (r = 0 \<longleftrightarrow> map tolower (take n s) = map tolower (take n t))"
proof (induction n arbitrary: p q s t)
  case (Suc n)
  show ?case
  proof (cases "s = [] \<or> t = []")
    case True
    then show ?thesis
      using Suc.prems by (subst strncasecmp.simps) (cases s; cases t; auto simp: Let_def)
  next
    case False
    then obtain c s' d t' where st: "s = c # s'" "t = d # t'" by (meson list.exhaust)
    then show ?thesis
      using Suc.prems Suc.IH [of "Suc p" s' "Suc q" t']
      by (subst strncasecmp.simps) (cases n; auto simp: Let_def)
  qed
qed simp

subsection \<open>Searching\<close>

lemma strchr_cstr:
  "cstr m p s \<Longrightarrow> strchr m p c
    = Some (if c \<in> set s \<or> c = 0 then Some (p + length (takeWhile (\<lambda>x. x \<noteq> c) s)) else None)"
proof (induction s arbitrary: p)
  case Nil
  then show ?case by (subst strchr.simps) auto
next
  case (Cons x s)
  then show ?case by (subst strchr.simps) auto
qed

lemma strnchr_cstr:
  "\<lbrakk>cstr m p s; c \<noteq> 0\<rbrakk> \<Longrightarrow> strnchr m p n c
    = (if c \<in> set (take n s) then Some (p + length (takeWhile (\<lambda>x. x \<noteq> c) s)) else None)"
proof (induction n arbitrary: p s)
  case (Suc n)
  then show ?case by (cases s) auto
qed simp

lemma strrchr_loop_last:
  "strrchr_loop m s d c
    = (case List.find (\<lambda>i. m (s + i) = c) (rev [0..<Suc d]) of None \<Rightarrow> None | Some i \<Rightarrow> Some (s + i))"
  by (induction d) auto

lemma skip_spaces_cstr: "cstr m p s \<Longrightarrow> skip_spaces m p = Some (p + length (takeWhile isspace s))"
proof (induction s arbitrary: p)
  case Nil
  then show ?case by (subst skip_spaces.simps) simp
next
  case (Cons x s)
  then show ?case by (subst skip_spaces.simps) simp
qed

lemma strim_loop_kept:
  "(\<forall>i<length s. m (p + i) = s ! i) \<Longrightarrow> strim_loop m p (length s) = length (dropWhile isspace (rev s))"
proof (induction s rule: rev_induct)
  case (snoc x s)
  have "\<forall>i<length s. m (p + i) = s ! i" using snoc.prems by (auto simp: nth_append)
  moreover have "m (p + length s) = x" using snoc.prems by auto
  ultimately show ?case using snoc.IH by simp
qed simp

definition trimmed :: "byte list \<Rightarrow> byte list" where
  "trimmed s = rev (dropWhile isspace (rev (dropWhile isspace s)))"

lemma strim_result:
  assumes "cstr m p s"
  shows "\<exists>m'. strim m p = Some (p + length (takeWhile isspace s), m')
    \<and> cstr m' (p + length (takeWhile isspace s)) (trimmed s)"
proof -
  let ?t = "dropWhile isspace s" and ?q = "p + length (takeWhile isspace s)"
  have t: "cstr m ?q ?t" using assms cstr_append [of m p "takeWhile isspace s" ?t] by simp
  show ?thesis
  proof (cases "?t = []")
    case True
    have "strim m p = Some (?q, m)" using skip_spaces_cstr [OF assms] strlen_cstr [OF t] True by (simp add: strim_def)
    moreover have "trimmed s = []" unfolding trimmed_def True by simp
    ultimately show ?thesis using t unfolding True by simp
  next
    case False
    let ?k = "length (dropWhile isspace (rev ?t))"
    have k: "strim_loop m ?q (length ?t) = ?k" using t by (intro strim_loop_kept) (simp add: cstr_def)
    obtain u where u: "rev ?t = u @ dropWhile isspace (rev ?t)" by (metis takeWhile_dropWhile_id)
    then have t2: "?t = trimmed s @ rev u" unfolding trimmed_def by (metis rev_append rev_rev_ident)
    have len: "length (trimmed s) = ?k" by (simp add: trimmed_def)
    have z: "\<forall>i<length (trimmed s). m (?q + i) = trimmed s ! i" "0 \<notin> set (trimmed s)"
      using t cstr_append [of m ?q "trimmed s" "rev u"] t2 by simp_all
    have "cstr (m(?q + ?k := 0)) ?q (trimmed s)" using z len by (auto simp: cstr_def)
    moreover have "strim m p = Some (?q, m(?q + ?k := 0))"
      using skip_spaces_cstr [OF assms] t False k by (auto simp: strim_def)
    ultimately show ?thesis by blast
  qed
qed

lemma in_set_cstr: "cstr m a s \<Longrightarrow> in_set m a c = Some (c \<in> set s)"
proof (induction s arbitrary: a)
  case Nil
  then show ?case by (subst in_set.simps) simp
next
  case (Cons x s)
  then show ?case by (subst in_set.simps) auto
qed

lemma strspn_cstr:
  "\<lbrakk>cstr m p s; cstr m a acc\<rbrakk> \<Longrightarrow> strspn m p a = Some (length (takeWhile (\<lambda>c. c \<in> set acc) s))"
proof -
  have "cstr m p s \<Longrightarrow> cstr m a acc
      \<Longrightarrow> strspn_loop m p a n = Some (n + length (takeWhile (\<lambda>c. c \<in> set acc) s))" for n
  proof (induction s arbitrary: p n)
    case Nil
    then show ?case by (subst strspn_loop.simps) simp
  next
    case (Cons x s)
    then show ?case by (subst strspn_loop.simps) (auto simp: in_set_cstr)
  qed
  then show "cstr m p s \<Longrightarrow> cstr m a acc \<Longrightarrow> ?thesis" by (simp add: strspn_def)
qed

lemma strcspn_cstr:
  "\<lbrakk>cstr m p s; cstr m r rej\<rbrakk> \<Longrightarrow> strcspn m p r = Some (length (takeWhile (\<lambda>c. c \<notin> set rej) s))"
proof -
  have "cstr m p s \<Longrightarrow> cstr m r rej
      \<Longrightarrow> strcspn_loop m p r n = Some (n + length (takeWhile (\<lambda>c. c \<notin> set rej) s))" for n
  proof (induction s arbitrary: p n)
    case Nil
    then show ?case by (subst strcspn_loop.simps) simp
  next
    case (Cons x s)
    then show ?case by (subst strcspn_loop.simps) (auto simp: in_set_cstr)
  qed
  then show "cstr m p s \<Longrightarrow> cstr m r rej \<Longrightarrow> ?thesis" by (simp add: strcspn_def)
qed

lemma strpbrk_cstr:
  "\<lbrakk>cstr m p s; cstr m ct cs\<rbrakk> \<Longrightarrow> strpbrk m p ct
    = Some (if set s \<inter> set cs = {} then None else Some (p + length (takeWhile (\<lambda>c. c \<notin> set cs) s)))"
proof (induction s arbitrary: p)
  case Nil
  then show ?case by (subst strpbrk.simps) simp
next
  case (Cons x s)
  then show ?case by (subst strpbrk.simps) (auto simp: in_set_cstr)
qed

lemma bytes_at_cstr:
  "\<lbrakk>cstr m p s; i + n \<le> length s\<rbrakk> \<Longrightarrow> bytes_at m (p + i) n = take n (drop i s)"
  by (rule nth_equalityI) (simp_all add: bytes_at_def cstr_def add.assoc)

lemma strstr_loop_first:
  "0 < l2 \<Longrightarrow> strstr_loop m p q l1 l2 = (case List.find (\<lambda>i. bytes_at m (p + i) l2 = bytes_at m q l2) [0..<Suc l1 - l2] of
      None \<Rightarrow> None | Some i \<Rightarrow> Some (p + i))"
proof (induction m p q l1 l2 rule: strstr_loop.induct)
  case (1 m p q l1 l2)
  let ?P = "\<lambda>p i. bytes_at m (p + i) l2 = bytes_at m q l2"
  have shift: "List.find (?P p) (map Suc xs) = map_option Suc (List.find (?P (Suc p)) xs)" for xs
    by (induction xs) auto
  show ?case
  proof (cases "l2 \<le> l1")
    case True
    define k where "k = l1 - l2"
    have k: "Suc l1 - l2 = Suc k" "Suc (l1 - 1) - l2 = k"
      using 1(2) True by (simp_all add: k_def Suc_diff_le)
    have upt: "[0..<Suc l1 - l2] = 0 # map Suc [0..<k]"
      unfolding k(1) by (simp add: upt_conv_Cons map_Suc_upt del: upt_Suc)
    show ?thesis
    proof (cases "?P p 0")
      case hit: True
      then show ?thesis
        using True 1(2) unfolding upt by (subst strstr_loop.simps) (simp add: memcmp_zero)
    next
      case miss: False
      then have "strstr_loop m p q l1 l2 = strstr_loop m (Suc p) q (l1 - 1) l2"
        using True 1(2) by (subst strstr_loop.simps) (simp add: memcmp_zero)
      also have "\<dots> = (case List.find (?P (Suc p)) [0..<k] of None \<Rightarrow> None | Some i \<Rightarrow> Some (Suc p + i))"
        using 1 True miss by (simp add: memcmp_zero flip: k(2))
      finally show ?thesis using miss shift [of "[0..<k]"] unfolding upt by (simp split: option.splits)
    qed
  next
    case False
    then show ?thesis by (subst strstr_loop.simps) simp
  qed
qed

lemma prefix_iff_take: "prefix t u \<longleftrightarrow> take (length t) u = t"
  by (auto simp: prefix_def) (metis append_take_drop_id)

lemma find_upt_least:
  "List.find P [0..<n] = Some i \<longleftrightarrow> i < n \<and> P i \<and> (\<forall>j<i. \<not> P j)"
  by (auto simp: find_Some_iff)

subsection \<open>Properties\<close>

text \<open>
  C23.  \<^verbatim>\<open>memmove\<close> copes with overlap: for every position of the two areas, the
  destination afterwards holds what the source held before, and no other byte changes.
\<close>

theorem memmove_overlap:
  "memmove m dest src n = (\<lambda>a. if dest \<le> a \<and> a < dest + n then m (src + (a - dest)) else m a)"
  using memcpy_copied [of dest src n m] memcpy_down_copied [of src dest m n]
  by (auto simp: memmove_def copied_def)

text \<open>
  \<^verbatim>\<open>strlcpy\<close> copies as much of the string as fits, always terminates the result,
  writes nothing outside the destination and returns the length of the whole source, so that a
  caller can see the truncation.
\<close>

theorem strlcpy_truncates:
  assumes "cstr m src s" "dest + sz \<le> src \<or> src + length s < dest" "0 < sz"
  shows "\<exists>m'. strlcpy m dest src sz = Some (length s, m') \<and> cstr m' dest (take (sz - 1) s)
    \<and> {a. m' a \<noteq> m a} \<subseteq> {dest..<dest + sz}"
proof -
  obtain m' where m': "strlcpy m dest src sz = Some (length s, m')" "cstr m' dest (take (sz - 1) s)"
      "\<And>a. a < dest \<or> dest + sz \<le> a \<Longrightarrow> m' a = m a"
    using strlcpy_result [OF assms] by blast
  have "{a. m' a \<noteq> m a} \<subseteq> {dest..<dest + sz}" using m'(3) by (auto simp: not_less) (meson not_le)+
  then show ?thesis using m' by blast
qed

theorem strlcpy_truncates_witness:
  "\<exists>m'. strlcpy ((\<lambda>_. 0)(100 := 65, 101 := 66, 102 := 67)) 10 100 3 = Some (3, m')
    \<and> cstr m' 10 [65, 66]"
proof -
  have "cstr ((\<lambda>_. 0)(100 := 65, 101 := 66, 102 := 67)) 100 [65, 66, 67]" by simp
  from strlcpy_truncates [OF this, of 10 3] show ?thesis by (auto simp: numeral_3_eq_3)
qed

text \<open>
  \<^verbatim>\<open>strcmp\<close> returns, and its result is the lexicographic order of the two strings.
\<close>

theorem strcmp_lexicographic:
  assumes "cstr m p s" "cstr m q t"
  shows "strcmp m p q = Some (if s = t then 0 else if s < t then - 1 else 1)"
  by (rule strcmp_cstr [OF assms])

theorem strcmp_lexicographic_witness:
  "strcmp ((\<lambda>_. 0)(1 := 97, 2 := 98, 10 := 97)) 1 10 = Some 1"
  using strcmp_lexicographic [of "(\<lambda>_. 0)(1 := 97, 2 := 98, 10 := 97)" 1 "[97, 98]" 10 "[97]"] by simp

text \<open>
  C24.  \<^verbatim>\<open>strstr\<close> returns the first occurrence of the pattern, and \<^verbatim>\<open>NULL\<close>
  exactly when there is none.
\<close>

theorem strstr_first:
  assumes "cstr m p s" "cstr m q t"
  shows "\<exists>r. strstr m p q = Some r \<and> (case r of
      Some a \<Rightarrow> p \<le> a \<and> prefix t (drop (a - p) s) \<and> {j. j < a - p \<and> prefix t (drop j s)} = {}
    | None \<Rightarrow> \<not> sublist t s)"
proof (cases "t = []")
  case True
  then have "strlen m q = Some 0" using strlen_cstr [OF assms(2)] by simp
  then show ?thesis using True by (intro exI [of _ "Some p"]) (simp add: strstr_def)
next
  case False
  let ?n = "Suc (length s) - length t"
  have occ: "bytes_at m (p + i) (length t) = bytes_at m q (length t) \<longleftrightarrow> prefix t (drop i s)" if "i < ?n" for i
  proof -
    have "bytes_at m (p + i) (length t) = take (length t) (drop i s)"
      using that by (intro bytes_at_cstr [OF assms(1)]) simp
    moreover have "bytes_at m q (length t) = t" using bytes_at_cstr [OF assms(2), of 0 "length t"] by simp
    ultimately show ?thesis by (simp add: prefix_iff_take)
  qed
  define r where "r = strstr_loop m p q (length s) (length t)"
  have r: "r = (case List.find (\<lambda>i. bytes_at m (p + i) (length t) = bytes_at m q (length t)) [0..<?n] of
      None \<Rightarrow> None | Some i \<Rightarrow> Some (p + i))"
    unfolding r_def using False by (intro strstr_loop_first) simp
  have "strstr m p q = Some r" using assms False by (simp add: strstr_def r_def)
  moreover have "case r of
      Some a \<Rightarrow> p \<le> a \<and> prefix t (drop (a - p) s) \<and> {j. j < a - p \<and> prefix t (drop j s)} = {}
    | None \<Rightarrow> \<not> sublist t s"
  proof (cases "List.find (\<lambda>i. bytes_at m (p + i) (length t) = bytes_at m q (length t)) [0..<?n]")
    case None
    have "\<not> sublist t s"
    proof
      assume "sublist t s"
      then obtain xs ys where s: "s = xs @ t @ ys" by (auto simp: sublist_def)
      then have "prefix t (drop (length xs) s)" "length xs < ?n" by simp_all
      then show False using None occ [of "length xs"] by (auto simp: find_None_iff)
    qed
    then show ?thesis using r None by simp
  next
    case (Some i)
    then have i: "i < ?n" "bytes_at m (p + i) (length t) = bytes_at m q (length t)"
        "\<forall>j<i. bytes_at m (p + j) (length t) \<noteq> bytes_at m q (length t)"
      by (simp_all add: find_upt_least)
    then have "\<not> prefix t (drop j s)" if "j < i" for j using occ [of j] that by auto
    then show ?thesis using r Some i occ [OF i(1)] by auto
  qed
  ultimately show ?thesis by blast
qed

theorem strstr_first_witness:
  "\<exists>r. strstr ((\<lambda>_. 0)(1 := 97, 2 := 98, 3 := 97, 10 := 98)) 1 10 = Some r \<and> (case r of
      Some a \<Rightarrow> 1 \<le> a \<and> prefix [98 :: byte] (drop (a - 1) [97, 98, 97]) \<and> {j. j < a - 1 \<and> prefix [98 :: byte] (drop j [97, 98, 97])} = {}
    | None \<Rightarrow> \<not> sublist [98 :: byte] [97, 98, 97])"
  by (rule strstr_first) simp_all

text \<open>
  One call of \<^verbatim>\<open>strsep\<close>: the returned token is the text before the first delimiter,
  terminated in place, and the pointer moves to the text after it, which is unchanged; without a
  delimiter the token is the whole rest and the pointer becomes \<^verbatim>\<open>NULL\<close>.
\<close>

theorem strsep_token:
  assumes "cstr m p s" "cstr m ct cs" "p + length s < ct \<or> ct + length cs < p"
  defines "tok \<equiv> takeWhile (\<lambda>c. c \<notin> set cs) s"
  shows "\<exists>next m'. strsep m (Some p) ct = Some (Some p, next, m') \<and> cstr m' p tok \<and> cstr m' ct cs
    \<and> (case next of None \<Rightarrow> tok = s
        | Some n \<Rightarrow> n = Suc (p + length tok) \<and> length tok < length s \<and> cstr m' n (drop (Suc (length tok)) s))"
proof (cases "set s \<inter> set cs = {}")
  case True
  then have "tok = s" unfolding tok_def by auto
  then show ?thesis using True assms(1,2) by (simp add: strsep_def strpbrk_cstr)
next
  case False
  then have "tok \<noteq> s" unfolding tok_def by auto
  moreover have tk: "take (length tok) s = tok" unfolding tok_def by (metis takeWhile_eq_take)
  ultimately have lt: "length tok < length s" by (metis not_le take_all)
  let ?e = "p + length tok"
  have run: "strsep m (Some p) ct = Some (Some p, Some (Suc ?e), m(?e := 0))"
    using False assms(1,2) by (simp add: strsep_def strpbrk_cstr tok_def)
  have s: "s = tok @ s ! length tok # drop (Suc (length tok)) s"
    using id_take_nth_drop [OF lt] tk by simp
  have c: "cstr m p (tok @ s ! length tok # drop (Suc (length tok)) s)" using assms(1) s by simp
  then have "cstr (m(?e := 0)) p tok" by (auto simp: cstr_append) (auto simp: cstr_def)
  moreover have "cstr m (Suc ?e) (drop (Suc (length tok)) s)" using c by (simp add: cstr_append)
  then have "cstr (m(?e := 0)) (Suc ?e) (drop (Suc (length tok)) s)"
    by (subst cstr_cong [of _ "m(?e := 0)" "Suc ?e" m "Suc ?e"]) auto
  moreover have "cstr (m(?e := 0)) ct cs"
    using assms(2,3) lt by (subst cstr_cong [of cs "m(?e := 0)" ct m ct]) auto
  ultimately show ?thesis using run lt by simp
qed

theorem strsep_token_witness:
  "\<exists>next m'. strsep ((\<lambda>_. 0)(1 := 97, 2 := 44, 3 := 98, 10 := 44)) (Some 1) 10 = Some (Some 1, next, m')
    \<and> cstr m' 1 [97]"
  using strsep_token [of "(\<lambda>_. 0)(1 := 97, 2 := 44, 3 := 98, 10 := 44)" 1 "[97, 44, 98]" 10 "[44]"] by auto

end
