(* ===== verification/Strtox.thy ===== *)
theory Strtox
  imports Cstring
begin

text \<open>
  Numbers read from strings (\<^verbatim>\<open>src/lib/vsprintf.c\<close>, \<^verbatim>\<open>simple_strto*\<close>, \<^verbatim>\<open>strict_strto*\<close>
  and \<^verbatim>\<open>skip_atoi\<close>).  A pointer into a NUL-terminated string is the rest of the string from
  there on, so \<^verbatim>\<open>*endp\<close> is the part that was not consumed; a character read at the end of
  the list is the terminating NUL.  \<^verbatim>\<open>unsigned long long\<close> is a 64-bit word, \<^verbatim>\<open>unsigned long\<close>
  and \<^verbatim>\<open>unsigned int\<close> are 32-bit words, and the arithmetic wraps as it does in C.
\<close>

subsection \<open>Characters\<close>

definition chr :: "char \<Rightarrow> byte" where
  "chr c = of_char c"

definition lit :: "string \<Rightarrow> byte list" where
  "lit s = map chr s"

definition ch :: "byte list \<Rightarrow> nat \<Rightarrow> byte" where
  "ch s i = (if i < length s then s ! i else 0)"

lemma chr_Char [simp]:
  "chr (Char b0 b1 b2 b3 b4 b5 b6 b7) = of_bool b0 + 2 * of_bool b1 + 4 * of_bool b2 + 8 * of_bool b3
    + 16 * of_bool b4 + 32 * of_bool b5 + 64 * of_bool b6 + 128 * of_bool b7"
  by (simp add: chr_def of_char_def)

lemma lit_simps [simp]: "lit [] = []" "lit (c # s) = chr c # lit s" "length (lit s) = length s"
  by (simp_all add: lit_def)

lemma ch_simps [simp]: "ch [] i = 0" "ch (c # s) 0 = c" "ch (c # s) (Suc i) = ch s i"
  "ch (c # s) (numeral n) = ch s (pred_numeral n)"
  by (simp_all add: ch_def numeral_eq_Suc)

definition TOLOWER :: "byte \<Rightarrow> byte" where
  "TOLOWER x = x OR 0x20"

subsection \<open>Unchecked conversion\<close>

definition simple_guess_base :: "byte list \<Rightarrow> u32" where
  "simple_guess_base cp =
    (if ch cp 0 = chr CHR ''0'' then
       if TOLOWER (ch cp 1) = chr CHR ''x'' \<and> isxdigit (ch cp 2) then 16 else 8
     else 10)"

definition digit_value :: "byte \<Rightarrow> u32" where
  "digit_value c = (if isdigit c then ucast c - 0x30 else ucast (TOLOWER c) - 0x61 + 10)"

fun strtoull_loop :: "u32 \<Rightarrow> byte list \<Rightarrow> u64 \<Rightarrow> u64 \<times> byte list" where
  "strtoull_loop base [] result = (result, [])"
| "strtoull_loop base (c # cp) result =
    (if isxdigit c then
       let v = digit_value c
       in if v \<ge> base then (result, c # cp)
          else strtoull_loop base cp (result * ucast base + ucast v)
     else (result, c # cp))"

definition simple_strtoull :: "byte list \<Rightarrow> u32 \<Rightarrow> u64 \<times> byte list" where
  "simple_strtoull cp base =
    (let base = (if base = 0 then simple_guess_base cp else base);
         cp = (if base = 16 \<and> ch cp 0 = chr CHR ''0'' \<and> TOLOWER (ch cp 1) = chr CHR ''x''
               then drop 2 cp else cp)
     in strtoull_loop base cp 0)"

definition simple_strtoul :: "byte list \<Rightarrow> u32 \<Rightarrow> u32 \<times> byte list" where
  "simple_strtoul cp base = apfst ucast (simple_strtoull cp base)"

definition simple_strtol :: "byte list \<Rightarrow> u32 \<Rightarrow> u32 \<times> byte list" where
  "simple_strtol cp base =
    (if ch cp 0 = chr CHR ''-'' then apfst uminus (simple_strtoul (tl cp) base)
     else simple_strtoul cp base)"

definition simple_strtoll :: "byte list \<Rightarrow> u32 \<Rightarrow> u64 \<times> byte list" where
  "simple_strtoll cp base =
    (if ch cp 0 = chr CHR ''-'' then apfst uminus (simple_strtoull (tl cp) base)
     else simple_strtoull cp base)"

subsection \<open>Strict conversion\<close>

definition EINVAL :: int where
  "EINVAL = 22"

text \<open>The return value and \<^verbatim>\<open>*res\<close>.\<close>

definition strict_strtoul :: "byte list \<Rightarrow> u32 \<Rightarrow> int \<times> u32" where
  "strict_strtoul cp base =
    (let len = length cp
     in if len = 0 then (- EINVAL, 0)
        else let (v, tail) = simple_strtoul cp base
             in if length tail = length cp then (- EINVAL, 0)
                else if ch tail 0 = 0 \<or>
                        len = (len - length tail) + 1 \<and> ch tail 0 = chr CHR 0x0A then (0, v)
                else (- EINVAL, 0))"

definition strict_strtol :: "byte list \<Rightarrow> u32 \<Rightarrow> int \<times> u32" where
  "strict_strtol cp base =
    (if ch cp 0 = chr CHR ''-'' then
       let (ret, res) = strict_strtoul (tl cp) base
       in (ret, if ret = 0 then - res else res)
     else strict_strtoul cp base)"

definition strict_strtoull :: "byte list \<Rightarrow> u32 \<Rightarrow> int \<times> u64" where
  "strict_strtoull cp base =
    (let len = length cp
     in if len = 0 then (- EINVAL, 0)
        else let (v, tail) = simple_strtoull cp base
             in if length tail = length cp then (- EINVAL, 0)
                else if ch tail 0 = 0 \<or>
                        len = (len - length tail) + 1 \<and> ch tail 0 = chr CHR 0x0A then (0, v)
                else (- EINVAL, 0))"

definition strict_strtoll :: "byte list \<Rightarrow> u32 \<Rightarrow> int \<times> u64" where
  "strict_strtoll cp base =
    (if ch cp 0 = chr CHR ''-'' then
       let (ret, res) = strict_strtoull (tl cp) base
       in (ret, if ret = 0 then - res else res)
     else strict_strtoull cp base)"

text \<open>\<^verbatim>\<open>skip_atoi\<close> returns an \<^verbatim>\<open>int\<close>, kept as the 32-bit word it is.\<close>

fun skip_atoi_loop :: "u32 \<Rightarrow> byte list \<Rightarrow> u32 \<times> byte list" where
  "skip_atoi_loop i [] = (i, [])"
| "skip_atoi_loop i (c # s) =
    (if isdigit c then skip_atoi_loop (i * 10 + ucast c - 0x30) s else (i, c # s))"

definition skip_atoi :: "byte list \<Rightarrow> u32 \<times> byte list" where
  "skip_atoi s = skip_atoi_loop 0 s"

subsection \<open>The number a digit string denotes\<close>

definition digit_of :: "byte \<Rightarrow> nat" where
  "digit_of c =
    (if 48 \<le> unat c \<and> unat c \<le> 57 then unat c - 48
     else if 97 \<le> unat c \<and> unat c \<le> 102 then unat c - 87
     else if 65 \<le> unat c \<and> unat c \<le> 70 then unat c - 55
     else 16)"

definition is_digit :: "nat \<Rightarrow> byte \<Rightarrow> bool" where
  "is_digit b c \<longleftrightarrow> digit_of c < b"

definition num_of :: "nat \<Rightarrow> byte list \<Rightarrow> nat" where
  "num_of b = foldl (\<lambda>n c. n * b + digit_of c) 0"

lemma digit_of_isxdigit: "digit_of c < 16 \<longleftrightarrow> isxdigit c"
  by (auto simp: digit_of_def isxdigit_codes)

lemma TOLOWER_hex:
  "65 \<le> unat c \<Longrightarrow> unat c \<le> 70 \<Longrightarrow> unat (TOLOWER c) = unat c + 32"
  "97 \<le> unat c \<Longrightarrow> unat c \<le> 102 \<Longrightarrow> unat (TOLOWER c) = unat c"
proof -
  have "unat (TOLOWER (word_of_nat n)) = n + 32" if "n \<in> set [65..<71]" for n
    using that by (auto simp: TOLOWER_def)
  moreover have "unat (TOLOWER (word_of_nat n)) = n" if "n \<in> set [97..<103]" for n
    using that by (auto simp: TOLOWER_def)
  ultimately have "\<And>n. 65 \<le> n \<Longrightarrow> n \<le> 70 \<Longrightarrow> unat (TOLOWER (word_of_nat n)) = n + 32"
    "\<And>n. 97 \<le> n \<Longrightarrow> n \<le> 102 \<Longrightarrow> unat (TOLOWER (word_of_nat n)) = n"
    unfolding set_upt by force+
  from this [of "unat c"]
  show "65 \<le> unat c \<Longrightarrow> unat c \<le> 70 \<Longrightarrow> unat (TOLOWER c) = unat c + 32"
    "97 \<le> unat c \<Longrightarrow> unat c \<le> 102 \<Longrightarrow> unat (TOLOWER c) = unat c" by simp_all
qed

lemma unat_ucast_byte: "unat (ucast (c :: byte) :: u32) = unat c"
  by (simp add: unsigned_ucast_eq take_bit_nat_eq_self order_less_trans [OF unat_less_8])

lemma digit_value_digit_of:
  assumes "isxdigit c"
  shows "unat (digit_value c) = digit_of c"
proof -
  have d: "unat (digit_value c) = unat c - 48" if "48 \<le> unat c" "unat c \<le> 57"
    using that by (simp add: digit_value_def isdigit_codes unat_sub_32 unat_ucast_byte)
  have l: "unat (digit_value c) = unat (TOLOWER c) - 87"
    if "57 < unat c" "97 \<le> unat (TOLOWER c)"
    using that by (simp add: digit_value_def isdigit_codes unat_sub_32 unat_ucast_byte)
  consider "48 \<le> unat c" "unat c \<le> 57" | "65 \<le> unat c" "unat c \<le> 70" | "97 \<le> unat c" "unat c \<le> 102"
    using assms unfolding isxdigit_codes by blast
  then show ?thesis by cases (simp_all add: d l TOLOWER_hex digit_of_def)
qed

lemma digit_value_less:
  "isxdigit c \<Longrightarrow> base \<le> digit_value c \<longleftrightarrow> \<not> is_digit (unat base) c"
  by (simp add: is_digit_def word_le_nat_alt digit_value_digit_of not_less)

lemma is_digit_isxdigit: "is_digit b c \<Longrightarrow> b \<le> 16 \<Longrightarrow> isxdigit c"
  by (simp add: is_digit_def digit_of_isxdigit [symmetric])

lemma ucast_of_unat: "(ucast (v :: 'a::len word) :: 'b::len word) = word_of_nat (unat v)"
  by transfer simp

lemma strtoull_loop_result:
  assumes "unat base \<le> 16"
  shows "strtoull_loop base s (word_of_nat r) =
    (word_of_nat (foldl (\<lambda>n c. n * unat base + digit_of c) r (takeWhile (is_digit (unat base)) s)),
     dropWhile (is_digit (unat base)) s)"
proof (induction s arbitrary: r)
  case (Cons c s)
  show ?case
  proof (cases "is_digit (unat base) c")
    case True
    with assms have "isxdigit c" by (rule_tac is_digit_isxdigit)
    then have "word_of_nat r * ucast base + ucast (digit_value c) = (word_of_nat (r * unat base + digit_of c) :: u64)"
      by (simp only: ucast_of_unat digit_value_digit_of of_nat_add of_nat_mult)
    with \<open>isxdigit c\<close> have "strtoull_loop base (c # s) (word_of_nat r) =
        strtoull_loop base s (word_of_nat (r * unat base + digit_of c))"
      using True by (simp only: strtoull_loop.simps Let_def digit_value_less if_True if_False not_not not_True_eq_False)
    with True show ?thesis by (simp only: Cons.IH takeWhile.simps dropWhile.simps if_True foldl_Cons)
  next
    case False
    then show ?thesis by (simp add: Let_def digit_value_less)
  qed
qed simp

text \<open>Without a hexadecimal prefix the digits are the longest prefix of digits of the base.\<close>

lemma simple_strtoull_result:
  assumes "0 < unat base" "unat base < 16"
  shows "simple_strtoull s base =
    (word_of_nat (num_of (unat base) (takeWhile (is_digit (unat base)) s)), dropWhile (is_digit (unat base)) s)"
proof -
  from assms have "base \<noteq> 0" "base \<noteq> 16" by auto
  then show ?thesis
    using strtoull_loop_result [of base s 0] assms by (simp add: simple_strtoull_def num_of_def)
qed

lemma simple_strtoull_hex:
  assumes "TOLOWER x = chr CHR ''x''"
  shows "simple_strtoull (0x30 # x # s) 16 =
    (word_of_nat (num_of 16 (takeWhile (is_digit 16) s)), dropWhile (is_digit 16) s)"
  using strtoull_loop_result [of 16 s 0] assms by (simp add: simple_strtoull_def num_of_def)

lemma ucast_word_of_nat: "(ucast (word_of_nat n :: u64) :: u32) = word_of_nat n"
  by transfer simp

lemma simple_strtoul_result:
  assumes "0 < unat base" "unat base < 16"
  shows "simple_strtoul s base =
    (word_of_nat (num_of (unat base) (takeWhile (is_digit (unat base)) s)), dropWhile (is_digit (unat base)) s)"
  by (simp add: simple_strtoul_def simple_strtoull_result assms ucast_word_of_nat)

lemma num_of_snoc: "num_of b (ds @ [c]) = num_of b ds * b + digit_of c"
  by (simp add: num_of_def)

lemma skip_atoi_result:
  "skip_atoi s = (word_of_nat (num_of 10 (takeWhile isdigit s)), dropWhile isdigit s)"
proof -
  have "skip_atoi_loop (word_of_nat i) s =
      (word_of_nat (foldl (\<lambda>n c. n * 10 + digit_of c) i (takeWhile isdigit s)), dropWhile isdigit s)" for i
  proof (induction s arbitrary: i)
    case (Cons c s)
    have "word_of_nat i * 10 + ucast c - 0x30 = (word_of_nat (i * 10 + digit_of c) :: u32)" if "isdigit c"
    proof -
      have "ucast c - 0x30 = (word_of_nat (digit_of c) :: u32)"
        using that by (intro word_unat_eq_iff [THEN iffD2])
          (simp add: unat_sub_32 unat_ucast_byte isdigit_codes digit_of_def unat_word_of_nat_32)
      then show ?thesis by (simp add: diff_eq_eq add.assoc)
    qed
    with Cons show ?case by (simp del: of_nat_add of_nat_mult)
  qed simp
  from this [of 0] show ?thesis by (simp add: skip_atoi_def num_of_def)
qed

lemma takeWhile_append_stop: "\<forall>c\<in>set ds. P c \<Longrightarrow> s = [] \<or> \<not> P (hd s) \<Longrightarrow> takeWhile P (ds @ s) = ds"
  by (induction ds) (cases s; auto)+

lemma dropWhile_append_stop: "\<forall>c\<in>set ds. P c \<Longrightarrow> s = [] \<or> \<not> P (hd s) \<Longrightarrow> dropWhile P (ds @ s) = s"
  by (induction ds) (cases s; auto)+

lemma not_is_digit_nl: "b \<le> 16 \<Longrightarrow> \<not> is_digit b 10"
  by (simp add: is_digit_def digit_of_def)



end
