(* ===== verification/Printf_Number.thy ===== *)
theory Printf_Number
  imports Strtox
begin

text \<open>
  The printing of numbers and strings (\<^verbatim>\<open>src/lib/vsprintf.c\<close>, \<^verbatim>\<open>put_dec\<close>, \<^verbatim>\<open>number\<close>,
  \<^verbatim>\<open>string\<close>).  The output pointer, the end of the buffer and the memory they point into are
  the record \<open>outbuf\<close>; every character goes through \<open>put\<close>, which is the code's
  \<^verbatim>\<open>if (buf < end) *buf = c; ++buf\<close>.  The 16-bit signed fields of \<^verbatim>\<open>struct printf_spec\<close> are
  integers brought back into range by \<open>s16\<close> at every assignment, as the conversion in C does.

  \<open>puts\<close> puts a list of characters.  For each printing function a lemma says that it is
  \<open>puts\<close> of a text that does not depend on the buffer, and a lemma on the text says what it is.
\<close>

subsection \<open>Decimal digits without division\<close>

text \<open>The digits are written from the least significant one on.\<close>

definition put_dec_trunc :: "u32 \<Rightarrow> byte list" where
  "put_dec_trunc q =
    (let d1 = drop_bit 4 q AND 0xf;
         d2 = drop_bit 8 q AND 0xf;
         d3 = drop_bit 12 q;
         d0 = 6 * (d3 + d2 + d1) + (q AND 0xf);
         q = drop_bit 11 (d0 * 0xcd);
         d0 = d0 - 10 * q;
         d1 = q + 9 * d3 + 5 * d2 + d1
     in ucast (d0 + 0x30) #
        (if d1 \<noteq> 0 then
           let q = drop_bit 11 (d1 * 0xcd);
               d1 = d1 - 10 * q;
               d2 = q + 2 * d2
           in ucast (d1 + 0x30) #
              (if d2 \<noteq> 0 \<or> d3 \<noteq> 0 then
                 let q = drop_bit 7 (d2 * 0xd);
                     d2 = d2 - 10 * q;
                     d3 = q + 4 * d3
                 in ucast (d2 + 0x30) #
                    (if d3 \<noteq> 0 then
                       let q = drop_bit 11 (d3 * 0xcd);
                           d3 = d3 - 10 * q
                       in ucast (d3 + 0x30) # (if q \<noteq> 0 then [ucast (q + 0x30)] else [])
                     else [])
               else [])
         else []))"

definition put_dec_full :: "u32 \<Rightarrow> byte list" where
  "put_dec_full q =
    (let d1 = drop_bit 4 q AND 0xf;
         d2 = drop_bit 8 q AND 0xf;
         d3 = drop_bit 12 q;
         d0 = 6 * (d3 + d2 + d1) + (q AND 0xf);
         q = drop_bit 11 (d0 * 0xcd);
         d0 = d0 - 10 * q;
         d1 = q + 9 * d3 + 5 * d2 + d1;
         q = drop_bit 11 (d1 * 0xcd);
         d1 = d1 - 10 * q;
         d2 = q + 2 * d2;
         q = drop_bit 7 (d2 * 0xd);
         d2 = d2 - 10 * q;
         d3 = q + 4 * d3;
         q = drop_bit 11 (d3 * 0xcd);
         d3 = d3 - 10 * q
     in [ucast (d0 + 0x30), ucast (d1 + 0x30), ucast (d2 + 0x30), ucast (d3 + 0x30), ucast (q + 0x30)])"

function put_dec :: "u64 \<Rightarrow> byte list" where
  "put_dec num =
    (if num < 100000 then put_dec_trunc (ucast num)
     else put_dec_full (ucast (num mod 100000)) @ put_dec (num div 100000))"
  by pat_completeness auto

termination put_dec
  by (relation "measure unat") (auto simp: unat_div word_less_nat_alt)

declare put_dec.simps [simp del]

subsection \<open>The reference: digits by division\<close>

fun digits_rev :: "nat \<Rightarrow> nat \<Rightarrow> nat list" where
  "digits_rev b n = (if n < b \<or> b < 2 then [n] else n mod b # digits_rev b (n div b))"

declare digits_rev.simps [simp del]

definition dec_char :: "nat \<Rightarrow> byte" where
  "dec_char d = word_of_nat (48 + d)"

text \<open>Five decimal digits of a number below \<open>100000\<close>, computed by carries.\<close>

lemma div10_cd:
  fixes x :: nat
  assumes "x \<le> 999"
  shows "x * 205 div 2048 = x div 10"
proof -
  obtain k r where "x div 10 = k" "x = 10 * k + r" "r < 10" by (metis mod_less_divisor mult_div_mod_eq zero_less_numeral)
  with assms show ?thesis by (intro div_nat_eqI) simp_all
qed

lemma div10_d:
  fixes x :: nat
  assumes "x \<le> 68"
  shows "x * 13 div 128 = x div 10"
proof -
  obtain k r where x: "x div 10 = k" "x = 10 * k + r" "r < 10" by (metis mod_less_divisor mult_div_mod_eq zero_less_numeral)
  show ?thesis
  proof (cases "k \<le> 5")
    case True
    with x show ?thesis by (intro div_nat_eqI) simp_all
  next
    case False
    with x assms have "k = 6" "r \<le> 8" by simp_all
    with x show ?thesis by (intro div_nat_eqI) simp_all
  qed
qed

text \<open>
  The intermediate values of \<^verbatim>\<open>put_dec_trunc\<close> and \<^verbatim>\<open>put_dec_full\<close> as numbers: the hexadecimal
  digits \<open>d3 d2 d1 d0\<close> of a number below \<open>100000\<close>, the sums \<open>e0 .. e3\<close> of what they
  contribute to each decimal place, and the carries.
\<close>

lemma decimal_places:
  fixes n :: nat
  assumes "n = 4096 * d3 + 256 * d2 + 16 * d1 + d0"
    and e0: "e0 = 6 * (d3 + d2 + d1) + d0"
    and e1: "e1 = e0 div 10 + 9 * d3 + 5 * d2 + d1"
    and e2: "e2 = e1 div 10 + 2 * d2"
    and e3: "e3 = e2 div 10 + 4 * d3"
  shows "n mod 10 = e0 mod 10" "n div 10 = e1 + 20 * d2 + 400 * d3" "n div 10 mod 10 = e1 mod 10"
    "n div 100 = e2 + 40 * d3" "n div 100 mod 10 = e2 mod 10" "n div 1000 = e3" "n div 10000 = e3 div 10"
proof -
  have split: "x = a mod 10 + 10 * k \<Longrightarrow> x mod 10 = a mod 10 \<and> x div 10 = k" for x a k :: nat by simp
  have join: "x + 10 * (a div 10) + a mod 10 = x + a" for x a :: nat by simp
  have "n = e0 mod 10 + 10 * (e1 + 20 * d2 + 400 * d3)"
    using join [of "4090 * d3 + 250 * d2 + 10 * d1" e0] unfolding assms(1) e1 by (simp add: e0)
  note p0 = split [OF this]
  then show "n mod 10 = e0 mod 10" and "n div 10 = e1 + 20 * d2 + 400 * d3" by simp_all
  have "n div 10 = e1 mod 10 + 10 * (e2 + 40 * d3)"
    using join [of "20 * d2 + 400 * d3" e1] p0 by (simp add: e2)
  note p1 = split [OF this]
  then show "n div 10 mod 10 = e1 mod 10" and "n div 100 = e2 + 40 * d3" by (simp_all flip: div_mult2_eq)
  then have "n div 100 = e2 mod 10 + 10 * e3"
    using join [of "40 * d3" e2] by (simp add: e3)
  note p2 = split [OF this]
  then show "n div 100 mod 10 = e2 mod 10" and e: "n div 1000 = e3" by (simp_all flip: div_mult2_eq)
  from e have "n div 1000 div 10 = e3 div 10" by simp
  then show "n div 10000 = e3 div 10" by (simp flip: div_mult2_eq)
qed

lemma unat_mult_32: "unat a * unat b < 2 ^ 32 \<Longrightarrow> unat (a * b :: u32) = unat a * unat b"
  by (simp add: unat_word_ariths)

lemma mod_16_and: "x AND 15 = x mod 16" for x :: nat
  using take_bit_eq_mask [of 4 x] by (simp add: mask_eq_exp_minus_1 take_bit_eq_mod)

lemma div10_words:
  "unat e \<le> 999 \<Longrightarrow> unat (drop_bit 11 (e * 0xcd) :: u32) = unat e div 10"
  "unat e \<le> 68 \<Longrightarrow> unat (drop_bit 7 (e * 0xd) :: u32) = unat e div 10"
proof -
  have m: "unat e \<le> 999 \<Longrightarrow> unat (e * 0xcd :: u32) = unat e * 205" by (subst unat_mult_32) simp_all
  then show "unat e \<le> 999 \<Longrightarrow> unat (drop_bit 11 (e * 0xcd) :: u32) = unat e div 10"
    by (simp add: unat_drop_bit div10_cd)
  have "unat e \<le> 68 \<Longrightarrow> unat (e * 0xd :: u32) = unat e * 13" by (subst unat_mult_32) simp_all
  then show "unat e \<le> 68 \<Longrightarrow> unat (drop_bit 7 (e * 0xd) :: u32) = unat e div 10"
    by (simp add: unat_drop_bit div10_d)
qed

lemma ucast_dec_char: "(q :: u32) = word_of_nat (48 + n) \<Longrightarrow> ucast q = dec_char n"
  by (simp only: dec_char_def) (transfer, simp)

lemma digit_word:
  fixes e q :: u32
  assumes "unat q = unat e div 10"
  shows "ucast (e - 10 * q + 0x30) = dec_char (unat e mod 10)"
proof -
  have "10 * (unat e div 10) < 2 ^ 32" by (rule le_less_trans [OF _ unat_less_32 [of e]]) simp
  then have "unat (10 * q) = 10 * (unat e div 10)" using assms by (subst unat_mult_32) simp_all
  then have d: "unat (e - 10 * q) = unat e mod 10" by (subst unat_sub_32) (simp_all add: minus_mult_div_eq_mod)
  then have "unat (e - 10 * q) < 10" by simp
  then have "e - 10 * q + 0x30 = word_of_nat (48 + unat e mod 10)" using d
    by (intro word_unat_eq_iff [THEN iffD2]) (simp add: unat_add_32 unat_word_of_nat_32)
  then show ?thesis by (rule ucast_dec_char)
qed

lemma unat_hex_digits:
  "unat (q AND 0xf) = unat q mod 16"
  "unat (drop_bit 4 q) = unat q div 16" "unat (drop_bit 8 q) = unat q div 256" "unat (drop_bit 12 q) = unat q div 4096"
  for q :: u32
  by (simp_all add: unat_and unat_drop_bit mod_16_and)

lemma hex_split: "n = 4096 * (n div 4096) + 256 * (n div 256 mod 16) + 16 * (n div 16 mod 16) + n mod 16" for n :: nat
proof -
  have "n div 16 div 16 = n div 256" "n div 256 div 16 = n div 4096" by (simp_all flip: div_mult2_eq)
  then have "16 * (n div 4096) + n div 256 mod 16 = n div 256" "16 * (n div 256) + n div 16 mod 16 = n div 16"
    "16 * (n div 16) + n mod 16 = n"
    using mult_div_mod_eq [of 16 n] mult_div_mod_eq [of 16 "n div 16"] mult_div_mod_eq [of 16 "n div 256"] by simp_all
  then have "16 * (16 * (16 * (n div 4096) + n div 256 mod 16) + n div 16 mod 16) + n mod 16 = n" by (simp only:)
  then show ?thesis by (simp add: distrib_left)
qed

text \<open>What the two functions compute in common, for \<open>q\<close> below \<open>100000\<close>.\<close>

lemma dec_words:
  fixes q :: u32
  assumes q: "unat q < 100000"
    and d1: "d1 = drop_bit 4 q AND 0xf" and d2: "d2 = drop_bit 8 q AND 0xf" and d3: "d3 = drop_bit 12 q"
    and e0: "e0 = 6 * (d3 + d2 + d1) + (q AND 0xf)" and q0: "q0 = drop_bit 11 (e0 * 0xcd)"
    and e1: "e1 = q0 + 9 * d3 + 5 * d2 + d1" and q1: "q1 = drop_bit 11 (e1 * 0xcd)"
    and e2: "e2 = q1 + 2 * d2" and q2: "q2 = drop_bit 7 (e2 * 0xd)"
    and e3: "e3 = q2 + 4 * d3" and q3: "q3 = drop_bit 11 (e3 * 0xcd)"
  shows "ucast (e0 - 10 * q0 + 0x30) = dec_char (unat q mod 10)"
    "ucast (e1 - 10 * q1 + 0x30) = dec_char (unat q div 10 mod 10)"
    "ucast (e2 - 10 * q2 + 0x30) = dec_char (unat q div 100 mod 10)"
    "ucast (e3 - 10 * q3 + 0x30) = dec_char (unat q div 1000 mod 10)"
    "ucast (q3 + 0x30) = dec_char (unat q div 10000)"
    "e1 = 0 \<longleftrightarrow> unat q div 10 = 0" "e2 = 0 \<and> d3 = 0 \<longleftrightarrow> unat q div 100 = 0"
    "e3 = 0 \<longleftrightarrow> unat q div 1000 = 0" "q3 = 0 \<longleftrightarrow> unat q div 10000 = 0"
proof -
  have h: "unat d1 < 16" "unat d2 < 16" "unat (q AND 0xf) < 16" "unat d3 \<le> 24"
    using q by (simp_all add: d1 d2 d3 unat_hex_digits)
  have n: "unat q = 4096 * unat d3 + 256 * unat d2 + 16 * unat d1 + unat (q AND 0xf)"
    unfolding d1 d2 d3 unat_hex_digits by (rule hex_split)
  have e0': "unat e0 = 6 * (unat d3 + unat d2 + unat d1) + unat (q AND 0xf)" "unat e0 \<le> 339"
  proof -
    have "unat (d3 + d2 + d1) = unat d3 + unat d2 + unat d1" using h by (simp add: unat_add_32)
    then have "unat (6 * (d3 + d2 + d1)) = 6 * (unat d3 + unat d2 + unat d1)"
      using h by (subst unat_mult_32) simp_all
    then show "unat e0 = 6 * (unat d3 + unat d2 + unat d1) + unat (q AND 0xf)"
      unfolding e0 using h by (subst unat_add_32) simp_all
    then show "unat e0 \<le> 339" using h by simp
  qed
  then have q0': "unat q0 = unat e0 div 10" by (simp add: q0 div10_words)
  have e1': "unat e1 = unat e0 div 10 + 9 * unat d3 + 5 * unat d2 + unat d1" "unat e1 \<le> 339"
  proof -
    have "unat (9 * d3) = 9 * unat d3" "unat (5 * d2) = 5 * unat d2" using h by (simp_all add: unat_mult_32)
    moreover have "unat e0 div 10 \<le> 33" using e0'(2) by simp
    ultimately show "unat e1 = unat e0 div 10 + 9 * unat d3 + 5 * unat d2 + unat d1"
      using h q0' by (simp add: e1 unat_add_32)
    then show "unat e1 \<le> 339" using h \<open>unat e0 div 10 \<le> 33\<close> by linarith
  qed
  then have q1': "unat q1 = unat e1 div 10" by (simp add: q1 div10_words)
  have e2': "unat e2 = unat e1 div 10 + 2 * unat d2" "unat e2 \<le> 63"
  proof -
    have "unat (2 * d2) = 2 * unat d2" using h by (simp add: unat_mult_32)
    moreover have "unat e1 div 10 \<le> 33" using e1'(2) by simp
    ultimately show "unat e2 = unat e1 div 10 + 2 * unat d2" "unat e2 \<le> 63"
      using h q1' by (simp_all add: e2 unat_add_32)
  qed
  then have q2': "unat q2 = unat e2 div 10" by (simp add: q2 div10_words)
  have e3': "unat e3 = unat e2 div 10 + 4 * unat d3" "unat e3 \<le> 102"
  proof -
    have "unat (4 * d3) = 4 * unat d3" using h by (simp add: unat_mult_32)
    moreover have "unat e2 div 10 \<le> 6" using e2'(2) by simp
    ultimately show "unat e3 = unat e2 div 10 + 4 * unat d3" "unat e3 \<le> 102"
      using h q2' by (simp_all add: e3 unat_add_32)
  qed
  then have q3': "unat q3 = unat e3 div 10" by (simp add: q3 div10_words)
  note places = decimal_places [OF n e0'(1) e1'(1) e2'(1) e3'(1)]
  show "ucast (e0 - 10 * q0 + 0x30) = dec_char (unat q mod 10)"
    "ucast (e1 - 10 * q1 + 0x30) = dec_char (unat q div 10 mod 10)"
    "ucast (e2 - 10 * q2 + 0x30) = dec_char (unat q div 100 mod 10)"
    "ucast (e3 - 10 * q3 + 0x30) = dec_char (unat q div 1000 mod 10)"
    unfolding places(1) places(3) places(5) places(6) by (simp_all only: digit_word q0' q1' q2' q3')
  show "ucast (q3 + 0x30) = dec_char (unat q div 10000)"
    unfolding places(7) q3' [symmetric] by (rule ucast_dec_char) simp
  show "e1 = 0 \<longleftrightarrow> unat q div 10 = 0"
    unfolding places(2) unat_eq_zero [symmetric] using e1'(1) by auto
  show "e2 = 0 \<and> d3 = 0 \<longleftrightarrow> unat q div 100 = 0" "e3 = 0 \<longleftrightarrow> unat q div 1000 = 0"
    unfolding places(4) places(6) unat_eq_zero [symmetric] by auto
  show "q3 = 0 \<longleftrightarrow> unat q div 10000 = 0"
    unfolding places(7) unat_eq_zero [symmetric] q3' by simp
qed

lemma put_dec_full_digits:
  assumes "unat q < 100000"
  shows "put_dec_full q = map dec_char
    [unat q mod 10, unat q div 10 mod 10, unat q div 100 mod 10, unat q div 1000 mod 10, unat q div 10000]"
  unfolding put_dec_full_def Let_def
  by (simp only: dec_words [OF assms refl refl refl refl refl refl refl refl refl refl refl] list.map)

lemma put_dec_trunc_digits:
  assumes "unat q < 100000"
  shows "put_dec_trunc q = map dec_char (digits_rev 10 (unat q))"
proof -
  have d: "digits_rev 10 n = n mod 10 # (if n div 10 = 0 then [] else digits_rev 10 (n div 10))" for n
    by (subst digits_rev.simps) auto
  have l: "unat q div 10000 < 10" using assms by (simp add: less_mult_imp_div_less)
  have "digits_rev 10 (unat q) = unat q mod 10 # (if unat q div 10 = 0 then [] else
      unat q div 10 mod 10 # (if unat q div 100 = 0 then [] else
      unat q div 100 mod 10 # (if unat q div 1000 = 0 then [] else
      unat q div 1000 mod 10 # (if unat q div 10000 = 0 then [] else [unat q div 10000]))))"
    using l by (subst d, subst d, subst d, subst d, subst d)
      (simp only: div_mult2_eq [symmetric], simp)
  then show ?thesis
    unfolding put_dec_trunc_def Let_def
    by (simp only: dec_words [OF assms refl refl refl refl refl refl refl refl refl refl refl] list.map
        if_distrib [of "map dec_char"] de_Morgan_conj [symmetric]) simp
qed

lemma digits_rev_10: "10 \<le> n \<Longrightarrow> digits_rev 10 n = n mod 10 # digits_rev 10 (n div 10)"
  by (subst digits_rev.simps) simp

lemma digits_rev_five:
  assumes "100000 \<le> n"
  shows "digits_rev 10 n =
    [n mod 10, n div 10 mod 10, n div 100 mod 10, n div 1000 mod 10, n div 10000 mod 10] @ digits_rev 10 (n div 100000)"
proof -
  have "10 \<le> n" "10 \<le> n div 10" "10 \<le> n div 100" "10 \<le> n div 1000" "10 \<le> n div 10000"
    using assms by (simp_all add: less_eq_div_iff_mult_less_eq)
  then show ?thesis by (simp add: digits_rev_10 flip: div_mult2_eq)
qed

lemma mod_100000_places:
  fixes n :: nat
  defines "r \<equiv> n mod 100000"
  shows "r mod 10 = n mod 10" "r div 10 mod 10 = n div 10 mod 10" "r div 100 mod 10 = n div 100 mod 10"
    "r div 1000 mod 10 = n div 1000 mod 10" "r div 10000 = n div 10000 mod 10"
proof -
  define k where "k = n div 100000"
  have n: "n = r + 100000 * k" and r: "r < 100000" by (simp_all add: r_def k_def)
  have "n = r + 10 * (10000 * k)" "n = r + 100 * (1000 * k)" "n = r + 1000 * (100 * k)" "n = r + 10000 * (10 * k)"
    using n by simp_all
  then have "n div 10 = 10 * (1000 * k) + r div 10" "n div 100 = 10 * (100 * k) + r div 100"
    "n div 1000 = 10 * (10 * k) + r div 1000" "n div 10000 = 10 * k + r div 10000"
    by simp_all
  then have "n div 10 mod 10 = r div 10 mod 10" "n div 100 mod 10 = r div 100 mod 10"
    "n div 1000 mod 10 = r div 1000 mod 10" "n div 10000 mod 10 = r div 10000 mod 10"
    by (simp_all only: mod_mult_self4)
  moreover have "r div 10000 < 10" using r by (simp add: less_mult_imp_div_less)
  moreover have "n mod 10 = r mod 10" unfolding r_def by (simp add: mod_mod_cancel)
  ultimately show "r mod 10 = n mod 10" "r div 10 mod 10 = n div 10 mod 10" "r div 100 mod 10 = n div 100 mod 10"
    "r div 1000 mod 10 = n div 1000 mod 10" "r div 10000 = n div 10000 mod 10"
    by simp_all
qed

lemma unat_u64_ops: "unat (num div 100000) = unat num div 100000" "unat (num mod 100000) = unat num mod 100000"
  for num :: u64
  by (simp_all add: unat_div unat_mod)

lemma unat_ucast_small: "unat (v :: u64) < 2 ^ 32 \<Longrightarrow> unat (ucast v :: u32) = unat v"
  by (simp add: unsigned_ucast_eq take_bit_nat_eq_self)

text \<open>The optimised conversion is the conversion by repeated division.\<close>

lemma put_dec_digits: "put_dec num = map dec_char (digits_rev 10 (unat num))"
proof (induction num rule: put_dec.induct)
  case (1 num)
  show ?case
  proof (cases "num < 100000")
    case True
    then have "unat num < 100000" by (simp add: word_less_nat_alt)
    with True show ?thesis
      by (subst put_dec.simps) (simp add: put_dec_trunc_digits unat_ucast_small)
  next
    case False
    then have n: "100000 \<le> unat num" by (simp add: word_less_nat_alt)
    have "unat num mod 100000 < 100000" by simp
    then have r: "unat (ucast (num mod 100000) :: u32) = unat num mod 100000"
      by (subst unat_ucast_small) (simp_all add: unat_u64_ops)
    have l: "unat (ucast (num mod 100000) :: u32) < 100000" by (simp only: r)
    have "put_dec_full (ucast (num mod 100000)) = map dec_char [unat num mod 10, unat num div 10 mod 10,
        unat num div 100 mod 10, unat num div 1000 mod 10, unat num div 10000 mod 10]"
      by (simp only: put_dec_full_digits [OF l] r mod_100000_places)
    with False show ?thesis
      by (subst put_dec.simps) (simp add: 1 unat_u64_ops digits_rev_five [OF n])
  qed
qed

subsection \<open>The output buffer\<close>

record outbuf =
  o_str :: nat
  o_end :: nat
  o_mem :: mem

definition put :: "outbuf \<Rightarrow> byte \<Rightarrow> outbuf" where
  "put b c = b\<lparr>o_str := Suc (o_str b),
    o_mem := (if o_str b < o_end b then (o_mem b)(o_str b := c) else o_mem b)\<rparr>"

definition puts :: "outbuf \<Rightarrow> byte list \<Rightarrow> outbuf" where
  "puts b cs = foldl put b cs"

subsection \<open>Flags and specifications\<close>

definition ZEROPAD :: byte where "ZEROPAD = 1"
definition SIGN :: byte where "SIGN = 2"
definition PLUS :: byte where "PLUS = 4"
definition SPACE :: byte where "SPACE = 8"
definition LEFT :: byte where "LEFT = 16"
definition SMALL :: byte where "SMALL = 32"
definition SPECIAL :: byte where "SPECIAL = 64"

lemmas flag_defs = ZEROPAD_def SIGN_def PLUS_def SPACE_def LEFT_def SMALL_def SPECIAL_def

definition has :: "byte \<Rightarrow> byte \<Rightarrow> bool" where
  "has flags f \<longleftrightarrow> flags AND f \<noteq> 0"

datatype format_type =
    FORMAT_TYPE_NONE | FORMAT_TYPE_WIDTH | FORMAT_TYPE_PRECISION | FORMAT_TYPE_CHAR | FORMAT_TYPE_STR
  | FORMAT_TYPE_PTR | FORMAT_TYPE_PERCENT_CHAR | FORMAT_TYPE_INVALID | FORMAT_TYPE_LONG_LONG
  | FORMAT_TYPE_ULONG | FORMAT_TYPE_LONG | FORMAT_TYPE_UBYTE | FORMAT_TYPE_BYTE | FORMAT_TYPE_USHORT
  | FORMAT_TYPE_SHORT | FORMAT_TYPE_UINT | FORMAT_TYPE_INT | FORMAT_TYPE_NRCHARS | FORMAT_TYPE_SIZE_T
  | FORMAT_TYPE_PTRDIFF

record printf_spec =
  sp_type :: format_type
  sp_flags :: byte
  sp_base :: byte
  sp_qualifier :: byte
  sp_width :: int
  sp_precision :: int

definition s16 :: "int \<Rightarrow> int" where
  "s16 x = (x + 32768) mod 65536 - 32768"

subsection \<open>Numbers\<close>

text \<open>\<^verbatim>\<open>do { tmp[i++] = digits[...] | locase; num >>= shift; } while (num);\<close>\<close>

function radix_loop :: "byte \<Rightarrow> byte \<Rightarrow> u64 \<Rightarrow> byte list" where
  "radix_loop base locase num =
    (let num' = drop_bit (if base = 16 then 4 else 3) num
     in (lit ''0123456789ABCDEF'' ! unat (ucast num AND (base - 1)) OR locase) #
        (if num' \<noteq> 0 then radix_loop base locase num' else []))"
  by pat_completeness auto

lemma drop_bit_less: "0 < k \<Longrightarrow> drop_bit k w \<noteq> 0 \<Longrightarrow> unat (drop_bit k w) < unat w" for w :: "'a::len word"
proof -
  assume "0 < k" "drop_bit k w \<noteq> 0"
  then have "unat w \<noteq> 0" by (auto simp: unat_eq_zero)
  moreover have "1 < (2 :: nat) ^ k" using \<open>0 < k\<close> by (rule_tac one_less_power) simp_all
  ultimately show ?thesis by (simp add: unat_drop_bit)
qed

termination radix_loop
  by (relation "measure (\<lambda>(base, locase, num). unat num)") (auto intro!: drop_bit_less split: if_splits)

declare radix_loop.simps [simp del]

text \<open>\<^verbatim>\<open>while (--spec.field_width >= 0) put c;\<close>, with the field width it leaves.\<close>

function pad_loop :: "outbuf \<Rightarrow> byte \<Rightarrow> int \<Rightarrow> outbuf \<times> int" where
  "pad_loop b c fw =
    (let fw = s16 (fw - 1) in if fw \<ge> 0 then pad_loop (put b c) c fw else (b, fw))"
  by pat_completeness auto

lemma s16_less: "0 \<le> s16 (fw - 1) \<Longrightarrow> s16 (fw - 1) < fw \<or> fw \<le> - 32768"
  unfolding s16_def by (cases "fw \<le> - 32768") (auto, smt (verit) zmod_le_nonneg_dividend)

definition s16_steps :: "int \<Rightarrow> nat" where
  "s16_steps fw = (if fw \<le> - 32768 then 40000 else nat (fw + 1))"

lemma s16_bounds: "- 32768 \<le> s16 x" "s16 x \<le> 32767"
  by (simp_all add: s16_def)

lemma s16_steps_less: "0 \<le> s16 (fw - 1) \<Longrightarrow> s16_steps (s16 (fw - 1)) < s16_steps fw"
  using s16_less [of fw] s16_bounds [of "fw - 1"] by (auto simp: s16_steps_def)

termination pad_loop
  by (relation "measure (\<lambda>(b, c, fw). s16_steps fw)") (auto intro: s16_steps_less)

declare pad_loop.simps [simp del]

text \<open>\<^verbatim>\<open>while (i <= --spec.precision) put '0';\<close>\<close>

function zero_loop :: "outbuf \<Rightarrow> nat \<Rightarrow> int \<Rightarrow> outbuf" where
  "zero_loop b i prec =
    (let prec = s16 (prec - 1) in if int i \<le> prec then zero_loop (put b (chr CHR ''0'')) i prec else b)"
  by pat_completeness auto

termination zero_loop
  by (relation "measure (\<lambda>(b, i, prec). s16_steps prec)") (auto intro!: s16_steps_less)

declare zero_loop.simps [simp del]

definition number :: "outbuf \<Rightarrow> u64 \<Rightarrow> printf_spec \<Rightarrow> outbuf" where
  "number b num spec =
    (let base = sp_base spec;
         need_pfx = has (sp_flags spec) SPECIAL \<and> base \<noteq> 10;
         locase = sp_flags spec AND SMALL;
         flags = (if has (sp_flags spec) LEFT then sp_flags spec AND NOT ZEROPAD else sp_flags spec);
         (sign, num, fw) =
           (if has flags SIGN then
              if sint num < 0 then (chr CHR ''-'', - num, s16 (sp_width spec - 1))
              else if has flags PLUS then (chr CHR ''+'', num, s16 (sp_width spec - 1))
              else if has flags SPACE then (chr CHR '' '', num, s16 (sp_width spec - 1))
              else (0, num, sp_width spec)
            else (0, num, sp_width spec));
         fw = (if need_pfx then
                 let fw = s16 (fw - 1) in if base = 16 then s16 (fw - 1) else fw
               else fw);
         tmp = (if num = 0 then [chr CHR ''0'']
                else if base \<noteq> 10 then radix_loop base locase num
                else put_dec num);
         i = length tmp;
         prec = (if int i > sp_precision spec then int i else sp_precision spec);
         fw = s16 (fw - prec);
         (b, fw) = (if \<not> has flags (ZEROPAD + LEFT) then pad_loop b (chr CHR '' '') fw else (b, fw));
         b = (if sign \<noteq> 0 then put b sign else b);
         b = (if need_pfx then
                let b = put b (chr CHR ''0'') in if base = 16 then put b (chr CHR ''X'' OR locase) else b
              else b);
         (b, fw) = (if \<not> has flags LEFT
                    then pad_loop b (if has flags ZEROPAD then chr CHR ''0'' else chr CHR '' '') fw
                    else (b, fw));
         b = zero_loop b i prec;
         b = puts b (rev tmp);
         (b, fw) = pad_loop b (chr CHR '' '') fw
     in b)"

subsection \<open>Strings\<close>

text \<open>
  \<^verbatim>\<open>while (len < spec.field_width--) put ' ';\<close> -- the width is decremented after the test that
  ends the loop as well.
\<close>

function space_loop :: "outbuf \<Rightarrow> nat \<Rightarrow> int \<Rightarrow> outbuf \<times> int" where
  "space_loop b len fw =
    (if int len < fw then space_loop (put b (chr CHR '' '')) len (s16 (fw - 1)) else (b, s16 (fw - 1)))"
  by pat_completeness auto

lemma s16_minus_less: "0 < fw \<Longrightarrow> s16 (fw - 1) < fw"
  by (simp add: s16_def) (smt (verit) zmod_le_nonneg_dividend)

termination space_loop
  by (relation "measure (\<lambda>(b, len, fw). nat (fw + 32769))") (auto simp: s16_minus_less s16_bounds)

declare space_loop.simps [simp del]

definition string_chars :: "outbuf \<Rightarrow> byte list \<Rightarrow> printf_spec \<Rightarrow> outbuf" where
  "string_chars b cs spec =
    (let len = length cs; fw = sp_width spec;
         (b, fw) = (if \<not> has (sp_flags spec) LEFT then space_loop b len fw else (b, fw));
         b = puts b cs;
         (b, fw) = space_loop b len fw
     in b)"

definition PAGE_SIZE :: u32 where
  "PAGE_SIZE = 0x1000"

text \<open>The precision as the \<^verbatim>\<open>size_t\<close> argument of \<^verbatim>\<open>strnlen\<close>: \<open>-1\<close> is the largest count.\<close>

definition size_t :: "int \<Rightarrow> nat" where
  "size_t x = nat (x mod 2 ^ 32)"

definition string_lit :: "outbuf \<Rightarrow> byte list \<Rightarrow> printf_spec \<Rightarrow> outbuf" where
  "string_lit b s spec = string_chars b (take (size_t (sp_precision spec)) s) spec"

definition string_put :: "outbuf \<Rightarrow> mem \<Rightarrow> u32 \<Rightarrow> printf_spec \<Rightarrow> outbuf" where
  "string_put b m s spec =
    (if s < PAGE_SIZE then string_lit b (lit ''(null)'') spec
     else let len = strnlen m (unat s) (size_t (sp_precision spec))
          in string_chars b (bytes_at m (unat s) len) spec)"

subsection \<open>Each function puts a text that does not depend on the buffer\<close>

lemma puts_simps [simp]: "puts b [] = b" "puts b (c # cs) = puts (put b c) cs" "puts (puts b cs) ds = puts b (cs @ ds)"
  by (simp_all add: puts_def)

lemma put_puts: "put b c = puts b [c]"
  by simp

lemma puts_str [simp]: "o_str (puts b cs) = o_str b + length cs" "o_end (puts b cs) = o_end b"
  by (induction cs arbitrary: b) (simp_all add: put_def)

text \<open>The text is in the buffer as far as the buffer goes; nothing else changes.\<close>

lemma puts_mem:
  "o_mem (puts b cs) a =
    (if o_str b \<le> a \<and> a < o_str b + length cs \<and> a < o_end b then cs ! (a - o_str b) else o_mem b a)"
proof (induction cs arbitrary: b)
  case (Cons c cs)
  have "o_mem (put b c) a = (if a = o_str b \<and> a < o_end b then c else o_mem b a)" by (auto simp: put_def)
  moreover have "o_str (put b c) = Suc (o_str b)" "o_end (put b c) = o_end b" by (simp_all add: put_def)
  ultimately show ?case using Cons.IH [of "put b c"] by (auto simp: nth_Cons' Suc_le_eq)
qed auto

definition pad_n :: "int \<Rightarrow> nat" where
  "pad_n fw = (if fw = - 32768 then 32768 else nat fw)"

definition pad_end :: "int \<Rightarrow> int" where
  "pad_end fw = (if fw = - 32768 \<or> 0 \<le> fw then - 1 else fw - 1)"

lemma s16_id: "- 32768 \<le> x \<Longrightarrow> x \<le> 32767 \<Longrightarrow> s16 x = x"
  by (simp add: s16_def)

lemma s16_idem [simp]: "s16 (s16 x) = s16 x"
  by (simp add: s16_id s16_bounds)

lemma pad_loop_nat: "n \<le> 32767 \<Longrightarrow> pad_loop b c (int n) = (puts b (replicate n c), - 1)"
proof (induction n arbitrary: b)
  case 0
  then show ?case by (subst pad_loop.simps) (simp add: s16_id)
next
  case (Suc n)
  then show ?case by (subst pad_loop.simps) (simp add: s16_id)
qed

lemma pad_loop_text:
  assumes "- 32768 \<le> fw" "fw \<le> 32767"
  shows "pad_loop b c fw = (puts b (replicate (pad_n fw) c), pad_end fw)"
proof -
  consider "fw = - 32768" | "- 32768 < fw" "fw < 0" | n where "fw = int n" "n \<le> 32767"
    using assms by (metis int_nat_eq linorder_not_less nat_le_iff of_nat_numeral order_le_imp_less_or_eq)
  then show ?thesis
  proof cases
    case 1
    define n :: nat where "n = 32767"
    have n: "s16 (fw - 1) = int n" "n \<le> 32767" "pad_n fw = Suc n" "pad_end fw = - 1"
      by (simp_all add: 1 n_def s16_def pad_n_def pad_end_def)
    then have "pad_loop b c fw = pad_loop (put b c) c (int n)"
      by (subst pad_loop.simps) (simp only: Let_def, simp)
    then show ?thesis by (simp add: pad_loop_nat n)
  next
    case 2
    then show ?thesis by (subst pad_loop.simps) (simp add: s16_id pad_n_def pad_end_def)
  next
    case 3
    then show ?thesis by (simp add: pad_loop_nat pad_n_def pad_end_def)
  qed
qed

lemma zero_loop_text:
  assumes "int i \<le> prec" "prec \<le> 32767"
  shows "zero_loop b i prec = puts b (replicate (nat prec - i) (chr CHR ''0''))"
proof -
  have "zero_loop b i (int (i + n)) = puts b (replicate n (chr CHR ''0''))" if "i + n \<le> 32767" for n
    using that
  proof (induction n arbitrary: b)
    case 0
    then show ?case by (subst zero_loop.simps) (simp add: s16_id)
  next
    case (Suc n)
    have "s16 (int (i + Suc n) - 1) = int (i + n)" using Suc.prems by (simp add: s16_id)
    then show ?case using Suc by (subst zero_loop.simps) (simp only: Let_def, simp)
  qed
  from this [of "nat prec - i"] show ?thesis using assms by (simp add: nat_le_iff)
qed

definition radix_char :: "byte \<Rightarrow> nat \<Rightarrow> byte" where
  "radix_char locase d = lit ''0123456789ABCDEF'' ! d OR locase"

lemma unat_low_digit:
  "unat (ucast num AND (7 :: byte)) = unat num mod 8" "unat (ucast num AND (15 :: byte)) = unat num mod 16"
  for num :: u64
proof -
  have u: "unat (ucast num :: byte) = unat num mod 2 ^ 8"
    by (simp add: unsigned_ucast_eq take_bit_eq_mod)
  have 7: "x AND 7 = x mod 8" for x :: nat
    using take_bit_eq_mask [of 3 x] by (simp add: mask_eq_exp_minus_1 take_bit_eq_mod)
  show "unat (ucast num AND (7 :: byte)) = unat num mod 8" "unat (ucast num AND (15 :: byte)) = unat num mod 16"
    by (simp_all add: unat_and u 7 mod_16_and mod_mod_cancel)
qed

lemma radix_loop_digits:
  assumes "base = 8 \<or> base = 16"
  shows "radix_loop base locase num = map (radix_char locase) (digits_rev (unat base) (unat num))"
proof (induction "unat num" arbitrary: num rule: less_induct)
  case less
  define k :: nat where "k = (if base = 16 then 4 else 3)"
  have k: "unat base = 2 ^ k" "0 < k" using assms by (auto simp: k_def)
  have low: "unat (ucast num AND (base - 1)) = unat num mod unat base"
    using assms unat_low_digit [of num] by auto
  have d: "unat (drop_bit k num) = unat num div unat base" by (simp add: unat_drop_bit k)
  have z: "drop_bit k num = 0 \<longleftrightarrow> unat num < unat base"
    unfolding unat_eq_zero [symmetric] d using k by (simp add: div_eq_0_iff)
  have b: "\<not> unat base < 2" using assms by auto
  show ?case
  proof (cases "unat num < unat base")
    case True
    with low have "unat (ucast num AND (base - 1)) = unat num" by simp
    moreover from True have "drop_bit k num = 0" using z by simp
    ultimately show ?thesis using True
      by (subst radix_loop.simps, subst digits_rev.simps) (simp add: radix_char_def k_def [symmetric])
  next
    case False
    then have "unat (drop_bit k num) < unat num" using k z by (intro drop_bit_less) auto
    note IH = less [OF this, unfolded d]
    from False show ?thesis
      by (subst radix_loop.simps, subst digits_rev.simps)
        (simp add: radix_char_def k_def [symmetric] low b z IH)
  qed
qed

lemma length_digits_rev: "2 \<le> b \<Longrightarrow> n < b ^ k \<Longrightarrow> 0 < k \<Longrightarrow> length (digits_rev b n) \<le> k"
proof (induction k arbitrary: n)
  case (Suc k)
  show ?case
  proof (cases "n < b")
    case True
    then show ?thesis by (subst digits_rev.simps) simp
  next
    case False
    with Suc.prems have "0 < k" by (cases k) auto
    moreover have "n div b < b ^ k" using Suc.prems by (simp add: less_mult_imp_div_less mult.commute)
    ultimately show ?thesis using Suc False by (subst digits_rev.simps) simp
  qed
qed simp

text \<open>The parts of a printed number: its sign, the prefix of its base and its digits.\<close>

definition num_sign :: "byte \<Rightarrow> u64 \<Rightarrow> byte list" where
  "num_sign flags num =
    (if \<not> has flags SIGN then []
     else if sint num < 0 then lit ''-''
     else if has flags PLUS then lit ''+''
     else if has flags SPACE then lit '' '' else [])"

definition num_abs :: "byte \<Rightarrow> u64 \<Rightarrow> u64" where
  "num_abs flags num = (if has flags SIGN \<and> sint num < 0 then - num else num)"

definition num_pfx :: "byte \<Rightarrow> byte \<Rightarrow> byte list" where
  "num_pfx flags base =
    (if has flags SPECIAL \<and> base \<noteq> 10 then
       if base = 16 then [chr CHR ''0'', chr CHR ''X'' OR (flags AND SMALL)] else [chr CHR ''0'']
     else [])"

definition num_digits :: "byte \<Rightarrow> byte \<Rightarrow> u64 \<Rightarrow> byte list" where
  "num_digits flags base num = rev (map (radix_char (flags AND SMALL)) (digits_rev (unat base) (unat num)))"

definition number_text :: "u64 \<Rightarrow> printf_spec \<Rightarrow> byte list" where
  "number_text num spec =
    (let flags = sp_flags spec;
         ds = num_digits flags (sp_base spec) (num_abs flags num);
         sg = num_sign flags num;
         pfx = num_pfx flags (sp_base spec);
         prec = max (int (length ds)) (sp_precision spec);
         fw = s16 (sp_width spec - int (length sg) - int (length pfx) - prec);
         fw1 = (if has flags ZEROPAD \<or> has flags LEFT then fw else pad_end fw);
         fw2 = (if has flags LEFT then fw1 else pad_end fw1)
     in (if has flags ZEROPAD \<or> has flags LEFT then [] else replicate (pad_n fw) (chr CHR '' '')) @ sg @ pfx @
        (if has flags LEFT then []
         else replicate (pad_n fw1) (if has flags ZEROPAD then chr CHR ''0'' else chr CHR '' '')) @
        replicate (nat prec - length ds) (chr CHR ''0'') @ ds @
        replicate (pad_n fw2) (chr CHR '' ''))"

lemma has_clear_zeropad:
  "has (flags AND NOT ZEROPAD) LEFT = has flags LEFT" "has (flags AND NOT ZEROPAD) SIGN = has flags SIGN"
  "has (flags AND NOT ZEROPAD) PLUS = has flags PLUS" "has (flags AND NOT ZEROPAD) SPACE = has flags SPACE"
  "\<not> has (flags AND NOT ZEROPAD) ZEROPAD"
  by (simp_all add: has_def flag_defs and.assoc and.commute [of "NOT _"] and.left_commute)

lemma has_zeropad_left: "has flags (ZEROPAD + LEFT) \<longleftrightarrow> has flags ZEROPAD \<or> has flags LEFT"
proof -
  have "ZEROPAD + LEFT = ZEROPAD OR LEFT" by (simp add: flag_defs)
  then show ?thesis by (simp add: has_def bit.conj_disj_distrib or_eq_0_iff)
qed

lemma s16_minus: "s16 (s16 x - y) = s16 (x - y)"
  by (simp add: s16_def) (simp add: mod_diff_left_eq algebra_simps)

lemma and_SMALL: "flags AND SMALL = 0 \<or> flags AND SMALL = 0x20"
proof -
  have "flags AND 2 ^ k = (if bit flags k then 2 ^ k else 0)" for flags :: byte and k
    by (rule bit_word_eqI) (auto simp: bit_simps)
  from this [of flags 5] show ?thesis by (auto simp: SMALL_def)
qed

lemma radix_char_dec:
  assumes "d < 10"
  shows "radix_char (flags AND SMALL) d = dec_char d"
proof -
  have "d \<in> set [0..<10]" using assms by simp
  then have "lit ''0123456789ABCDEF'' ! d = dec_char d \<and> dec_char d OR 0x20 = dec_char d"
    by (auto simp: upt_rec dec_char_def)
  with and_SMALL [of flags] show ?thesis by (auto simp: radix_char_def)
qed

lemma digits_rev_less: "2 \<le> b \<Longrightarrow> d \<in> set (digits_rev b n) \<Longrightarrow> d < b"
  by (induction b n rule: digits_rev.induct) (subst (asm) (2) digits_rev.simps, auto split: if_splits)

lemma number_digits:
  assumes "base \<in> {8, 10, 16}"
  shows "(if num = 0 then [chr CHR ''0''] else if base \<noteq> 10 then radix_loop base (flags AND SMALL) num
    else put_dec num) = rev (num_digits flags base num)"
proof -
  have "radix_char (flags AND SMALL) 0 = chr CHR ''0''" by (simp add: radix_char_dec dec_char_def)
  moreover have "digits_rev (unat base) 0 = [0]" using assms by (subst digits_rev.simps) auto
  moreover have "map dec_char (digits_rev 10 (unat num)) = map (radix_char (flags AND SMALL)) (digits_rev 10 (unat num))"
    by (rule map_cong [OF refl]) (simp add: radix_char_dec digits_rev_less [of 10])
  ultimately show ?thesis
    using assms by (auto simp: num_digits_def radix_loop_digits put_dec_digits)
qed

lemma length_num_digits: "base \<in> {8, 10, 16} \<Longrightarrow> length (num_digits flags base num) \<le> 64"
proof -
  assume b: "base \<in> {8, 10, 16}"
  have "unat num < 2 ^ 64" by (rule order_less_le_trans [OF unsigned_less]) simp
  also have "\<dots> \<le> unat base ^ 64" using b by (intro power_mono) auto
  finally show ?thesis using b by (auto simp: num_digits_def intro!: length_digits_rev)
qed

text \<open>A specification whose fields are in range, with one of the three bases.\<close>

definition spec_ok :: "printf_spec \<Rightarrow> bool" where
  "spec_ok spec \<longleftrightarrow> sp_base spec \<in> {8, 10, 16} \<and> - 32768 \<le> sp_width spec \<and> sp_width spec \<le> 32767 \<and>
    - 32768 \<le> sp_precision spec \<and> sp_precision spec \<le> 32767"

lemma pad_end_bounds: "- 32768 \<le> fw \<Longrightarrow> fw \<le> 32767 \<Longrightarrow> - 32768 \<le> pad_end fw \<and> pad_end fw \<le> 32767"
  by (auto simp: pad_end_def)

lemma number_puts:
  assumes "spec_ok spec"
  shows "number b num spec = puts b (number_text num spec)"
proof -
  define flags base where "flags = sp_flags spec" and "base = sp_base spec"
  define ds where "ds = num_digits flags base (num_abs flags num)"
  define prec where "prec = max (int (length ds)) (sp_precision spec)"
  have base: "base \<in> {8, 10, 16}" using assms by (simp add: spec_ok_def base_def)
  have p: "int (length ds) \<le> prec" "prec \<le> 32767"
    using assms length_num_digits [OF base, of flags "num_abs flags num"] by (auto simp: prec_def ds_def spec_ok_def)
  have m: "(if int (length ds) > sp_precision spec then int (length ds) else sp_precision spec) = prec"
    by (simp add: prec_def max_def)
  have a: "num_abs flags num = (if has flags SIGN \<and> sint num < 0 then - num else num)" by (simp add: num_abs_def)
  have sg: "(if has (if has flags LEFT then flags AND NOT ZEROPAD else flags) SIGN then
              if sint num < 0 then (chr CHR ''-'', - num, s16 (sp_width spec - 1))
              else if has (if has flags LEFT then flags AND NOT ZEROPAD else flags) PLUS then (chr CHR ''+'', num, s16 (sp_width spec - 1))
              else if has (if has flags LEFT then flags AND NOT ZEROPAD else flags) SPACE then (chr CHR '' '', num, s16 (sp_width spec - 1))
              else (0, num, sp_width spec)
            else (0, num, sp_width spec)) = (ch (num_sign flags num) 0, num_abs flags num, s16 (sp_width spec - int (length (num_sign flags num))))"
    using assms by (simp add: num_sign_def num_abs_def has_clear_zeropad spec_ok_def s16_id)
  define fw where "fw = s16 (sp_width spec - int (length (num_sign flags num)) - int (length (num_pfx flags base)) - prec)"
  have fw: "s16 ((if has flags SPECIAL \<and> base \<noteq> 10 then
        if base = 16 then s16 (s16 (s16 (sp_width spec - int (length (num_sign flags num))) - 1) - 1)
        else s16 (s16 (sp_width spec - int (length (num_sign flags num))) - 1)
      else s16 (sp_width spec - int (length (num_sign flags num)))) - prec) = fw"
    by (simp add: fw_def s16_minus num_pfx_def)
  have "- 32768 \<le> fw" "fw \<le> 32767" by (simp_all add: fw_def s16_bounds)
  note pads = pad_loop_text [OF this] pad_loop_text [OF pad_end_bounds [OF this, THEN conjunct1] pad_end_bounds [OF this, THEN conjunct2]]
  have pad3: "pad_loop b' c (pad_end (pad_end fw)) = (puts b' (replicate (pad_n (pad_end (pad_end fw))) c), pad_end (pad_end (pad_end fw)))" for b' c
    using pad_end_bounds [OF \<open>- 32768 \<le> fw\<close> \<open>fw \<le> 32767\<close>] pad_end_bounds by (intro pad_loop_text) blast+
  have pfx: "(if has flags SPECIAL \<and> base \<noteq> 10 then
        if base = 16 then put (put b' (chr CHR ''0'')) (chr CHR ''X'' OR flags AND SMALL) else put b' (chr CHR ''0'')
      else b') = puts b' (num_pfx flags base)" for b'
    by (simp add: num_pfx_def)
  have sgn: "(if ch (num_sign flags num) 0 \<noteq> 0 then put b' (ch (num_sign flags num) 0) else b') = puts b' (num_sign flags num)" for b'
    by (simp add: num_sign_def)
  show ?thesis
    unfolding number_def number_text_def flags_def [symmetric] base_def [symmetric] ds_def [symmetric] Let_def sg
    by (cases "has flags LEFT"; cases "has flags ZEROPAD")
      (simp_all only: prod.case number_digits [OF base] rev_rev_ident length_rev ds_def [symmetric] m prec_def [symmetric]
        has_zeropad_left has_clear_zeropad if_True if_False simp_thms fw fw_def [symmetric] pfx sgn pads pad3
        zero_loop_text [OF p] puts_simps append_assoc append_Nil)
qed

text \<open>
  With a width and a precision that do not wrap, the text is the one of the C standard: the
  digits are filled up with zeros to the precision, and the whole is filled up to the width by
  spaces on the left, by zeros after the prefix, or by spaces on the right.
\<close>

definition layout :: "byte \<Rightarrow> int \<Rightarrow> byte list \<Rightarrow> byte list \<Rightarrow> byte list" where
  "layout flags width pfx ds =
    (let pad = nat width - (length pfx + length ds)
     in if has flags LEFT then pfx @ ds @ replicate pad (chr CHR '' '')
        else if has flags ZEROPAD then pfx @ replicate pad (chr CHR ''0'') @ ds
        else replicate pad (chr CHR '' '') @ pfx @ ds)"

lemma length_layout: "length (layout flags width pfx ds) = max (nat width) (length pfx + length ds)"
  by (auto simp: layout_def Let_def max_def)

lemma number_text_layout:
  assumes "sp_base spec \<in> {8, 10, 16}" "- 1 \<le> sp_width spec" "sp_width spec \<le> 32767"
    "- 1 \<le> sp_precision spec" "sp_precision spec \<le> 32760"
  shows "number_text num spec =
    (let ds = num_digits (sp_flags spec) (sp_base spec) (num_abs (sp_flags spec) num)
     in layout (sp_flags spec) (sp_width spec) (num_sign (sp_flags spec) num @ num_pfx (sp_flags spec) (sp_base spec))
          (replicate (nat (sp_precision spec) - length ds) (chr CHR ''0'') @ ds))"
proof -
  define flags where "flags = sp_flags spec"
  define ds where "ds = num_digits flags (sp_base spec) (num_abs flags num)"
  define l where "l = length (num_sign flags num) + length (num_pfx flags (sp_base spec))"
  define prec where "prec = max (int (length ds)) (sp_precision spec)"
  define fw where "fw = sp_width spec - int l - prec"
  have l: "l \<le> 3" by (simp add: l_def num_sign_def num_pfx_def)
  have "length ds \<le> 64" unfolding ds_def by (rule length_num_digits [OF assms(1)])
  then have p: "0 \<le> prec" "prec \<le> 32760" using assms by (auto simp: prec_def)
  then have fw: "- 32765 < fw" "fw \<le> 32767" using l assms by (simp_all add: fw_def)
  have s: "s16 (sp_width spec - int (length (num_sign flags num)) - int (length (num_pfx flags (sp_base spec))) - prec) = fw"
    using fw by (simp add: fw_def l_def s16_id)
  have e: "pad_end fw < 0" "pad_end (pad_end fw) < 0" "pad_n fw = nat fw" "pad_n (pad_end fw) = 0" "pad_n (pad_end (pad_end fw)) = 0"
    using fw by (auto simp: pad_end_def pad_n_def)
  have z: "length (replicate (nat prec - length ds) (chr CHR ''0'') @ ds) = nat prec"
    using p by (simp add: prec_def)
  have n: "nat prec - length ds = nat (sp_precision spec) - length ds" by (simp add: prec_def)
  have w: "nat fw = nat (sp_width spec) - (l + nat prec)" using p(1) by (simp add: fw_def)
  show ?thesis
    unfolding number_text_def layout_def Let_def flags_def [symmetric] ds_def [symmetric] prec_def [symmetric] s length_append
    by (simp add: e w n [symmetric] l_def prec_def)
qed

subsection \<open>Strings\<close>

lemma space_loop_text:
  assumes "fw \<le> 32767"
  shows "space_loop b len fw =
    (puts b (replicate (nat fw - len) (chr CHR '' '')), if int len < fw then int len - 1 else s16 (fw - 1))"
proof (cases "int len < fw")
  case True
  have "space_loop b len (int (len + n)) = (puts b (replicate n (chr CHR '' '')), int len - 1)" if "len + n \<le> 32767" for n
    using that
  proof (induction n arbitrary: b)
    case 0
    then show ?case by (subst space_loop.simps) (simp add: s16_id)
  next
    case (Suc n)
    have "s16 (int (len + Suc n) - 1) = int (len + n)" using Suc.prems by (simp add: s16_id)
    then show ?case using Suc by (subst space_loop.simps) simp
  qed
  from this [of "nat fw - len"] True assms show ?thesis by (simp add: nat_le_iff)
next
  case False
  then show ?thesis by (subst space_loop.simps) simp
qed

definition string_text :: "byte list \<Rightarrow> printf_spec \<Rightarrow> byte list" where
  "string_text cs spec =
    (let len = length cs; fw = sp_width spec;
         fw1 = (if has (sp_flags spec) LEFT then fw else if int len < fw then int len - 1 else s16 (fw - 1))
     in (if has (sp_flags spec) LEFT then [] else replicate (nat fw - len) (chr CHR '' '')) @ cs @
        replicate (nat fw1 - len) (chr CHR '' ''))"

lemma string_chars_puts:
  assumes "sp_width spec \<le> 32767"
  shows "string_chars b cs spec = puts b (string_text cs spec)"
  using assms by (simp add: string_chars_def string_text_def Let_def space_loop_text s16_bounds)

lemma string_text_layout:
  assumes "- 32768 < sp_width spec" "sp_width spec \<le> 32767" "\<not> has (sp_flags spec) ZEROPAD"
  shows "string_text cs spec = layout (sp_flags spec) (sp_width spec) [] cs"
proof (cases "0 \<le> sp_width spec")
  case True
  then show ?thesis using assms by (auto simp: string_text_def layout_def Let_def s16_id)
next
  case False
  then show ?thesis using assms by (simp add: string_text_def layout_def Let_def s16_id)
qed

subsection \<open>Reading back what was printed\<close>

lemma digit_of_radix_char:
  assumes "d < 16" "lc = 0 \<or> lc = 0x20"
  shows "digit_of (radix_char lc d) = d"
proof -
  have "list_all (\<lambda>d. digit_of (radix_char 0 d) = d \<and> digit_of (radix_char 0x20 d) = d) [0..<16]"
    by code_simp
  then show ?thesis using assms by (auto simp: list_all_iff)
qed

lemma num_of_digits:
  assumes "2 \<le> b" "b \<le> 16" "lc = 0 \<or> lc = 0x20"
  shows "num_of b (rev (map (radix_char lc) (digits_rev b n))) = n"
proof (induction n rule: less_induct)
  case (less n)
  show ?case
  proof (cases "n < b")
    case True
    with assms show ?thesis by (subst digits_rev.simps) (simp add: num_of_def digit_of_radix_char)
  next
    case False
    then have "num_of b (rev (map (radix_char lc) (digits_rev b (n div b)))) = n div b"
      using assms(1) by (intro less) simp
    moreover have "n mod b < 16" using assms order_less_le_trans [of "n mod b" b 16] by simp
    ultimately show ?thesis using False assms
      by (subst digits_rev.simps) (simp add: num_of_snoc digit_of_radix_char)
  qed
qed

lemma TOLOWER_x: "TOLOWER c = 0x78 \<Longrightarrow> c = 0x58 \<or> c = 0x78"
proof -
  assume c: "TOLOWER c = 0x78"
  have "c AND NOT 0x20 = (c OR 0x20) AND NOT 0x20" by (rule bit_word_eqI) (auto simp: bit_simps)
  then have "c AND NOT 0x20 = 0x58" using c by (simp add: TOLOWER_def)
  moreover have "c = (c AND NOT 0x20) OR (c AND 0x20)" by (rule bit_word_eqI) (auto simp: bit_simps)
  moreover have "c AND 0x20 = 0 \<or> c AND 0x20 = 0x20" using and_SMALL [of c] by (simp add: SMALL_def)
  ultimately show ?thesis by auto
qed

lemma xdigit_not_x: "isxdigit c \<Longrightarrow> TOLOWER c \<noteq> 0x78"
  using TOLOWER_x [of c] by (auto simp: isxdigit_codes)

lemma isalnum_letters: "\<not> isalnum c \<Longrightarrow> \<not> isxdigit c \<and> TOLOWER c \<noteq> 0x78"
  using TOLOWER_x [of c]
  by (auto simp: isalnum_codes isalpha_codes isupper_codes islower_codes isxdigit_codes isdigit_codes)

lemma num_digits_is_digit:
  assumes "base \<in> {8, 10, 16}" "c \<in> set (num_digits flags base num)"
  shows "is_digit (unat base) c"
proof -
  have b: "2 \<le> unat base" "unat base \<le> 16" using assms by auto
  obtain d where d: "d \<in> set (digits_rev (unat base) (unat num))" "c = radix_char (flags AND SMALL) d"
    using assms by (auto simp: num_digits_def)
  with b have "d < unat base" by (blast intro: digits_rev_less)
  with b d show ?thesis by (simp add: is_digit_def digit_of_radix_char and_SMALL)
qed

lemma strtoull_loop_digits:
  assumes "base \<in> {8, 10, 16}" "rest = [] \<or> \<not> isxdigit (hd rest)"
  shows "strtoull_loop (ucast base) (num_digits flags base num @ rest) 0 = (num, rest)"
proof -
  have b: "2 \<le> unat base" "unat base \<le> 16" using assms by auto
  have "\<forall>c\<in>set (num_digits flags base num). is_digit (unat base) c"
    using num_digits_is_digit [OF assms(1)] by blast
  moreover have "rest = [] \<or> \<not> is_digit (unat base) (hd rest)"
    using assms(2) is_digit_isxdigit b(2) by blast
  moreover have "num_of (unat base) (num_digits flags base num) = unat num"
    unfolding num_digits_def using b and_SMALL by (rule num_of_digits)
  moreover from calculation have "takeWhile (is_digit (unat base)) (num_digits flags base num @ rest) = num_digits flags base num"
    "dropWhile (is_digit (unat base)) (num_digits flags base num @ rest) = rest"
    by (blast intro: takeWhile_append_stop dropWhile_append_stop)+
  ultimately show ?thesis
    using strtoull_loop_result [of "ucast base" "num_digits flags base num @ rest" 0] b
    by (simp only: unat_ucast_byte num_of_def of_nat_0 simp_thms) simp
qed

lemma num_digits_first:
  assumes "base \<in> {8, 10, 16}" "num \<noteq> 0"
  obtains c ds where "num_digits flags base num = c # ds" "c \<noteq> chr CHR ''0''"
proof -
  have b: "2 \<le> unat base" "unat base \<le> 16" using assms by auto
  have "digits_rev (unat base) n \<noteq> [] \<and> (0 < n \<longrightarrow> last (digits_rev (unat base) n) \<noteq> 0)" for n
  proof (induction n rule: less_induct)
    case (less n)
    have r: "digits_rev (unat base) n =
        (if n < unat base then [n] else n mod unat base # digits_rev (unat base) (n div unat base))"
      using b by (subst digits_rev.simps) simp
    have "n div unat base < n \<and> 0 < n div unat base" if "\<not> n < unat base"
      using that b by (simp add: div_greater_zero_iff)
    with less [of "n div unat base"] show ?case unfolding r by auto
  qed
  then have d: "digits_rev (unat base) (unat num) \<noteq> []" "last (digits_rev (unat base) (unat num)) \<noteq> 0"
    using assms(2) by (auto simp: unat_gt_0)
  define k where "k = last (digits_rev (unat base) (unat num))"
  have "k < unat base" unfolding k_def using last_in_set [OF d(1)] b(1) by (blast intro: digits_rev_less)
  then have k: "k < 16" "k \<noteq> 0" using b d by (simp_all add: k_def)
  have "num_digits flags base num = radix_char (flags AND SMALL) k # rev (map (radix_char (flags AND SMALL)) (butlast (digits_rev (unat base) (unat num))))"
    unfolding num_digits_def k_def
    by (subst append_butlast_last_id [OF d(1), symmetric]) (simp only: map_append rev_append list.map rev.simps append.simps)
  moreover have "radix_char (flags AND SMALL) k \<noteq> chr CHR ''0''"
  proof
    assume "radix_char (flags AND SMALL) k = chr CHR ''0''"
    then have "digit_of (radix_char (flags AND SMALL) k) = 0" by (simp add: digit_of_def)
    then show False using k and_SMALL [of flags] by (simp add: digit_of_radix_char)
  qed
  ultimately show ?thesis by (rule that)
qed

lemma num_digits_zero: "base \<in> {8, 10, 16} \<Longrightarrow> num_digits flags base 0 = [0x30]"
proof -
  assume "base \<in> {8, 10, 16}"
  then have "digits_rev (unat base) 0 = [0]" by (subst digits_rev.simps) auto
  then show ?thesis by (simp add: num_digits_def radix_char_dec dec_char_def)
qed

lemma num_digits_Cons:
  assumes "base \<in> {8, 10, 16}"
  obtains c ds where "num_digits flags base num = c # ds" "isxdigit c"
proof (cases "num_digits flags base num")
  case Nil
  then show ?thesis
    using num_digits_zero [OF assms] num_digits_first [OF assms] by (cases "num = 0") (simp, metis list.distinct(1))
next
  case (Cons c ds)
  moreover have "unat base \<le> 16" using assms by auto
  ultimately show ?thesis
    using that num_digits_is_digit [OF assms, of c flags num] by (simp add: is_digit_isxdigit)
qed

lemma strtoull_loop_zero: "0 < base \<Longrightarrow> strtoull_loop base (0x30 # s) 0 = strtoull_loop base s 0"
  by (simp add: isxdigit_codes isdigit_codes digit_value_def word_le_nat_alt word_greater_zero_iff unat_eq_zero)



text \<open>
  C26.  \<^verbatim>\<open>number\<close> is correct.  For base 8, 10 or 16, a width up to 32767 and a precision up to
  32760, it puts the sign, the prefix of the base and the digits, laid out as the flags say; the
  digits are those of repeated division by the base, most significant first, although the code
  computes the decimal ones five at a time without division.
\<close>

theorem number_correct:
  assumes "sp_base spec \<in> {8, 10, 16}" "- 1 \<le> sp_width spec" "sp_width spec \<le> 32767"
    "- 1 \<le> sp_precision spec" "sp_precision spec \<le> 32760"
  shows "number b num spec =
    (let flags = sp_flags spec;
         ds = rev (map (radix_char (flags AND SMALL)) (digits_rev (unat (sp_base spec)) (unat (num_abs flags num))))
     in puts b (layout flags (sp_width spec) (num_sign flags num @ num_pfx flags (sp_base spec))
          (replicate (nat (sp_precision spec) - length ds) (chr CHR ''0'') @ ds)))"
proof -
  have "spec_ok spec" using assms by (simp add: spec_ok_def)
  then show ?thesis
    by (simp only: number_puts number_text_layout [OF assms] num_digits_def Let_def)
qed

theorem number_correct_witness:
  "number \<lparr>o_str = 0, o_end = 4, o_mem = (\<lambda>_. 0)\<rparr> (- 1234)
      \<lparr>sp_type = FORMAT_TYPE_INT, sp_flags = SIGN OR ZEROPAD, sp_base = 10, sp_qualifier = 255,
        sp_width = 8, sp_precision = - 1\<rparr> =
    puts \<lparr>o_str = 0, o_end = 4, o_mem = (\<lambda>_. 0)\<rparr> (lit ''-0001234'')"
proof -
  define spec where "spec = \<lparr>sp_type = FORMAT_TYPE_INT, sp_flags = SIGN OR ZEROPAD, sp_base = 10, sp_qualifier = 255,
        sp_width = 8, sp_precision = - 1\<rparr>"
  have "digits_rev 10 1234 = [4, 3, 2, 1]" by (simp add: digits_rev.simps)
  then show ?thesis
    unfolding spec_def [symmetric]
    by (subst number_correct)
      (simp_all add: spec_def layout_def has_def flag_defs num_abs_def num_sign_def num_pfx_def radix_char_def,
        simp add: numeral_3_eq_3)
qed

end
