(* ===== verification/Printf_Pointer.thy ===== *)
theory Printf_Pointer
  imports Printf_Number
begin

text \<open>
  The extensions of \<^verbatim>\<open>%p\<close> (\<^verbatim>\<open>src/lib/vsprintf.c\<close>, \<^verbatim>\<open>symbol_string\<close> to \<^verbatim>\<open>pointer\<close>):
  resources, hardware and internet addresses, UUIDs.  Each of them prepares a string in a local
  array, which here is the list of its characters (a local memory in \<open>resource_string\<close>, whose
  helpers write through pointers), and hands it to \<^verbatim>\<open>string\<close>.  What a pointer points to is read
  from the memory \<open>m\<close>.  The kernel's symbol table, which is not part of the program, is the
  parameter \<open>ks\<close>: the characters \<^verbatim>\<open>sprint_symbol\<close> or \<^verbatim>\<open>kallsyms_lookup\<close> leaves for an address.
\<close>

definition hex_asc :: "byte list" where
  "hex_asc = lit ''0123456789abcdef''"

definition hex_asc_lo :: "byte \<Rightarrow> byte" where
  "hex_asc_lo x = hex_asc ! unat (x AND 0x0f)"

definition hex_asc_hi :: "byte \<Rightarrow> byte" where
  "hex_asc_hi x = hex_asc ! unat (drop_bit 4 (x AND 0xf0))"

definition pack_hex_byte :: "byte \<Rightarrow> byte list" where
  "pack_hex_byte x = [hex_asc_hi x, hex_asc_lo x]"

definition load32 :: "mem \<Rightarrow> nat \<Rightarrow> u32" where
  "load32 m a = ucast (m a) OR push_bit 8 (ucast (m (a + 1))) OR push_bit 16 (ucast (m (a + 2)))
    OR push_bit 24 (ucast (m (a + 3)))"

subsection \<open>Symbols\<close>

definition symbol_string :: "(byte \<Rightarrow> u32 \<Rightarrow> byte list) \<Rightarrow> outbuf \<Rightarrow> u32 \<Rightarrow> printf_spec \<Rightarrow> byte \<Rightarrow> outbuf" where
  "symbol_string ks b ptr spec ext = string_lit b (ks ext ptr) spec"

subsection \<open>Resources\<close>

definition put_raw :: "outbuf \<Rightarrow> byte \<Rightarrow> outbuf" where
  "put_raw b c = b\<lparr>o_str := Suc (o_str b), o_mem := (o_mem b)(o_str b := c)\<rparr>"

definition string_local :: "outbuf \<Rightarrow> mem \<Rightarrow> printf_spec \<Rightarrow> outbuf" where
  "string_local b s spec = string_chars b (bytes_at s 0 (strnlen s 0 (size_t (sp_precision spec)))) spec"

definition rsrc_spec :: "byte \<Rightarrow> byte \<Rightarrow> int \<Rightarrow> int \<Rightarrow> printf_spec" where
  "rsrc_spec flags base width prec =
    \<lparr>sp_type = FORMAT_TYPE_NONE, sp_flags = flags, sp_base = base, sp_qualifier = 0, sp_width = width, sp_precision = prec\<rparr>"

definition resource_string :: "outbuf \<Rightarrow> mem \<Rightarrow> u32 \<Rightarrow> printf_spec \<Rightarrow> byte list \<Rightarrow> outbuf" where
  "resource_string b m res spec fmt =
    (let io_spec = rsrc_spec (SPECIAL OR SMALL OR ZEROPAD) 16 6 (- 1);
         mem_spec = rsrc_spec (SPECIAL OR SMALL OR ZEROPAD) 16 10 (- 1);
         bus_spec = rsrc_spec (SMALL OR ZEROPAD) 16 2 (- 1);
         dec_spec = rsrc_spec 0 10 0 (- 1);
         str_spec = rsrc_spec LEFT 0 (- 1) 10;
         flag_spec = rsrc_spec (SPECIAL OR SMALL) 16 0 (- 1);
         start = load32 m (unat res);
         res_end = load32 m (unat res + 4);
         flags = load32 m (unat res + 12);
         p = put_raw \<lparr>o_str = 0, o_end = 59, o_mem = (\<lambda>_. 0)\<rparr> (chr CHR ''['');
         (p, specp, decode) =
           (if flags AND 0x100 \<noteq> 0 then (string_lit p (lit ''io  '') str_spec, io_spec, ch fmt 0 = chr CHR ''R'')
            else if flags AND 0x200 \<noteq> 0 then (string_lit p (lit ''mem '') str_spec, mem_spec, ch fmt 0 = chr CHR ''R'')
            else if flags AND 0x400 \<noteq> 0 then (string_lit p (lit ''irq '') str_spec, dec_spec, ch fmt 0 = chr CHR ''R'')
            else if flags AND 0x800 \<noteq> 0 then (string_lit p (lit ''dma '') str_spec, dec_spec, ch fmt 0 = chr CHR ''R'')
            else if flags AND 0x1000 \<noteq> 0 then (string_lit p (lit ''bus '') str_spec, bus_spec, ch fmt 0 = chr CHR ''R'')
            else (string_lit p (lit ''??? '') str_spec, mem_spec, False));
         p = number p (ucast start) specp;
         p = (if start \<noteq> res_end then number (put_raw p (chr CHR ''-'')) (ucast res_end) specp else p);
         p = (if decode then
                let p = (if flags AND 0x100000 \<noteq> 0 then string_lit p (lit '' 64bit'') str_spec else p);
                    p = (if flags AND 0x2000 \<noteq> 0 then string_lit p (lit '' pref'') str_spec else p);
                    p = (if flags AND 0x200000 \<noteq> 0 then string_lit p (lit '' window'') str_spec else p)
                in (if flags AND 0x10000000 \<noteq> 0 then string_lit p (lit '' disabled'') str_spec else p)
              else number (string_lit p (lit '' flags '') str_spec) (ucast flags) flag_spec);
         p = put_raw (put_raw p (chr CHR '']'')) 0
     in string_local b (o_mem p) spec)"

subsection \<open>Hardware and internet addresses\<close>

definition mac_address_string :: "outbuf \<Rightarrow> mem \<Rightarrow> u32 \<Rightarrow> printf_spec \<Rightarrow> byte list \<Rightarrow> outbuf" where
  "mac_address_string b m addr spec fmt =
    (let separator = (if ch fmt 1 = chr CHR ''F'' then chr CHR ''-'' else chr CHR '':'');
         mac_addr = concat (map (\<lambda>i. pack_hex_byte (m (unat addr + i)) @
           (if ch fmt 0 = chr CHR ''M'' \<and> i \<noteq> 5 then [separator] else [])) [0..<6])
     in string_lit b mac_addr spec)"

definition ip4_string :: "(nat \<Rightarrow> byte) \<Rightarrow> byte list \<Rightarrow> byte list" where
  "ip4_string addr fmt =
    (let leading_zeros = (ch fmt 0 = chr CHR ''i'');
         down = (ch fmt 2 = chr CHR ''h'' \<or> ch fmt 2 = chr CHR ''l'')
     in concat (map (\<lambda>i.
          let temp = put_dec_trunc (ucast (addr (if down then 3 - i else i)));
              digits = length temp
          in (if leading_zeros \<and> digits < 3 then [chr CHR ''0''] else []) @
             (if leading_zeros \<and> digits < 2 then [chr CHR ''0''] else []) @
             rev temp @ (if i < 3 then [chr CHR ''.''] else [])) [0..<4]))"

text \<open>
  The 16-bit groups of an IPv6 address: \<open>zero_length\<close> is the entry \<^verbatim>\<open>zerolength[i]\<close>, and
  \<open>longest_run\<close> the loop that looks for the longest one, returning \<^verbatim>\<open>(longest, colonpos)\<close>.
\<close>

definition zero_group :: "(nat \<Rightarrow> byte) \<Rightarrow> nat \<Rightarrow> bool" where
  "zero_group in6 i \<longleftrightarrow> in6 (2 * i) = 0 \<and> in6 (2 * i + 1) = 0"

definition zero_length :: "(nat \<Rightarrow> byte) \<Rightarrow> nat \<Rightarrow> nat \<Rightarrow> nat" where
  "zero_length in6 groups i = length (takeWhile (zero_group in6) [i..<groups])"

definition longest_run :: "(nat \<Rightarrow> byte) \<Rightarrow> nat \<Rightarrow> nat \<times> nat option" where
  "longest_run in6 groups = foldl (\<lambda>(longest, colonpos) i.
    if zero_length in6 groups i > longest then (zero_length in6 groups i, Some i) else (longest, colonpos)) (1, None) [0..<groups]"

definition hex_group :: "byte \<Rightarrow> byte \<Rightarrow> byte list" where
  "hex_group hi lo =
    (if hi \<noteq> 0 then (if hi > 0x0f then pack_hex_byte hi else [hex_asc_lo hi]) @ pack_hex_byte lo
     else if lo > 0x0f then pack_hex_byte lo else [hex_asc_lo lo])"

function ip6_emit :: "(nat \<Rightarrow> byte) \<Rightarrow> nat \<Rightarrow> nat \<Rightarrow> nat option \<Rightarrow> nat \<Rightarrow> bool \<Rightarrow> byte list \<times> bool" where
  "ip6_emit in6 groups longest colonpos i needcolon =
    (if i < groups then
       if colonpos = Some i then
         apfst (\<lambda>s. (if needcolon \<or> i = 0 then [chr CHR '':''] else []) @ [chr CHR '':''] @ s)
           (ip6_emit in6 groups longest colonpos (i + (longest - 1) + 1) False)
       else
         apfst (\<lambda>s. (if needcolon then [chr CHR '':''] else []) @ hex_group (in6 (2 * i)) (in6 (2 * i + 1)) @ s)
           (ip6_emit in6 groups longest colonpos (i + 1) True)
     else ([], needcolon))"
  by pat_completeness auto

termination ip6_emit
  by (relation "measure (\<lambda>(in6, groups, longest, colonpos, i, needcolon). groups - i)") auto

declare ip6_emit.simps [simp del]

definition ipv6_addr_v4mapped :: "(nat \<Rightarrow> byte) \<Rightarrow> bool" where
  "ipv6_addr_v4mapped a \<longleftrightarrow> (\<forall>i\<in>{0..<10}. a i = 0) \<and> a 10 = 0xff \<and> a 11 = 0xff"

definition ipv6_addr_is_isatap :: "(nat \<Rightarrow> byte) \<Rightarrow> bool" where
  "ipv6_addr_is_isatap a \<longleftrightarrow> a 8 OR 0x02 = 0x02 \<and> a 9 = 0 \<and> a 10 = 0x5e \<and> a 11 = 0xfe"

definition ip6_compressed_string :: "(nat \<Rightarrow> byte) \<Rightarrow> byte list" where
  "ip6_compressed_string in6 =
    (let useIPv4 = (ipv6_addr_v4mapped in6 \<or> ipv6_addr_is_isatap in6);
         groups = (if useIPv4 then 6 else 8);
         (longest, colonpos) = longest_run in6 groups;
         (p, needcolon) = ip6_emit in6 groups longest colonpos 0 False
     in p @ (if useIPv4 then (if needcolon then [chr CHR '':''] else []) @
                              ip4_string (\<lambda>i. in6 (12 + i)) (lit ''I4'') else []))"

definition ip6_string :: "(nat \<Rightarrow> byte) \<Rightarrow> byte list \<Rightarrow> byte list" where
  "ip6_string addr fmt =
    concat (map (\<lambda>i. pack_hex_byte (addr (2 * i)) @ pack_hex_byte (addr (2 * i + 1)) @
      (if ch fmt 0 = chr CHR ''I'' \<and> i \<noteq> 7 then [chr CHR '':''] else [])) [0..<8])"

definition ip6_addr_string :: "outbuf \<Rightarrow> mem \<Rightarrow> u32 \<Rightarrow> printf_spec \<Rightarrow> byte list \<Rightarrow> outbuf" where
  "ip6_addr_string b m addr spec fmt =
    (let a = (\<lambda>i. m (unat addr + i))
     in string_lit b (if ch fmt 0 = chr CHR ''I'' \<and> ch fmt 2 = chr CHR ''c'' then ip6_compressed_string a
                      else ip6_string a fmt) spec)"

definition ip4_addr_string :: "outbuf \<Rightarrow> mem \<Rightarrow> u32 \<Rightarrow> printf_spec \<Rightarrow> byte list \<Rightarrow> outbuf" where
  "ip4_addr_string b m addr spec fmt = string_lit b (ip4_string (\<lambda>i. m (unat addr + i)) fmt) spec"

definition uuid_string :: "outbuf \<Rightarrow> mem \<Rightarrow> u32 \<Rightarrow> printf_spec \<Rightarrow> byte list \<Rightarrow> outbuf" where
  "uuid_string b m addr spec fmt =
    (let be = [0..<16];
         le = [3, 2, 1, 0, 5, 4, 7, 6, 8, 9, 10, 11, 12, 13, 14, 15];
         uc = (ch fmt 1 = chr CHR ''L'' \<or> ch fmt 1 = chr CHR ''B'');
         index = (if ch fmt 1 = chr CHR ''L'' \<or> ch fmt 1 = chr CHR ''l'' then le else be);
         uuid = concat (map (\<lambda>i. pack_hex_byte (m (unat addr + index ! i)) @
           (if i \<in> {3, 5, 7, 9} then [chr CHR ''-''] else [])) [0..<16])
     in string_lit b (if uc then map toupper uuid else uuid) spec)"

subsection \<open>The dispatch\<close>

definition pointer :: "(byte \<Rightarrow> u32 \<Rightarrow> byte list) \<Rightarrow> byte list \<Rightarrow> outbuf \<Rightarrow> mem \<Rightarrow> u32 \<Rightarrow> printf_spec \<Rightarrow> outbuf" where
  "pointer ks fmt b m ptr spec =
    (let c = ch fmt 0;
         plain =
           (let spec = spec\<lparr>sp_flags := sp_flags spec OR SMALL\<rparr>;
                spec = (if sp_width spec = - 1 then spec\<lparr>sp_width := 8, sp_flags := sp_flags spec OR ZEROPAD\<rparr> else spec)
            in number b (ucast ptr) (spec\<lparr>sp_base := 16\<rparr>))
     in if ptr = 0 then string_lit b (lit ''(null)'') spec
        else if c \<in> {chr CHR ''F'', chr CHR ''f'', chr CHR ''S'', chr CHR ''s''} then symbol_string ks b ptr spec c
        else if c = chr CHR ''R'' \<or> c = chr CHR ''r'' then resource_string b m ptr spec fmt
        else if c = chr CHR ''M'' \<or> c = chr CHR ''m'' then mac_address_string b m ptr spec fmt
        else if c = chr CHR ''I'' \<or> c = chr CHR ''i'' then
          if ch fmt 1 = chr CHR ''6'' then ip6_addr_string b m ptr spec fmt
          else if ch fmt 1 = chr CHR ''4'' then ip4_addr_string b m ptr spec fmt
          else plain
        else if c = chr CHR ''U'' then uuid_string b m ptr spec fmt
        else plain)"

subsection \<open>Independence of the buffer\<close>

text \<open>An output function is an emitter if, whatever the buffer is, it puts the same text.\<close>

definition emits :: "(outbuf \<Rightarrow> outbuf) \<Rightarrow> byte list \<Rightarrow> bool" where
  "emits f t \<longleftrightarrow> (\<forall>b. f b = puts b t)"

definition emitter :: "(outbuf \<Rightarrow> outbuf) \<Rightarrow> bool" where
  "emitter f \<longleftrightarrow> (\<exists>t. emits f t)"

lemma emitterI: "(\<And>b. f b = puts b t) \<Longrightarrow> emitter f"
  by (auto simp: emitter_def emits_def)

lemma emitter_string_chars: "sp_width spec \<le> 32767 \<Longrightarrow> emitter (\<lambda>b. string_chars b cs spec)"
  by (rule emitterI) (simp add: string_chars_puts)

lemma emitter_string_lit: "sp_width spec \<le> 32767 \<Longrightarrow> emitter (\<lambda>b. string_lit b s spec)"
  unfolding string_lit_def by (rule emitter_string_chars)

lemma emitter_number: "spec_ok spec \<Longrightarrow> emitter (\<lambda>b. number b num spec)"
  by (rule emitterI) (rule number_puts)

lemma emitter_string: "sp_width spec \<le> 32767 \<Longrightarrow> emitter (\<lambda>b. string_put b m s spec)"
  by (cases "s < PAGE_SIZE") (simp_all add: string_put_def Let_def emitter_string_lit emitter_string_chars)

lemma emitter_if: "emitter f \<Longrightarrow> emitter g \<Longrightarrow> emitter (\<lambda>b. if P then f b else g b)"
  by (cases P) simp_all

lemma emitter_pointer:
  assumes "- 32768 \<le> sp_width spec" "sp_width spec \<le> 32767" "- 32768 \<le> sp_precision spec" "sp_precision spec \<le> 32767"
  shows "emitter (\<lambda>b. pointer ks fmt b m ptr spec)"
proof -
  define spec' where "spec' = (let spec = spec\<lparr>sp_flags := sp_flags spec OR SMALL\<rparr>;
      spec = (if sp_width spec = - 1 then spec\<lparr>sp_width := 8, sp_flags := sp_flags spec OR ZEROPAD\<rparr> else spec)
      in spec\<lparr>sp_base := 16\<rparr>)"
  have "spec_ok spec'" using assms by (simp add: spec'_def Let_def spec_ok_def)
  then have n: "emitter (\<lambda>b. number b (ucast ptr) spec')" by (rule emitter_number)
  show ?thesis
    unfolding pointer_def Let_def symbol_string_def mac_address_string_def ip6_addr_string_def ip4_addr_string_def
      uuid_string_def resource_string_def string_local_def
    using assms(2) n [unfolded spec'_def Let_def]
    by (intro emitter_if emitter_string_lit emitter_string_chars) (simp_all add: split_def emitter_string_chars)
qed

end
