(* ===== verification/Syscall_Log.thy ===== *)
theory Syscall_Log
  imports Logger Printf_Pointer
begin

text \<open>
  Recording of system calls (\<^verbatim>\<open>src/core/loader/wrapper.c\<close>,
  \<^verbatim>\<open>src/core/syscall/\<close>).  The loader replaces the system call entry of the traced program
  by \<^verbatim>\<open>wrapped_syscall_entry\<close>, which saves the registers, writes the number of the call
  to the log, makes the call, and lets a handler per call write the result and the memory the
  kernel filled.

  The kernel is the parameter \<open>sys\<close>: from the registers, the memory and its own state to the
  result, the memory and its state.  The log file is written with the calls of
  \<^verbatim>\<open>Kernel_Io\<close>.
\<close>

subsection \<open>The log\<close>

record syscall_regs =
  r_eax :: u32
  r_ebx :: u32
  r_ecx :: u32
  r_edx :: u32
  r_esi :: u32
  r_edi :: u32
  r_ebp :: u32
  r_flags :: u32
  r_orig_eax :: u32
  r_eip :: u32
  r_esp :: u32

record recorder =
  logger_sz :: u32
  log_io :: io_state

definition write_logger :: "io_calls \<Rightarrow> int \<Rightarrow> byte list \<Rightarrow> recorder \<Rightarrow> recorder run" where
  "write_logger k fd bs s =
    (let s = s\<lparr>logger_sz := logger_sz s + word_of_nat (length bs)\<rparr>;
         (err, io) = sys_write k fd bs (log_io s)
     in bindR (CASSERT (err = int (length bs))) (\<lambda>_. Ok (s\<lparr>log_io := io\<rparr>)))"

definition write_mem :: "io_calls \<Rightarrow> int \<Rightarrow> mem \<Rightarrow> u32 \<Rightarrow> nat \<Rightarrow> recorder \<Rightarrow> recorder run" where
  "write_mem k fd m a sz = write_logger k fd (bytes_at m (unat a) sz)"

definition write_syscall_nr :: "io_calls \<Rightarrow> int \<Rightarrow> u32 \<Rightarrow> recorder \<Rightarrow> recorder run" where
  "write_syscall_nr k fd nr = write_logger k fd (le16 (ucast nr))"

definition regs_bytes :: "syscall_regs \<Rightarrow> byte list" where
  "regs_bytes r = le32 (r_eax r) @ le32 (r_ebx r) @ le32 (r_ecx r) @ le32 (r_edx r) @ le32 (r_esi r) @ le32 (r_edi r)
    @ le32 (r_ebp r) @ le32 (r_flags r) @ le32 (r_orig_eax r) @ le32 (r_eip r) @ le32 (r_esp r)"

definition write_regs :: "io_calls \<Rightarrow> int \<Rightarrow> syscall_regs \<Rightarrow> recorder \<Rightarrow> recorder run" where
  "write_regs k fd r = write_logger k fd (regs_bytes r)"

definition write_eax :: "io_calls \<Rightarrow> int \<Rightarrow> syscall_regs \<Rightarrow> recorder \<Rightarrow> recorder run" where
  "write_eax k fd r = write_logger k fd (le32 (r_eax r))"

definition write_obj :: "io_calls \<Rightarrow> int \<Rightarrow> u32 \<Rightarrow> recorder \<Rightarrow> recorder run" where
  "write_obj k fd w = write_logger k fd (le32 w)"

subsection \<open>The handlers\<close>

type_synonym syscall_handler_t = "io_calls \<Rightarrow> int \<Rightarrow> mem \<Rightarrow> syscall_regs \<Rightarrow> recorder \<Rightarrow> recorder run"

definition post_brk :: syscall_handler_t where
  "post_brk k fd m regs s = write_eax k fd regs s"

definition post_close :: syscall_handler_t where
  "post_close k fd m regs s = write_eax k fd regs s"

text \<open>The sizes of the structures in bytes: \<^verbatim>\<open>struct stat64\<close> has 96.\<close>

definition post_fstat64 :: syscall_handler_t where
  "post_fstat64 k fd m regs s = bindR (write_eax k fd regs s) (\<lambda>s.
    if sint (r_eax regs) \<ge> 0 then write_mem k fd m (r_ecx regs) 96 s else Ok s)"

definition FUTEX_CMD_MASK :: u32 where "FUTEX_CMD_MASK = NOT 128"

definition post_futex :: syscall_handler_t where
  "post_futex k fd m regs s = bindR (write_eax k fd regs s) (\<lambda>s.
    if sint (r_eax regs) < 0 then Ok s
    else
      let uaddr = r_ebx regs; op = r_ecx regs; uaddr2 = r_edi regs; cmd = op AND FUTEX_CMD_MASK
      in bindR (write_obj k fd cmd s) (\<lambda>s. bindR (write_mem k fd m uaddr 4 s) (\<lambda>s.
           if cmd = 3 \<or> cmd = 4 \<or> cmd = 5 then write_mem k fd m uaddr2 4 s else Ok s)))"

definition post_getpid :: syscall_handler_t where
  "post_getpid k fd m regs s = write_eax k fd regs s"

definition post_gettimeofday :: syscall_handler_t where
  "post_gettimeofday k fd m regs s = bindR (write_eax k fd regs s) (\<lambda>s.
    if sint (r_eax regs) \<ge> 0 then
      let TP = r_ebx regs; TZP = r_ecx regs
      in bindR (write_obj k fd TP s) (\<lambda>s. bindR (write_obj k fd TZP s) (\<lambda>s.
           bindR (if TP \<noteq> 0 then write_mem k fd m TP 8 s else Ok s) (\<lambda>s.
             if TZP \<noteq> 0 then write_mem k fd m TZP 8 s else Ok s)))
    else Ok s)"

definition post_ioctl :: syscall_handler_t where
  "post_ioctl k fd m regs s = bindR (write_regs k fd regs s) (\<lambda>s. write_eax k fd regs s)"

definition post_mmap :: syscall_handler_t where
  "post_mmap k fd m regs s = write_eax k fd regs s"

definition post_mmap2 :: syscall_handler_t where
  "post_mmap2 k fd m regs s = write_eax k fd regs s"

definition post_mprotect :: syscall_handler_t where
  "post_mprotect k fd m regs s = write_eax k fd regs s"

definition post_munmap :: syscall_handler_t where
  "post_munmap k fd m regs s = write_eax k fd regs s"

definition post_nanosleep :: syscall_handler_t where
  "post_nanosleep k fd m regs s = bindR (write_eax k fd regs s) (\<lambda>s.
    let ou = r_ecx regs
    in bindR (write_obj k fd ou s) (\<lambda>s. if ou \<noteq> 0 then write_mem k fd m ou 8 s else Ok s))"

definition post_open :: syscall_handler_t where
  "post_open k fd m regs s = write_eax k fd regs s"

definition post_read :: syscall_handler_t where
  "post_read k fd m regs s = bindR (write_eax k fd regs s) (\<lambda>s.
    if sint (r_eax regs) > 0 then write_mem k fd m (r_ecx regs) (nat (sint (r_eax regs))) s else Ok s)"

definition post_rt_sigaction :: syscall_handler_t where
  "post_rt_sigaction k fd m regs s = write_eax k fd regs s"

definition post_rt_sigprocmask :: syscall_handler_t where
  "post_rt_sigprocmask k fd m regs s = write_eax k fd regs s"

definition post_set_robust_list :: syscall_handler_t where
  "post_set_robust_list k fd m regs s = write_eax k fd regs s"

definition post_set_thread_area :: syscall_handler_t where
  "post_set_thread_area k fd m regs s = write_eax k fd regs s"

definition post_set_tid_address :: syscall_handler_t where
  "post_set_tid_address k fd m regs s = write_eax k fd regs s"

definition post_stat64 :: syscall_handler_t where
  "post_stat64 k fd m regs s = bindR (write_eax k fd regs s) (\<lambda>s.
    if sint (r_eax regs) \<ge> 0 then write_mem k fd m (r_ecx regs) 96 s else Ok s)"

definition post_statfs64 :: syscall_handler_t where
  "post_statfs64 k fd m regs s = write_eax k fd regs s"

definition post_ugetrlimit :: syscall_handler_t where
  "post_ugetrlimit k fd m regs s = bindR (write_eax k fd regs s) (\<lambda>s.
    if r_eax regs = 0 then write_mem k fd m (r_ecx regs) 8 s else Ok s)"

definition post_uname :: syscall_handler_t where
  "post_uname k fd m regs s = bindR (write_eax k fd regs s) (\<lambda>s.
    if sint (r_eax regs) \<ge> 0 then write_mem k fd m (r_ebx regs) (5 * 65) s else Ok s)"

definition post_write :: syscall_handler_t where
  "post_write k fd m regs s = write_eax k fd regs s"

subsection \<open>The table\<close>

record syscall_tabent =
  pre_handler :: "syscall_handler_t option"
  post_handler :: "syscall_handler_t option"

definition NR_SYSCALLS :: int where "NR_SYSCALLS = 327"

definition def_syscall_entry :: "syscall_handler_t \<Rightarrow> syscall_handler_t option \<Rightarrow> syscall_tabent" where
  "def_syscall_entry post pre = \<lparr>pre_handler = pre, post_handler = Some post\<rparr>"

definition syscall_table :: "int \<Rightarrow> syscall_tabent" where
  "syscall_table = (\<lambda>_. \<lparr>pre_handler = None, post_handler = None\<rparr>)(
    45 := def_syscall_entry post_brk None,
    90 := def_syscall_entry post_mmap None,
    192 := def_syscall_entry post_mmap2 None,
    197 := def_syscall_entry post_fstat64 None,
    6 := def_syscall_entry post_close None,
    195 := def_syscall_entry post_stat64 None,
    3 := def_syscall_entry post_read None,
    5 := def_syscall_entry post_open None,
    125 := def_syscall_entry post_mprotect None,
    91 := def_syscall_entry post_munmap None,
    4 := def_syscall_entry post_write None,
    54 := def_syscall_entry post_ioctl None,
    78 := def_syscall_entry post_gettimeofday None,
    20 := def_syscall_entry post_getpid None,
    175 := def_syscall_entry post_rt_sigprocmask None,
    174 := def_syscall_entry post_rt_sigaction None,
    162 := def_syscall_entry post_nanosleep None,
    258 := def_syscall_entry post_set_tid_address None,
    311 := def_syscall_entry post_set_robust_list None,
    243 := def_syscall_entry post_set_thread_area None,
    240 := def_syscall_entry post_futex None,
    191 := def_syscall_entry post_ugetrlimit None,
    122 := def_syscall_entry post_uname None,
    268 := def_syscall_entry post_statfs64 None)"

text \<open>The index is not checked: outside the array anything may happen.\<close>

definition table_entry :: "u32 \<Rightarrow> syscall_tabent run" where
  "table_entry nr = (if 0 \<le> sint nr \<and> sint nr \<le> NR_SYSCALLS then Ok (syscall_table (sint nr)) else Stop Segv)"

definition syscall_pre_handler :: syscall_handler_t where
  "syscall_pre_handler k fd m reg s =
    bindR (write_syscall_nr k fd (r_orig_eax reg) s) (\<lambda>s. bindR (table_entry (r_orig_eax reg)) (\<lambda>e.
      case pre_handler e of None \<Rightarrow> Ok s | Some h \<Rightarrow> h k fd m reg s))"

definition syscall_post_handler :: syscall_handler_t where
  "syscall_post_handler k fd m reg s =
    bindR (table_entry (r_orig_eax reg)) (\<lambda>e.
      case post_handler e of None \<Rightarrow> Stop Fatal | Some h \<Rightarrow> h k fd m reg s)"

type_synonym 'k kernel = "syscall_regs \<Rightarrow> mem \<Rightarrow> 'k \<Rightarrow> u32 \<times> mem \<times> 'k"

definition wrapped_syscall ::
  "io_calls \<Rightarrow> int \<Rightarrow> 'k kernel \<Rightarrow> syscall_regs \<Rightarrow> mem \<Rightarrow> 'k \<Rightarrow> recorder \<Rightarrow> (syscall_regs \<times> mem \<times> 'k \<times> recorder) run" where
  "wrapped_syscall k fd sys reg m ks s =
    bindR (syscall_pre_handler k fd m reg s) (\<lambda>s.
      let (retval, m, ks) = sys reg m ks; reg = reg\<lparr>r_eax := retval\<rparr>
      in bindR (syscall_post_handler k fd m reg s) (\<lambda>s. Ok (reg, m, ks, s)))"

text \<open>
  The entry in assembly pushes the registers as a \<^verbatim>\<open>struct syscall_regs\<close>, calls
  \<^verbatim>\<open>wrapped_syscall\<close> on it and pops them again; the call stored its result in the
  slot of \<^verbatim>\<open>eax\<close>.  The frame below the stack pointer is not part of the memory here.
\<close>

record cpu =
  c_eax :: u32
  c_ebx :: u32
  c_ecx :: u32
  c_edx :: u32
  c_esi :: u32
  c_edi :: u32
  c_ebp :: u32
  c_flags :: u32
  c_esp :: u32

definition push_regs :: "cpu \<Rightarrow> mem \<Rightarrow> syscall_regs" where
  "push_regs c m = \<lparr>r_eax = c_eax c, r_ebx = c_ebx c, r_ecx = c_ecx c, r_edx = c_edx c, r_esi = c_esi c,
    r_edi = c_edi c, r_ebp = c_ebp c, r_flags = c_flags c, r_orig_eax = c_eax c,
    r_eip = load32 m (unat (c_esp c + 4)), r_esp = c_esp c\<rparr>"

definition pop_regs :: "syscall_regs \<Rightarrow> cpu \<Rightarrow> cpu" where
  "pop_regs r c = \<lparr>c_eax = r_eax r, c_ebx = r_ebx r, c_ecx = r_ecx r, c_edx = r_edx r, c_esi = r_esi r,
    c_edi = r_edi r, c_ebp = r_ebp r, c_flags = r_flags r, c_esp = c_esp c\<rparr>"

definition wrapped_syscall_entry ::
  "io_calls \<Rightarrow> int \<Rightarrow> 'k kernel \<Rightarrow> cpu \<Rightarrow> mem \<Rightarrow> 'k \<Rightarrow> recorder \<Rightarrow> (cpu \<times> mem \<times> 'k \<times> recorder) run" where
  "wrapped_syscall_entry k fd sys c m ks s =
    bindR (wrapped_syscall k fd sys (push_regs c m) m ks s) (\<lambda>(reg, m, ks, s). Ok (pop_regs reg c, m, ks, s))"

subsection \<open>What the handlers write\<close>

definition logged :: "int \<Rightarrow> byte list \<Rightarrow> recorder \<Rightarrow> recorder \<Rightarrow> bool" where
  "logged fd bs s s' \<longleftrightarrow> fds (log_io s') = fds (log_io s)
    \<and> (\<forall>fn. fds (log_io s) fd = Some fn \<longrightarrow> content fn (log_io s') = content fn (log_io s) @ bs)
    \<and> logger_sz s' = logger_sz s + word_of_nat (length bs)"

text \<open>\<open>saves fd f bs\<close>: the operation returns and appends exactly \<open>bs\<close> to the log.\<close>

definition saves :: "int \<Rightarrow> (recorder \<Rightarrow> recorder run) \<Rightarrow> byte list \<Rightarrow> bool" where
  "saves fd f bs \<longleftrightarrow> (\<forall>s. fds (log_io s) fd \<noteq> None \<longrightarrow> (\<exists>s'. f s = Ok s' \<and> logged fd bs s s'))"

lemma savesD:
  assumes "saves fd f bs" "fds (log_io s) fd \<noteq> None"
  obtains s' where "f s = Ok s'" "logged fd bs s s'" "fds (log_io s') fd \<noteq> None"
  using assms unfolding saves_def logged_def by metis

lemma logged_append: "logged fd a s s' \<Longrightarrow> logged fd b s' s'' \<Longrightarrow> logged fd (a @ b) s s''"
  by (simp add: logged_def add.assoc)

lemma saves_Ok: "saves fd Ok []"
  by (simp add: saves_def logged_def)

lemma saves_bind: "saves fd f a \<Longrightarrow> saves fd g b \<Longrightarrow> saves fd (\<lambda>s. bindR (f s) g) (a @ b)"
proof -
  assume a: "saves fd f a" and b: "saves fd g b"
  show ?thesis unfolding saves_def
  proof (intro allI impI)
    fix s :: recorder assume "fds (log_io s) fd \<noteq> None"
    from savesD [OF a this] obtain s1 where 1: "f s = Ok s1" "logged fd a s s1" "fds (log_io s1) fd \<noteq> None" .
    from savesD [OF b 1(3)] obtain s2 where "g s1 = Ok s2" "logged fd b s1 s2" .
    with 1 show "\<exists>s'. bindR (f s) g = Ok s' \<and> logged fd (a @ b) s s'" using logged_append by auto
  qed
qed

lemma saves_if: "saves fd f a \<Longrightarrow> saves fd g b \<Longrightarrow> saves fd (\<lambda>s. if c then f s else g s) (if c then a else b)"
  by simp

lemma write_logger_saves:
  assumes "io_reliable k"
  shows "saves fd (write_logger k fd bs) bs"
  unfolding saves_def
proof (intro allI impI)
  fix s :: recorder assume "fds (log_io s) fd \<noteq> None"
  then obtain fn where fn: "fds (log_io s) fd = Some fn" by blast
  obtain n io where w: "sys_write k fd bs (log_io s) = (n, io)" by (cases "sys_write k fd bs (log_io s)")
  have n: "n = int (length bs)" using reliable_calls(3) [OF assms fn, of bs] w by simp
  have "io = written fn bs (log_io s)" by (rule write_Ok [OF reliable_calls(1) [OF assms] w fn n])
  then show "\<exists>s'. write_logger k fd bs s = Ok s' \<and> logged fd bs s s'"
    using w n fn by (simp add: write_logger_def logged_def CASSERT_def)
qed

lemmas write_defs = write_mem_def write_obj_def write_eax_def write_syscall_nr_def write_regs_def

text \<open>
  The specification side.  A call is replayable when the kernel writes no memory but the areas
  its handler saves.  \<open>log_words\<close> are the words a handler logs besides the result,
  \<open>saved_areas\<close> the memory it logs.
\<close>

definition replayable :: "u32 \<Rightarrow> bool" where
  "replayable nr \<longleftrightarrow> nr \<in> {3, 4, 5, 6, 20, 78, 125, 162, 191, 195, 197, 240, 258, 311}"

definition log_words :: "syscall_regs \<Rightarrow> u32 list" where
  "log_words r =
    (if r_orig_eax r = 78 \<and> sint (r_eax r) \<ge> 0 then [r_ebx r, r_ecx r]
     else if r_orig_eax r = 162 then [r_ecx r]
     else if r_orig_eax r = 240 \<and> sint (r_eax r) \<ge> 0 then [r_ecx r AND FUTEX_CMD_MASK]
     else [])"

definition saved_areas :: "syscall_regs \<Rightarrow> (u32 \<times> nat) list" where
  "saved_areas r =
    (if r_orig_eax r = 3 then (if sint (r_eax r) > 0 then [(r_ecx r, nat (sint (r_eax r)))] else [])
     else if r_orig_eax r = 78 then
       (if sint (r_eax r) \<ge> 0 then (if r_ebx r \<noteq> 0 then [(r_ebx r, 8)] else []) @ (if r_ecx r \<noteq> 0 then [(r_ecx r, 8)] else []) else [])
     else if r_orig_eax r = 162 then (if r_ecx r \<noteq> 0 then [(r_ecx r, 8)] else [])
     else if r_orig_eax r = 191 then (if r_eax r = 0 then [(r_ecx r, 8)] else [])
     else if r_orig_eax r = 195 \<or> r_orig_eax r = 197 then (if sint (r_eax r) \<ge> 0 then [(r_ecx r, 96)] else [])
     else if r_orig_eax r = 240 then
       (if sint (r_eax r) \<ge> 0 then (r_ebx r, 4) # (if r_ecx r AND FUTEX_CMD_MASK \<in> {3, 4, 5} then [(r_edi r, 4)] else []) else [])
     else [])"

definition area_bytes :: "mem \<Rightarrow> u32 \<times> nat \<Rightarrow> byte list" where
  "area_bytes m = (\<lambda>(a, n). bytes_at m (unat a) n)"

definition post_bytes :: "mem \<Rightarrow> syscall_regs \<Rightarrow> byte list" where
  "post_bytes m r = le32 (r_eax r) @ concat (map le32 (log_words r)) @ concat (map (area_bytes m) (saved_areas r))"

lemma replayable_cases:
  assumes "replayable nr"
  obtains "nr = 3" | "nr = 4" | "nr = 5" | "nr = 6" | "nr = 20" | "nr = 78" | "nr = 125" | "nr = 162" | "nr = 191"
    | "nr = 195" | "nr = 197" | "nr = 240" | "nr = 258" | "nr = 311"
  using assms unfolding replayable_def by blast

lemma saves_cong: "saves fd f bs \<Longrightarrow> (\<And>s. g s = f s) \<Longrightarrow> bs' = bs \<Longrightarrow> saves fd g bs'"
  by (simp add: saves_def)

lemma table_entry_replayable: "replayable nr \<Longrightarrow> table_entry nr = Ok (syscall_table (sint nr))"
  by (erule replayable_cases) (simp_all add: table_entry_def NR_SYSCALLS_def)

lemma pre_handler_saves:
  assumes "io_reliable k" "replayable (r_orig_eax r)"
  shows "saves fd (syscall_pre_handler k fd m r) (le16 (ucast (r_orig_eax r)))"
proof (rule saves_cong [OF write_logger_saves [OF assms(1), of fd "le16 (ucast (r_orig_eax r))"]])
  fix s
  have "pre_handler (syscall_table i) = None" for i by (simp add: syscall_table_def def_syscall_entry_def)
  then show "syscall_pre_handler k fd m r s = write_logger k fd (le16 (ucast (r_orig_eax r))) s"
    by (cases "write_logger k fd (le16 (ucast (r_orig_eax r))) s")
      (simp_all add: syscall_pre_handler_def write_defs table_entry_replayable [OF assms(2)])
qed simp

lemmas eax_only_defs = post_open_def post_close_def post_write_def post_getpid_def post_mprotect_def
  post_set_tid_address_def post_set_robust_list_def

lemma write_saves:
  assumes "io_reliable k"
  shows "saves fd (write_eax k fd r) (le32 (r_eax r))" "saves fd (write_obj k fd w) (le32 w)"
    "saves fd (write_mem k fd m a n) (area_bytes m (a, n))"
  using write_logger_saves [OF assms] by (simp_all add: write_defs area_bytes_def)

lemma handler_saves:
  assumes k: "io_reliable k"
  shows "saves fd (post_read k fd m r) (le32 (r_eax r) @
      (if sint (r_eax r) > 0 then area_bytes m (r_ecx r, nat (sint (r_eax r))) else []))"
    "saves fd (post_gettimeofday k fd m r) (le32 (r_eax r) @ (if sint (r_eax r) \<ge> 0 then
      le32 (r_ebx r) @ le32 (r_ecx r) @ (if r_ebx r \<noteq> 0 then area_bytes m (r_ebx r, 8) else []) @
      (if r_ecx r \<noteq> 0 then area_bytes m (r_ecx r, 8) else []) else []))"
    "saves fd (post_nanosleep k fd m r) (le32 (r_eax r) @ le32 (r_ecx r) @ (if r_ecx r \<noteq> 0 then area_bytes m (r_ecx r, 8) else []))"
    "saves fd (post_ugetrlimit k fd m r) (le32 (r_eax r) @ (if r_eax r = 0 then area_bytes m (r_ecx r, 8) else []))"
    "saves fd (post_stat64 k fd m r) (le32 (r_eax r) @ (if sint (r_eax r) \<ge> 0 then area_bytes m (r_ecx r, 96) else []))"
    "saves fd (post_fstat64 k fd m r) (le32 (r_eax r) @ (if sint (r_eax r) \<ge> 0 then area_bytes m (r_ecx r, 96) else []))"
    "saves fd (post_futex k fd m r) (le32 (r_eax r) @ (if sint (r_eax r) < 0 then [] else
      le32 (r_ecx r AND FUTEX_CMD_MASK) @ area_bytes m (r_ebx r, 4) @
      (if r_ecx r AND FUTEX_CMD_MASK = 3 \<or> r_ecx r AND FUTEX_CMD_MASK = 4 \<or> r_ecx r AND FUTEX_CMD_MASK = 5
       then area_bytes m (r_edi r, 4) else [])))"
  unfolding post_read_def [abs_def] post_gettimeofday_def [abs_def] post_nanosleep_def [abs_def]
    post_ugetrlimit_def [abs_def] post_stat64_def [abs_def] post_fstat64_def [abs_def] post_futex_def [abs_def] Let_def
  by (intro saves_bind saves_if saves_Ok write_saves [OF k])+

lemma eax_handler_saves:
  assumes "io_reliable k"
    "h \<in> {post_open, post_close, post_write, post_getpid, post_mprotect, post_set_tid_address, post_set_robust_list}"
  shows "saves fd (h k fd m r) (le32 (r_eax r))"
proof -
  have "h k fd m r = write_eax k fd r" using assms(2) by (auto simp: eax_only_defs)
  then show ?thesis using write_saves(1) [OF assms(1)] by simp
qed

lemma post_bytes_eqs:
  "r_orig_eax r = 3 \<Longrightarrow> post_bytes m r = le32 (r_eax r) @
      (if sint (r_eax r) > 0 then area_bytes m (r_ecx r, nat (sint (r_eax r))) else [])"
  "r_orig_eax r = 78 \<Longrightarrow> post_bytes m r = le32 (r_eax r) @ (if sint (r_eax r) \<ge> 0 then
      le32 (r_ebx r) @ le32 (r_ecx r) @ (if r_ebx r \<noteq> 0 then area_bytes m (r_ebx r, 8) else []) @
      (if r_ecx r \<noteq> 0 then area_bytes m (r_ecx r, 8) else []) else [])"
  "r_orig_eax r = 162 \<Longrightarrow> post_bytes m r = le32 (r_eax r) @ le32 (r_ecx r) @ (if r_ecx r \<noteq> 0 then area_bytes m (r_ecx r, 8) else [])"
  "r_orig_eax r = 191 \<Longrightarrow> post_bytes m r = le32 (r_eax r) @ (if r_eax r = 0 then area_bytes m (r_ecx r, 8) else [])"
  "r_orig_eax r = 195 \<Longrightarrow> post_bytes m r = le32 (r_eax r) @ (if sint (r_eax r) \<ge> 0 then area_bytes m (r_ecx r, 96) else [])"
  "r_orig_eax r = 197 \<Longrightarrow> post_bytes m r = le32 (r_eax r) @ (if sint (r_eax r) \<ge> 0 then area_bytes m (r_ecx r, 96) else [])"
  "r_orig_eax r = 240 \<Longrightarrow> post_bytes m r = le32 (r_eax r) @ (if sint (r_eax r) < 0 then [] else
      le32 (r_ecx r AND FUTEX_CMD_MASK) @ area_bytes m (r_ebx r, 4) @
      (if r_ecx r AND FUTEX_CMD_MASK = 3 \<or> r_ecx r AND FUTEX_CMD_MASK = 4 \<or> r_ecx r AND FUTEX_CMD_MASK = 5
       then area_bytes m (r_edi r, 4) else []))"
  by (simp_all add: post_bytes_def log_words_def saved_areas_def not_le)

lemma post_bytes_eax: "r_orig_eax r \<in> {4, 5, 6, 20, 125, 258, 311} \<Longrightarrow> post_bytes m r = le32 (r_eax r)"
  by (auto simp: post_bytes_def log_words_def saved_areas_def)

lemma table_handlers:
  "post_handler (syscall_table 3) = Some post_read" "post_handler (syscall_table 4) = Some post_write"
  "post_handler (syscall_table 5) = Some post_open" "post_handler (syscall_table 6) = Some post_close"
  "post_handler (syscall_table 20) = Some post_getpid" "post_handler (syscall_table 78) = Some post_gettimeofday"
  "post_handler (syscall_table 125) = Some post_mprotect" "post_handler (syscall_table 162) = Some post_nanosleep"
  "post_handler (syscall_table 191) = Some post_ugetrlimit" "post_handler (syscall_table 195) = Some post_stat64"
  "post_handler (syscall_table 197) = Some post_fstat64" "post_handler (syscall_table 240) = Some post_futex"
  "post_handler (syscall_table 258) = Some post_set_tid_address" "post_handler (syscall_table 311) = Some post_set_robust_list"
  by (simp_all add: syscall_table_def def_syscall_entry_def)

lemma post_handler_saves:
  assumes k: "io_reliable k" and nr: "replayable (r_orig_eax r)"
  shows "saves fd (syscall_post_handler k fd m r) (post_bytes m r)"
proof -
  have t: "saves fd (syscall_post_handler k fd m r) bs"
    if "post_handler (syscall_table (sint (r_orig_eax r))) = Some h" "saves fd (h k fd m r) bs" for h bs
    using that by (simp add: syscall_post_handler_def [abs_def] table_entry_replayable [OF nr])
  note h = t [of post_read, OF _ handler_saves(1) [OF k]] t [of post_gettimeofday, OF _ handler_saves(2) [OF k]]
    t [of post_nanosleep, OF _ handler_saves(3) [OF k]] t [of post_ugetrlimit, OF _ handler_saves(4) [OF k]]
    t [of post_stat64, OF _ handler_saves(5) [OF k]] t [of post_fstat64, OF _ handler_saves(6) [OF k]]
    t [of post_futex, OF _ handler_saves(7) [OF k]]
  have eax: "saves fd (syscall_post_handler k fd m r) (post_bytes m r)"
    if "post_handler (syscall_table (sint (r_orig_eax r))) = Some h"
      "h \<in> {post_open, post_close, post_write, post_getpid, post_mprotect, post_set_tid_address, post_set_robust_list}"
      "r_orig_eax r \<in> {4, 5, 6, 20, 125, 258, 311}" for h
    unfolding post_bytes_eax [OF that(3)] by (rule t [OF that(1) eax_handler_saves [OF k that(2)]])
  from nr show ?thesis
  proof (cases rule: replayable_cases)
    case 1
    show ?thesis unfolding post_bytes_eqs(1) [OF 1] by (rule h(1)) (simp add: 1 table_handlers)
  next
    case 6
    show ?thesis unfolding post_bytes_eqs(2) [OF 6] by (rule h(2)) (simp add: 6 table_handlers)
  next
    case 8
    show ?thesis unfolding post_bytes_eqs(3) [OF 8] by (rule h(3)) (simp add: 8 table_handlers)
  next
    case 9
    show ?thesis unfolding post_bytes_eqs(4) [OF 9] by (rule h(4)) (simp add: 9 table_handlers)
  next
    case 10
    show ?thesis unfolding post_bytes_eqs(5) [OF 10] by (rule h(5)) (simp add: 10 table_handlers)
  next
    case 11
    show ?thesis unfolding post_bytes_eqs(6) [OF 11] by (rule h(6)) (simp add: 11 table_handlers)
  next
    case 12
    show ?thesis unfolding post_bytes_eqs(7) [OF 12] by (rule h(7)) (simp add: 12 table_handlers)
  qed (rule eax, simp add: table_handlers, simp, simp)+
qed

subsection \<open>Reading the log\<close>

text \<open>
  A reader for the log.  It knows the format of each record from what it has read so far, and
  gets the addresses the saved areas belong to from the registers of the replayed program.
\<close>

fun cut :: "nat list \<Rightarrow> byte list \<Rightarrow> (byte list list \<times> byte list) option" where
  "cut [] bs = Some ([], bs)"
| "cut (n # ns) bs = (if length bs < n then None
     else case cut ns (drop n bs) of None \<Rightarrow> None | Some (bss, rest) \<Rightarrow> Some (take n bs # bss, rest))"

lemma cut_concat: "map length bss = ns \<Longrightarrow> cut ns (concat bss @ rest) = Some (bss, rest)"
  by (induction bss arbitrary: ns) auto

definition of_le16 :: "byte list \<Rightarrow> u16" where
  "of_le16 bs = ucast (bs ! 0) OR push_bit 8 (ucast (bs ! 1))"

definition word_count :: "u16 \<Rightarrow> u32 \<Rightarrow> nat" where
  "word_count nr eax =
    (if nr = 78 \<and> sint eax \<ge> 0 then 2 else if nr = 162 then 1 else if nr = 240 \<and> sint eax \<ge> 0 then 1 else 0)"

definition area_sizes :: "u16 \<Rightarrow> u32 \<Rightarrow> u32 list \<Rightarrow> nat list" where
  "area_sizes nr eax ws =
    (if nr = 3 then (if sint eax > 0 then [nat (sint eax)] else [])
     else if nr = 78 then concat (map (\<lambda>w. if w \<noteq> 0 then [8] else []) ws)
     else if nr = 162 then concat (map (\<lambda>w. if w \<noteq> 0 then [8] else []) ws)
     else if nr = 191 then (if eax = 0 then [8] else [])
     else if nr = 195 \<or> nr = 197 then (if sint eax \<ge> 0 then [96] else [])
     else if nr = 240 then concat (map (\<lambda>w. if w \<in> {3, 4, 5} then [4, 4] else [4]) ws)
     else [])"

definition read_event :: "byte list \<Rightarrow> ((u16 \<times> u32 \<times> byte list list) \<times> byte list) option" where
  "read_event bs =
    (case cut [2, 4] bs of None \<Rightarrow> None
     | Some (head, bs) \<Rightarrow>
       let nr = of_le16 (head ! 0); eax = of_le32 (head ! 1)
       in (case cut (replicate (word_count nr eax) 4) bs of None \<Rightarrow> None
          | Some (ws, bs) \<Rightarrow> (case cut (area_sizes nr eax (map of_le32 ws)) bs of None \<Rightarrow> None
             | Some (areas, bs) \<Rightarrow> Some ((nr, eax, areas), bs))))"

definition overwrite :: "nat \<Rightarrow> byte list \<Rightarrow> mem \<Rightarrow> mem" where
  "overwrite a bs m = (\<lambda>x. if a \<le> x \<and> x < a + length bs then bs ! (x - a) else m x)"

fun restore_areas :: "(u32 \<times> nat) list \<Rightarrow> byte list list \<Rightarrow> mem \<Rightarrow> mem" where
  "restore_areas ((a, n) # as) (bs # bss) m = restore_areas as bss (overwrite (unat a) bs m)"
| "restore_areas _ _ m = m"

definition replay_syscall :: "cpu \<Rightarrow> mem \<Rightarrow> byte list \<Rightarrow> (cpu \<times> mem \<times> byte list) option" where
  "replay_syscall c m log =
    (case read_event log of None \<Rightarrow> None
     | Some ((nr, eax, bss), log) \<Rightarrow>
       if nr \<noteq> ucast (c_eax c) then None
       else let r = (push_regs c m)\<lparr>r_eax := eax\<rparr> in Some (pop_regs r c, restore_areas (saved_areas r) bss m, log))"

lemma of_le16_le16: "of_le16 (le16 w) = w"
  by (rule bit_word_eqI)
    (auto simp: of_le16_def le16_def bit_or_iff bit_push_bit_iff bit_ucast_iff bit_drop_bit_eq)

lemma of_le32_le32': "of_le32 (le32 w) = w"
  using of_le32_le32 [of w "[]"] by simp

lemma length_area_bytes: "length (area_bytes m (a, n)) = n"
  by (simp add: area_bytes_def bytes_at_def)

lemma nr_ucast:
  assumes "replayable nr"
  shows "(ucast nr :: u16) = 3 \<longleftrightarrow> nr = 3" "(ucast nr :: u16) = 78 \<longleftrightarrow> nr = 78" "(ucast nr :: u16) = 162 \<longleftrightarrow> nr = 162"
    "(ucast nr :: u16) = 191 \<longleftrightarrow> nr = 191" "(ucast nr :: u16) = 195 \<longleftrightarrow> nr = 195" "(ucast nr :: u16) = 197 \<longleftrightarrow> nr = 197"
    "(ucast nr :: u16) = 240 \<longleftrightarrow> nr = 240"
  by (rule replayable_cases [OF assms]; simp)+

lemma length_log_words:
  "replayable (r_orig_eax r) \<Longrightarrow> length (log_words r) = word_count (ucast (r_orig_eax r)) (r_eax r)"
  by (simp add: word_count_def log_words_def nr_ucast)

lemma length_saved_areas:
  "replayable (r_orig_eax r) \<Longrightarrow> map snd (saved_areas r) = area_sizes (ucast (r_orig_eax r)) (r_eax r) (log_words r)"
  by (simp add: area_sizes_def saved_areas_def log_words_def nr_ucast)

lemma read_event_bytes:
  assumes "replayable (r_orig_eax r)"
  shows "read_event (le16 (ucast (r_orig_eax r)) @ post_bytes m r @ rest) =
    Some ((ucast (r_orig_eax r), r_eax r, map (area_bytes m) (saved_areas r)), rest)"
proof -
  let ?nr = "ucast (r_orig_eax r) :: u16" and ?ws = "map le32 (log_words r)" and ?as = "map (area_bytes m) (saved_areas r)"
  have "cut [2, 4] (concat [le16 ?nr, le32 (r_eax r)] @ concat ?ws @ concat ?as @ rest) =
      Some ([le16 ?nr, le32 (r_eax r)], concat ?ws @ concat ?as @ rest)"
    by (rule cut_concat) (simp add: le16_def)
  then have 1: "cut [2, 4] (le16 ?nr @ post_bytes m r @ rest) = Some ([le16 ?nr, le32 (r_eax r)], concat ?ws @ concat ?as @ rest)"
    by (simp add: post_bytes_def)
  have 2: "cut (replicate (word_count ?nr (r_eax r)) 4) (concat ?ws @ concat ?as @ rest) = Some (?ws, concat ?as @ rest)"
    by (rule cut_concat) (simp add: length_log_words [OF assms, symmetric] map_replicate_const comp_def)
  have 3: "cut (area_sizes ?nr (r_eax r) (log_words r)) (concat ?as @ rest) = Some (?as, rest)"
    by (rule cut_concat) (simp add: length_saved_areas [OF assms, symmetric] area_bytes_def bytes_at_def split_def)
  have "map of_le32 ?ws = log_words r" by (simp add: of_le32_le32' map_idI)
  moreover have "of_le16 ([le16 ?nr, le32 (r_eax r)] ! 0) = ?nr" "of_le32 ([le16 ?nr, le32 (r_eax r)] ! 1) = r_eax r"
    by (simp_all add: of_le16_le16 of_le32_le32')
  ultimately show ?thesis
    unfolding read_event_def 1 by (simp only: option.case prod.case Let_def 2 3)
qed

lemma restore_areas_bytes:
  "restore_areas as (map (area_bytes m') as) m x =
    (if \<exists>(a, n)\<in>set as. unat a \<le> x \<and> x < unat a + n then m' x else m x)"
proof (induction as arbitrary: m)
  case (Cons p as)
  obtain a n where p: "p = (a, n)" by (cases p)
  have "overwrite (unat a) (area_bytes m' (a, n)) m x = (if unat a \<le> x \<and> x < unat a + n then m' x else m x)"
    by (auto simp: overwrite_def area_bytes_def bytes_at_def less_diff_conv2)
  then show ?case using Cons.IH p by auto
qed simp

subsection \<open>Recording and replaying\<close>

text \<open>
  A traced program is a function from the registers and the memory to the registers and the memory
  at its next system call.  \<open>record_run\<close> runs it for \<open>n\<close> calls under the loader;
  \<open>replay_run\<close> runs it on the log alone, without a kernel.
\<close>

type_synonym program = "cpu \<Rightarrow> mem \<Rightarrow> cpu \<times> mem"

fun record_run ::
  "io_calls \<Rightarrow> int \<Rightarrow> 'k kernel \<Rightarrow> program \<Rightarrow> nat \<Rightarrow> cpu \<Rightarrow> mem \<Rightarrow> 'k \<Rightarrow> recorder \<Rightarrow> (cpu \<times> mem \<times> 'k \<times> recorder) run" where
  "record_run k fd sys prog 0 c m ks s = Ok (c, m, ks, s)"
| "record_run k fd sys prog (Suc n) c m ks s =
    (let (c, m) = prog c m
     in bindR (wrapped_syscall_entry k fd sys c m ks s) (\<lambda>(c, m, ks, s). record_run k fd sys prog n c m ks s))"

fun replay_run :: "program \<Rightarrow> nat \<Rightarrow> cpu \<Rightarrow> mem \<Rightarrow> byte list \<Rightarrow> (cpu \<times> mem \<times> byte list) option" where
  "replay_run prog 0 c m log = Some (c, m, log)"
| "replay_run prog (Suc n) c m log =
    (let (c, m) = prog c m
     in case replay_syscall c m log of None \<Rightarrow> None | Some (c, m, log) \<Rightarrow> replay_run prog n c m log)"

text \<open>What is known of the kernel: a replayable call changes memory only in the areas of its results.\<close>

definition confined :: "'k kernel \<Rightarrow> bool" where
  "confined sys \<longleftrightarrow> (\<forall>r m ks. replayable (r_orig_eax r) \<longrightarrow> (case sys r m ks of (eax, m', ks') \<Rightarrow>
    \<forall>x. (\<forall>(a, n)\<in>set (saved_areas (r\<lparr>r_eax := eax\<rparr>)). \<not> (unat a \<le> x \<and> x < unat a + n)) \<longrightarrow> m' x = m x))"

lemma syscall_replays:
  assumes k: "io_reliable k" and sys: "confined sys" and nr: "replayable (c_eax c)" and fd: "fds (log_io s) fd \<noteq> None"
  shows "\<exists>c' m' ks' s' bs. wrapped_syscall_entry k fd sys c m ks s = Ok (c', m', ks', s') \<and> logged fd bs s s' \<and>
    (\<forall>log. replay_syscall c m (bs @ log) = Some (c', m', log)) \<and> fds (log_io s') fd \<noteq> None"
proof -
  define r where "r = push_regs c m"
  obtain eax m' ks' where call: "sys r m ks = (eax, m', ks')" by (cases "sys r m ks")
  define r' where "r' = r\<lparr>r_eax := eax\<rparr>"
  have nr': "replayable (r_orig_eax r)" "replayable (r_orig_eax r')" and n: "r_orig_eax r' = c_eax c" "r_orig_eax r = c_eax c"
    using nr by (simp_all add: r_def r'_def push_regs_def)
  from savesD [OF pre_handler_saves [OF k nr'(1)] fd] obtain s1 where 1: "syscall_pre_handler k fd m r s = Ok s1"
    "logged fd (le16 (ucast (r_orig_eax r))) s s1" "fds (log_io s1) fd \<noteq> None" .
  from savesD [OF post_handler_saves [OF k nr'(2)] 1(3)] obtain s2 where 2: "syscall_post_handler k fd m' r' s1 = Ok s2"
    "logged fd (post_bytes m' r') s1 s2" "fds (log_io s2) fd \<noteq> None" .
  have e: "wrapped_syscall_entry k fd sys c m ks s = Ok (pop_regs r' c, m', ks', s2)"
    using 1(1) 2(1) call by (simp add: wrapped_syscall_entry_def wrapped_syscall_def r_def [symmetric] r'_def)
  have "restore_areas (saved_areas r') (map (area_bytes m') (saved_areas r')) m = m'"
    using sys [unfolded confined_def, rule_format, OF nr'(1), of m ks] call
    by (auto simp: restore_areas_bytes fun_eq_iff r'_def)
  then have "replay_syscall c m ((le16 (ucast (r_orig_eax r)) @ post_bytes m' r') @ log) = Some (pop_regs r' c, m', log)" for log
    using read_event_bytes [OF nr'(2), of m' log] n by (simp add: replay_syscall_def r_def [symmetric] r'_def)
  then show ?thesis using e logged_append [OF 1(2) 2(2)] 2(3) by blast
qed

lemma record_replays:
  assumes k: "io_reliable k" and sys: "confined sys" and prog: "\<And>c m. replayable (c_eax (fst (prog c m)))"
    and fd: "fds (log_io s) fd \<noteq> None"
  shows "\<exists>c' m' ks' s' bs. record_run k fd sys prog n c m ks s = Ok (c', m', ks', s') \<and> logged fd bs s s' \<and>
    (\<forall>log. replay_run prog n c m (bs @ log) = Some (c', m', log))"
  using fd
proof (induction n arbitrary: c m ks s)
  case 0
  have "logged fd [] s s" by (simp add: logged_def)
  then show ?case by (auto intro!: exI [of _ "[]"])
next
  case (Suc n)
  obtain c1 m1 where p: "prog c m = (c1, m1)" by (cases "prog c m")
  have "replayable (c_eax c1)" using prog [of c m] p by simp
  from syscall_replays [OF k sys this Suc.prems, of m1 ks] obtain c2 m2 ks2 s2 bs where
    1: "wrapped_syscall_entry k fd sys c1 m1 ks s = Ok (c2, m2, ks2, s2)" "logged fd bs s s2"
    "\<forall>log. replay_syscall c1 m1 (bs @ log) = Some (c2, m2, log)" "fds (log_io s2) fd \<noteq> None" by blast
  from Suc.IH [OF 1(4), of c2 m2 ks2] obtain c3 m3 ks3 s3 bs3 where
    2: "record_run k fd sys prog n c2 m2 ks2 s2 = Ok (c3, m3, ks3, s3)" "logged fd bs3 s2 s3"
    "\<forall>log. replay_run prog n c2 m2 (bs3 @ log) = Some (c3, m3, log)" by blast
  have "replay_run prog (Suc n) c m ((bs @ bs3) @ log) = Some (c3, m3, log)" for log
    using 1(3) 2(3) p by simp
  then show ?case using 1(1) 2(1) p logged_append [OF 1(2) 2(2)] by auto
qed


text \<open>A kernel whose \<^verbatim>\<open>read\<close> delivers the bytes 0, 1, 2, ... and a program that reads them.\<close>

definition demo_sys :: "byte kernel" where
  "demo_sys r m ks = (if r_orig_eax r = 3 then (1, m(unat (r_ecx r) := ks), ks + 1) else (0xFFFFFFFF, m, ks))"

definition demo_prog :: program where
  "demo_prog c m = (c\<lparr>c_eax := 3, c_ecx := 0x1000 + c_edx c, c_edx := c_edx c + c_eax c\<rparr>, m)"

definition demo_recorder :: recorder where
  "demo_recorder = \<lparr>logger_sz = 0, log_io = no_files\<lparr>fds := [3 \<mapsto> ''log'']\<rparr>\<rparr>"

definition demo_cpu :: cpu where
  "demo_cpu = \<lparr>c_eax = 0, c_ebx = 0, c_ecx = 0, c_edx = 0, c_esi = 0, c_edi = 0, c_ebp = 0, c_flags = 0, c_esp = 0\<rparr>"

lemma demo_sys_confined: "confined demo_sys"
  by (simp add: confined_def demo_sys_def saved_areas_def)




text \<open>
  Results that are not recorded.  The kernel fills memory for \<^verbatim>\<open>ioctl\<close>,
  \<^verbatim>\<open>rt_sigaction\<close>, \<^verbatim>\<open>rt_sigprocmask\<close>, \<^verbatim>\<open>set_thread_area\<close>, \<^verbatim>\<open>statfs64\<close> and
  the file mappings of \<^verbatim>\<open>mmap\<close>, but what their handlers do, the log included, does not
  depend on that memory; the handler of \<^verbatim>\<open>uname\<close> depends on the first 325 bytes only, of
  the 390 the call writes.
\<close>

lemma unrecorded_results:
  assumes "r_orig_eax r \<in> {54, 90, 174, 175, 192, 243, 268} \<or>
    r_orig_eax r = 122 \<and> (\<forall>i<325. m (unat (r_ebx r) + i) = m' (unat (r_ebx r) + i))"
  shows "syscall_post_handler k fd m r s = syscall_post_handler k fd m' r s"
proof -
  note t = table_entry_def syscall_table_def def_syscall_entry_def NR_SYSCALLS_def syscall_post_handler_def
  from assms consider (eax) "r_orig_eax r \<in> {54, 90, 174, 175, 192, 243, 268}"
    | (uname) "r_orig_eax r = 122" "\<forall>i<325. m (unat (r_ebx r) + i) = m' (unat (r_ebx r) + i)" by blast
  then show ?thesis
  proof cases
    case eax
    then show ?thesis by (elim insertE; simp add: t post_ioctl_def post_mmap_def post_mmap2_def post_rt_sigaction_def
      post_rt_sigprocmask_def post_set_thread_area_def post_statfs64_def)
  next
    case uname
    then have "bytes_at m (unat (r_ebx r)) (5 * 65) = bytes_at m' (unat (r_ebx r)) (5 * 65)" by (simp add: bytes_at_def)
    then show ?thesis using uname(1) by (simp add: t post_uname_def write_mem_def cong: if_cong)
  qed
qed

end
