(* ===== verification/Printf_Format.thy ===== *)
theory Printf_Format
  imports Printf_Pointer
begin

text \<open>
  Formatted output (\<^verbatim>\<open>src/lib/vsprintf.c\<close>, \<^verbatim>\<open>format_decode\<close> and \<^verbatim>\<open>vsnprintf\<close> with its
  variants).  The format is the list of its characters, and a pointer into it the rest of the list.
  The variable arguments are the 32-bit words on the stack; an argument that is not there stops the
  run with \<open>Segv\<close>.  Strings and objects passed by reference are in the memory \<open>m\<close>, which \<^verbatim>\<open>%n\<close>
  writes; the output buffer is a memory of its own, so it overlaps neither the format nor a string.

  \<open>format_decode\<close> is split at the labels of the code: \<open>decode_qualifier\<close> is the part from
  \<^verbatim>\<open>qualifier:\<close> on, \<open>decode_precision\<close> the part from \<^verbatim>\<open>precision:\<close> on.
\<close>

subsection \<open>Decoding a conversion\<close>

fun flag_loop :: "byte list \<Rightarrow> byte \<Rightarrow> byte list \<times> byte" where
  "flag_loop [] flags = ([], flags)"
| "flag_loop (c # fmt) flags =
    (if c = chr CHR ''-'' then flag_loop fmt (flags OR LEFT)
     else if c = chr CHR ''+'' then flag_loop fmt (flags OR PLUS)
     else if c = chr CHR '' '' then flag_loop fmt (flags OR SPACE)
     else if c = chr CHR ''#'' then flag_loop fmt (flags OR SPECIAL)
     else if c = chr CHR ''0'' then flag_loop fmt (flags OR ZEROPAD)
     else (c # fmt, flags))"

definition int_type :: "byte \<Rightarrow> byte \<Rightarrow> format_type" where
  "int_type qualifier flags =
    (if qualifier = chr CHR ''L'' then FORMAT_TYPE_LONG_LONG
     else if qualifier = chr CHR ''l'' then if has flags SIGN then FORMAT_TYPE_LONG else FORMAT_TYPE_ULONG
     else if TOLOWER qualifier = chr CHR ''z'' then FORMAT_TYPE_SIZE_T
     else if qualifier = chr CHR ''t'' then FORMAT_TYPE_PTRDIFF
     else if qualifier = chr CHR ''H'' then if has flags SIGN then FORMAT_TYPE_BYTE else FORMAT_TYPE_UBYTE
     else if qualifier = chr CHR ''h'' then if has flags SIGN then FORMAT_TYPE_SHORT else FORMAT_TYPE_USHORT
     else if has flags SIGN then FORMAT_TYPE_INT else FORMAT_TYPE_UINT)"

definition decode_conversion :: "byte list \<Rightarrow> printf_spec \<Rightarrow> byte list \<times> printf_spec" where
  "decode_conversion fmt spec =
    (let spec = spec\<lparr>sp_base := 10\<rparr>;
         c = ch fmt 0;
         integer = (\<lambda>spec. (tl fmt, spec\<lparr>sp_type := int_type (sp_qualifier spec) (sp_flags spec)\<rparr>))
     in if c = chr CHR ''c'' then (tl fmt, spec\<lparr>sp_type := FORMAT_TYPE_CHAR\<rparr>)
        else if c = chr CHR ''s'' then (tl fmt, spec\<lparr>sp_type := FORMAT_TYPE_STR\<rparr>)
        else if c = chr CHR ''p'' then (fmt, spec\<lparr>sp_type := FORMAT_TYPE_PTR\<rparr>)
        else if c = chr CHR ''n'' then (tl fmt, spec\<lparr>sp_type := FORMAT_TYPE_NRCHARS\<rparr>)
        else if c = chr CHR ''%'' then (tl fmt, spec\<lparr>sp_type := FORMAT_TYPE_PERCENT_CHAR\<rparr>)
        else if c = chr CHR ''o'' then integer (spec\<lparr>sp_base := 8\<rparr>)
        else if c = chr CHR ''x'' then integer (spec\<lparr>sp_flags := sp_flags spec OR SMALL, sp_base := 16\<rparr>)
        else if c = chr CHR ''X'' then integer (spec\<lparr>sp_base := 16\<rparr>)
        else if c = chr CHR ''d'' \<or> c = chr CHR ''i'' then integer (spec\<lparr>sp_flags := sp_flags spec OR SIGN\<rparr>)
        else if c = chr CHR ''u'' then integer spec
        else (fmt, spec\<lparr>sp_type := FORMAT_TYPE_INVALID\<rparr>))"

definition length_modifier :: "byte list \<Rightarrow> byte \<times> byte list" where
  "length_modifier fmt =
    (let c = ch fmt 0
     in if c = chr CHR ''h'' \<or> TOLOWER c = chr CHR ''l'' \<or> TOLOWER c = chr CHR ''z'' \<or> c = chr CHR ''t'' then
          let fmt = tl fmt
          in if c = ch fmt 0 \<and> c = chr CHR ''l'' then (chr CHR ''L'', tl fmt)
             else if c = ch fmt 0 \<and> c = chr CHR ''h'' then (chr CHR ''H'', tl fmt)
             else (c, fmt)
        else (0xff, fmt))"

definition decode_qualifier :: "byte list \<Rightarrow> printf_spec \<Rightarrow> byte list \<times> printf_spec" where
  "decode_qualifier fmt spec =
    (let (q, fmt) = length_modifier fmt in decode_conversion fmt (spec\<lparr>sp_qualifier := q\<rparr>))"

definition decode_precision :: "byte list \<Rightarrow> printf_spec \<Rightarrow> byte list \<times> printf_spec" where
  "decode_precision fmt spec =
    (let spec = spec\<lparr>sp_precision := - 1\<rparr>
     in if ch fmt 0 = chr CHR ''.'' then
          let fmt = tl fmt
          in if isdigit (ch fmt 0) then
               let (v, fmt) = skip_atoi fmt
               in decode_qualifier fmt (spec\<lparr>sp_precision := max 0 (s16 (sint v))\<rparr>)
             else if ch fmt 0 = chr CHR ''*'' then (tl fmt, spec\<lparr>sp_type := FORMAT_TYPE_PRECISION\<rparr>)
             else decode_qualifier fmt spec
        else decode_qualifier fmt spec)"

definition decode_directive :: "byte list \<Rightarrow> printf_spec \<Rightarrow> byte list \<times> printf_spec" where
  "decode_directive fmt spec =
    (let (fmt, flags) = flag_loop (tl fmt) 0;
         spec = spec\<lparr>sp_flags := flags, sp_width := - 1\<rparr>
     in if isdigit (ch fmt 0) then
          let (v, fmt) = skip_atoi fmt in decode_precision fmt (spec\<lparr>sp_width := s16 (sint v)\<rparr>)
        else if ch fmt 0 = chr CHR ''*'' then (tl fmt, spec\<lparr>sp_type := FORMAT_TYPE_WIDTH\<rparr>)
        else decode_precision fmt spec)"

definition format_decode :: "byte list \<Rightarrow> printf_spec \<Rightarrow> nat \<times> printf_spec" where
  "format_decode start spec =
    (let (fmt, spec) =
       (if sp_type spec = FORMAT_TYPE_WIDTH then
          let spec = (if sp_width spec < 0
                      then spec\<lparr>sp_width := s16 (- sp_width spec), sp_flags := sp_flags spec OR LEFT\<rparr> else spec)
          in decode_precision start (spec\<lparr>sp_type := FORMAT_TYPE_NONE\<rparr>)
        else if sp_type spec = FORMAT_TYPE_PRECISION then
          let spec = (if sp_precision spec < 0 then spec\<lparr>sp_precision := 0\<rparr> else spec)
          in decode_qualifier start (spec\<lparr>sp_type := FORMAT_TYPE_NONE\<rparr>)
        else
          let spec = spec\<lparr>sp_type := FORMAT_TYPE_NONE\<rparr>;
              fmt = dropWhile (\<lambda>c. c \<noteq> 0 \<and> c \<noteq> chr CHR ''%'') start
          in if length fmt \<noteq> length start \<or> ch fmt 0 = 0 then (fmt, spec)
             else decode_directive fmt spec)
     in (length start - length fmt, spec))"

subsection \<open>Decoding makes progress\<close>

lemma flag_loop_length: "length (fst (flag_loop fmt flags)) \<le> length fmt"
  by (induction fmt arbitrary: flags) (auto simp: le_SucI)

lemma skip_atoi_length: "length (snd (skip_atoi s)) \<le> length s"
  by (simp add: skip_atoi_result length_dropWhile_le)

lemma int_type_not: "int_type q flags \<notin> {FORMAT_TYPE_NONE, FORMAT_TYPE_WIDTH, FORMAT_TYPE_PRECISION}"
  by (simp add: int_type_def)

lemma length_modifier_length: "length (snd (length_modifier fmt)) \<le> length fmt"
  by (simp add: length_modifier_def Let_def)

lemma decode_conversion_progress:
  "length (fst (decode_conversion fmt spec)) \<le> length fmt"
  "sp_type (snd (decode_conversion fmt spec)) \<notin> {FORMAT_TYPE_NONE, FORMAT_TYPE_WIDTH, FORMAT_TYPE_PRECISION}"
proof -
  note split = if_split [of "\<lambda>r. length (fst r) \<le> length fmt"]
    if_split [of "\<lambda>r. sp_type (snd r) \<notin> {FORMAT_TYPE_NONE, FORMAT_TYPE_WIDTH, FORMAT_TYPE_PRECISION}"]
  show "length (fst (decode_conversion fmt spec)) \<le> length fmt"
    unfolding decode_conversion_def Let_def split by simp
  show "sp_type (snd (decode_conversion fmt spec)) \<notin> {FORMAT_TYPE_NONE, FORMAT_TYPE_WIDTH, FORMAT_TYPE_PRECISION}"
    unfolding decode_conversion_def Let_def split using int_type_not by simp
qed

lemma decode_qualifier_progress:
  "length (fst (decode_qualifier fmt spec)) \<le> length fmt"
  "sp_type (snd (decode_qualifier fmt spec)) \<notin> {FORMAT_TYPE_NONE, FORMAT_TYPE_WIDTH, FORMAT_TYPE_PRECISION}"
  using order_trans [OF decode_conversion_progress(1) length_modifier_length]
    decode_conversion_progress(2)
  by (simp_all add: decode_qualifier_def split_def Let_def)

lemma decode_precision_progress:
  "length (fst (decode_precision fmt spec)) \<le> length fmt"
  "sp_type (snd (decode_precision fmt spec)) \<notin> {FORMAT_TYPE_NONE, FORMAT_TYPE_WIDTH}"
  "sp_type (snd (decode_precision fmt spec)) = FORMAT_TYPE_PRECISION \<Longrightarrow> length (fst (decode_precision fmt spec)) < length fmt"
proof -
  have tl: "ch fmt 0 = 0x2e \<Longrightarrow> Suc (length (tl fmt)) = length fmt" by (cases fmt) simp_all
  have sk: "length (fst (decode_qualifier (snd (skip_atoi (tl fmt))) spec')) \<le> length fmt" for spec'
    using decode_qualifier_progress(1) [of "snd (skip_atoi (tl fmt))" spec'] skip_atoi_length [of "tl fmt"] by simp
  have q: "length (fst (decode_qualifier (tl fmt) spec')) \<le> length fmt" for spec'
    using decode_qualifier_progress(1) [of "tl fmt" spec'] by simp
  show "length (fst (decode_precision fmt spec)) \<le> length fmt"
    using sk q decode_qualifier_progress(1) by (simp add: decode_precision_def Let_def split_def)
  show "sp_type (snd (decode_precision fmt spec)) \<notin> {FORMAT_TYPE_NONE, FORMAT_TYPE_WIDTH}"
    using decode_qualifier_progress(2) by (simp add: decode_precision_def Let_def split_def)
  show "sp_type (snd (decode_precision fmt spec)) = FORMAT_TYPE_PRECISION \<Longrightarrow> length (fst (decode_precision fmt spec)) < length fmt"
    using tl decode_qualifier_progress(2)
    by (cases "ch fmt 0 = 0x2e"; cases "isdigit (ch (tl fmt) 0)"; cases "ch (tl fmt) 0 = 0x2a")
      (simp_all add: decode_precision_def Let_def split_def)
qed

lemma decode_directive_progress:
  assumes "fmt \<noteq> []"
  shows "length (fst (decode_directive fmt spec)) < length fmt"
    "sp_type (snd (decode_directive fmt spec)) \<noteq> FORMAT_TYPE_NONE"
proof -
  have tl: "length (tl fmt) < length fmt" using assms by (cases fmt) simp_all
  let ?f = "fst (flag_loop (tl fmt) 0)"
  have f: "length ?f < length fmt" using flag_loop_length [of "tl fmt" 0] tl by simp
  have s: "length (fst (decode_precision (snd (skip_atoi ?f)) spec')) < length fmt" for spec'
    using decode_precision_progress(1) [of "snd (skip_atoi ?f)" spec'] skip_atoi_length [of ?f] f by simp
  have p: "length (fst (decode_precision ?f spec')) < length fmt" for spec'
    using decode_precision_progress(1) [of ?f spec'] f by simp
  show "length (fst (decode_directive fmt spec)) < length fmt"
    using s p f by (simp add: decode_directive_def Let_def split_def less_imp_diff_less)
  show "sp_type (snd (decode_directive fmt spec)) \<noteq> FORMAT_TYPE_NONE"
    using decode_precision_progress(2) by (simp add: decode_directive_def Let_def split_def)
qed

definition fmt_steps :: "nat \<Rightarrow> printf_spec \<Rightarrow> nat" where
  "fmt_steps n spec = 2 * n + of_bool (sp_type spec \<in> {FORMAT_TYPE_WIDTH, FORMAT_TYPE_PRECISION})"

lemma format_decode_progress:
  assumes "fmt \<noteq> []" "hd fmt \<noteq> 0"
  shows "fmt_steps (length (drop (fst (format_decode fmt spec)) fmt)) (snd (format_decode fmt spec)) < fmt_steps (length fmt) spec"
    "sp_type (snd (format_decode fmt spec)) = FORMAT_TYPE_NONE \<Longrightarrow> 0 < fst (format_decode fmt spec)"
proof -
  let ?r = "format_decode fmt spec"
  have "fmt_steps (length (drop (fst ?r) fmt)) (snd ?r) < fmt_steps (length fmt) spec \<and>
    (sp_type (snd ?r) = FORMAT_TYPE_NONE \<longrightarrow> 0 < fst ?r)"
  proof (cases "sp_type spec \<in> {FORMAT_TYPE_WIDTH, FORMAT_TYPE_PRECISION}")
    case True
    then have "(\<exists>spec'. ?r = (let (r, spec) = decode_precision fmt spec' in (length fmt - length r, spec))) \<or>
        (\<exists>spec'. ?r = (let (r, spec) = decode_qualifier fmt spec' in (length fmt - length r, spec)))"
      unfolding format_decode_def by (elim insertE emptyE) (simp_all add: Let_def, blast+)
    then show ?thesis
    proof (elim disjE exE)
      fix spec'
      assume r: "?r = (let (r, spec) = decode_precision fmt spec' in (length fmt - length r, spec))"
      show ?thesis
        using True decode_precision_progress [of fmt spec'] unfolding r fmt_steps_def
        by (cases "sp_type (snd (decode_precision fmt spec')) = FORMAT_TYPE_PRECISION") (auto simp: split_def Let_def)
    next
      fix spec'
      assume r: "?r = (let (r, spec) = decode_qualifier fmt spec' in (length fmt - length r, spec))"
      show ?thesis
        using True decode_qualifier_progress [of fmt spec'] unfolding r fmt_steps_def by (auto simp: split_def Let_def)
    qed
  next
    case False
    define r where "r = dropWhile (\<lambda>c. c \<noteq> 0 \<and> c \<noteq> chr CHR ''%'') fmt"
    have len: "length r \<le> length fmt" unfolding r_def by (rule length_dropWhile_le)
    have same: "r = fmt" if "length r = length fmt"
      using that length_dropWhile_le [of "\<lambda>c. c \<noteq> 0 \<and> c \<noteq> chr CHR ''%''" "tl fmt"] assms(1) unfolding r_def
      by (cases fmt) (auto split: if_splits)
    have z: "ch fmt 0 \<noteq> 0" using assms by (cases fmt) auto
    show ?thesis
    proof (cases "length r = length fmt")
      case True
      then have "?r = (let (r, spec) = decode_directive fmt (spec\<lparr>sp_type := FORMAT_TYPE_NONE\<rparr>) in (length fmt - length r, spec))"
        using \<open>sp_type spec \<notin> _\<close> same z unfolding format_decode_def Let_def r_def [symmetric] by simp
      then show ?thesis
        using decode_directive_progress [OF assms(1), of "spec\<lparr>sp_type := FORMAT_TYPE_NONE\<rparr>"]
        by (simp add: fmt_steps_def split_def Let_def of_bool_def)
    next
      case d: False
      then have "?r = (length fmt - length r, spec\<lparr>sp_type := FORMAT_TYPE_NONE\<rparr>)"
        using False unfolding format_decode_def Let_def r_def [symmetric] by simp
      then show ?thesis using d len by (simp add: fmt_steps_def)
    qed
  qed
  then show "fmt_steps (length (drop (fst ?r) fmt)) (snd ?r) < fmt_steps (length fmt) spec"
    "sp_type (snd ?r) = FORMAT_TYPE_NONE \<Longrightarrow> 0 < fst ?r" by blast+
qed

subsection \<open>Formatted output\<close>

text \<open>The words of the argument area, read by \<^verbatim>\<open>va_arg\<close>.\<close>

fun va_word :: "u32 list \<Rightarrow> (u32 \<times> u32 list) run" where
  "va_word [] = Stop Segv"
| "va_word (a # args) = Ok (a, args)"

fun va_long_long :: "u32 list \<Rightarrow> (u64 \<times> u32 list) run" where
  "va_long_long (lo # hi # args) = Ok (ucast lo OR push_bit 32 (ucast hi), args)"
| "va_long_long _ = Stop Segv"

definition store32 :: "mem \<Rightarrow> nat \<Rightarrow> u32 \<Rightarrow> mem" where
  "store32 m a v = m(a := ucast v, a + 1 := ucast (drop_bit 8 v), a + 2 := ucast (drop_bit 16 v), a + 3 := ucast (drop_bit 24 v))"

text \<open>\<^verbatim>\<open>while (--spec.field_width > 0) put ' ';\<close>\<close>

function char_loop :: "outbuf \<Rightarrow> int \<Rightarrow> outbuf \<times> int" where
  "char_loop b fw =
    (let fw = s16 (fw - 1) in if fw > 0 then char_loop (put b (chr CHR '' '')) fw else (b, fw))"
  by pat_completeness auto

termination char_loop
  by (relation "measure (\<lambda>(b, fw). s16_steps fw)") (auto intro: s16_steps_less)

declare char_loop.simps [simp del]

definition print_char :: "outbuf \<Rightarrow> byte \<Rightarrow> printf_spec \<Rightarrow> outbuf \<times> int" where
  "print_char b c spec =
    (let (b, fw) = (if \<not> has (sp_flags spec) LEFT then char_loop b (sp_width spec) else (b, sp_width spec));
         b = put b c
     in char_loop b fw)"

text \<open>The plain text between conversions is copied by one \<^verbatim>\<open>memcpy\<close>, as far as the buffer goes.\<close>

definition copy_text :: "outbuf \<Rightarrow> byte list \<Rightarrow> outbuf" where
  "copy_text b cs =
    b\<lparr>o_str := o_str b + length cs,
      o_mem := (if o_str b < o_end b then
                  let copy = min (length cs) (o_end b - o_str b)
                  in (\<lambda>a. if o_str b \<le> a \<and> a < o_str b + copy then cs ! (a - o_str b) else o_mem b a)
                else o_mem b)\<rparr>"

text \<open>The value of an integer conversion, widened to \<^verbatim>\<open>unsigned long long\<close>.\<close>

definition int_arg :: "format_type \<Rightarrow> u32 \<Rightarrow> u64" where
  "int_arg ty a =
    (case ty of
       FORMAT_TYPE_LONG \<Rightarrow> scast a
     | FORMAT_TYPE_PTRDIFF \<Rightarrow> scast a
     | FORMAT_TYPE_UBYTE \<Rightarrow> ucast (ucast a :: byte)
     | FORMAT_TYPE_BYTE \<Rightarrow> scast (ucast a :: byte)
     | FORMAT_TYPE_USHORT \<Rightarrow> ucast (ucast a :: u16)
     | FORMAT_TYPE_SHORT \<Rightarrow> scast (ucast a :: u16)
     | FORMAT_TYPE_INT \<Rightarrow> scast a
     | _ \<Rightarrow> ucast a)"

text \<open>
  One turn of the loop of \<^verbatim>\<open>vsnprintf\<close> after the decoding: \<open>old_fmt\<close> is the format before it and
  \<open>fmt\<close> after it, \<open>buf\<close> the start of the output.
\<close>

definition vsnprintf_step ::
  "(byte \<Rightarrow> u32 \<Rightarrow> byte list) \<Rightarrow> nat \<Rightarrow> outbuf \<Rightarrow> mem \<Rightarrow> byte list \<Rightarrow> byte list \<Rightarrow> printf_spec \<Rightarrow> u32 list
    \<Rightarrow> (outbuf \<times> mem \<times> byte list \<times> printf_spec \<times> u32 list) run" where
  "vsnprintf_step ks buf b m old_fmt fmt spec args =
    (case sp_type spec of
       FORMAT_TYPE_NONE \<Rightarrow> Ok (copy_text b (take (length old_fmt - length fmt) old_fmt), m, fmt, spec, args)
     | FORMAT_TYPE_WIDTH \<Rightarrow> bindR (va_word args) (\<lambda>(a, args). Ok (b, m, fmt, spec\<lparr>sp_width := s16 (sint a)\<rparr>, args))
     | FORMAT_TYPE_PRECISION \<Rightarrow> bindR (va_word args) (\<lambda>(a, args). Ok (b, m, fmt, spec\<lparr>sp_precision := s16 (sint a)\<rparr>, args))
     | FORMAT_TYPE_CHAR \<Rightarrow> bindR (va_word args) (\<lambda>(a, args).
         let (b, fw) = print_char b (ucast a) spec in Ok (b, m, fmt, spec\<lparr>sp_width := fw\<rparr>, args))
     | FORMAT_TYPE_STR \<Rightarrow> bindR (va_word args) (\<lambda>(a, args). Ok (string_put b m a spec, m, fmt, spec, args))
     | FORMAT_TYPE_PTR \<Rightarrow> bindR (va_word args) (\<lambda>(a, args).
         Ok (pointer ks (tl fmt) b m a spec, m, dropWhile isalnum fmt, spec, args))
     | FORMAT_TYPE_PERCENT_CHAR \<Rightarrow> Ok (put b (chr CHR ''%''), m, fmt, spec, args)
     | FORMAT_TYPE_INVALID \<Rightarrow> Ok (put b (chr CHR ''%''), m, fmt, spec, args)
     | FORMAT_TYPE_NRCHARS \<Rightarrow> bindR (va_word args) (\<lambda>(a, args).
         Ok (b, store32 m (unat a) (word_of_nat (o_str b - buf)), fmt, spec, args))
     | FORMAT_TYPE_LONG_LONG \<Rightarrow> bindR (va_long_long args) (\<lambda>(num, args). Ok (number b num spec, m, fmt, spec, args))
     | ty \<Rightarrow> bindR (va_word args) (\<lambda>(a, args). Ok (number b (int_arg ty a) spec, m, fmt, spec, args)))"

lemma bind_va_word:
  "bindR (va_word args) f = Ok r \<longleftrightarrow> (\<exists>a rest. args = a # rest \<and> f (a, rest) = Ok r)"
  by (cases args) simp_all

lemma bind_va_long_long:
  "bindR (va_long_long args) f = Ok r \<longleftrightarrow>
    (\<exists>lo hi rest. args = lo # hi # rest \<and> f (ucast lo OR push_bit 32 (ucast hi), rest) = Ok r)"
  by (cases args rule: va_long_long.cases) simp_all

lemma vsnprintf_step_progress:
  assumes "vsnprintf_step ks buf b m old_fmt fmt spec args = Ok (b', m', fmt', spec', args')"
  shows "length fmt' \<le> length fmt" "sp_type spec' = sp_type spec"
proof -
  have "length fmt' \<le> length fmt \<and> sp_type spec' = sp_type spec"
    using assms length_dropWhile_le [of isalnum fmt] unfolding vsnprintf_step_def bind_va_word bind_va_long_long
    by (cases "sp_type spec") (simp_all add: bind_va_word bind_va_long_long split_def Let_def, auto)
  then show "length fmt' \<le> length fmt" "sp_type spec' = sp_type spec" by simp_all
qed

function vsnprintf_loop ::
  "(byte \<Rightarrow> u32 \<Rightarrow> byte list) \<Rightarrow> nat \<Rightarrow> outbuf \<Rightarrow> mem \<Rightarrow> byte list \<Rightarrow> printf_spec \<Rightarrow> u32 list \<Rightarrow> (outbuf \<times> mem) run" where
  "vsnprintf_loop ks buf b m fmt spec args =
    (if ch fmt 0 = 0 then Ok (b, m)
     else bindR (vsnprintf_step ks buf b m fmt (drop (fst (format_decode fmt spec)) fmt) (snd (format_decode fmt spec)) args)
       (\<lambda>(b, m, fmt, spec, args). vsnprintf_loop ks buf b m fmt spec args))"
  by pat_completeness auto

termination vsnprintf_loop
proof (relation "measure (\<lambda>(ks, buf, b, m, fmt, spec, args). fmt_steps (length fmt) spec)", goal_cases)
  case (2 ks buf b m fmt spec args r b' x m' x' fmt' x'' spec' args')
  then have "fmt \<noteq> []" "hd fmt \<noteq> 0" by (cases fmt; simp)+
  note progress = format_decode_progress(1) [OF this, of spec]
  from 2 have "vsnprintf_step ks buf b m fmt (drop (fst (format_decode fmt spec)) fmt) (snd (format_decode fmt spec)) args
      = Ok (b', m', fmt', spec', args')" by simp
  note step = vsnprintf_step_progress [OF this]
  have "fmt_steps (length fmt') spec' \<le> fmt_steps (length (drop (fst (format_decode fmt spec)) fmt)) (snd (format_decode fmt spec))"
    using step by (simp add: fmt_steps_def)
  with progress show ?case by simp
qed simp

declare vsnprintf_loop.simps [simp del]

definition null_spec :: printf_spec where
  "null_spec = \<lparr>sp_type = FORMAT_TYPE_NONE, sp_flags = 0, sp_base = 0, sp_qualifier = 0, sp_width = 0, sp_precision = 0\<rparr>"

text \<open>The result: the return value, the memory of the buffer and the other memory.\<close>

definition vsnprintf ::
  "(byte \<Rightarrow> u32 \<Rightarrow> byte list) \<Rightarrow> mem \<Rightarrow> mem \<Rightarrow> u32 \<Rightarrow> u32 \<Rightarrow> byte list \<Rightarrow> u32 list \<Rightarrow> (nat \<times> mem \<times> mem) run" where
  "vsnprintf ks m out buf sz fmt args =
    (if sint sz < 0 then Ok (0, out, m)
     else
       let (end', sz) = (if buf + sz < buf then (0xffffffff, 0xffffffff - buf) else (buf + sz, sz))
       in bindR (vsnprintf_loop ks (unat buf) \<lparr>o_str = unat buf, o_end = unat end', o_mem = out\<rparr> m fmt null_spec args)
            (\<lambda>(b, m).
              let out = (if sz > 0 then
                           if o_str b < o_end b then (o_mem b)(o_str b := 0) else (o_mem b)(o_end b - 1 := 0)
                         else o_mem b)
              in Ok (o_str b - unat buf, out, m)))"

definition vscnprintf ::
  "(byte \<Rightarrow> u32 \<Rightarrow> byte list) \<Rightarrow> mem \<Rightarrow> mem \<Rightarrow> u32 \<Rightarrow> u32 \<Rightarrow> byte list \<Rightarrow> u32 list \<Rightarrow> (u32 \<times> mem \<times> mem) run" where
  "vscnprintf ks m out buf sz fmt args =
    bindR (vsnprintf ks m out buf sz fmt args) (\<lambda>(i, out, m).
      Ok (if word_of_nat i \<ge> sz then sz - 1 else word_of_nat i, out, m))"

definition vsprintf ::
  "(byte \<Rightarrow> u32 \<Rightarrow> byte list) \<Rightarrow> mem \<Rightarrow> mem \<Rightarrow> u32 \<Rightarrow> byte list \<Rightarrow> u32 list \<Rightarrow> (nat \<times> mem \<times> mem) run" where
  "vsprintf ks m out buf fmt args = vsnprintf ks m out buf 0x7fffffff fmt args"

definition snprintf ::
  "(byte \<Rightarrow> u32 \<Rightarrow> byte list) \<Rightarrow> mem \<Rightarrow> mem \<Rightarrow> u32 \<Rightarrow> u32 \<Rightarrow> byte list \<Rightarrow> u32 list \<Rightarrow> (nat \<times> mem \<times> mem) run" where
  "snprintf ks m out buf sz fmt args = vsnprintf ks m out buf sz fmt args"

definition scnprintf ::
  "(byte \<Rightarrow> u32 \<Rightarrow> byte list) \<Rightarrow> mem \<Rightarrow> mem \<Rightarrow> u32 \<Rightarrow> u32 \<Rightarrow> byte list \<Rightarrow> u32 list \<Rightarrow> (u32 \<times> mem \<times> mem) run" where
  "scnprintf ks m out buf sz fmt args =
    bindR (vsnprintf ks m out buf sz fmt args) (\<lambda>(i, out, m).
      Ok (if word_of_nat i \<ge> sz then sz - 1 else word_of_nat i, out, m))"

definition sprintf ::
  "(byte \<Rightarrow> u32 \<Rightarrow> byte list) \<Rightarrow> mem \<Rightarrow> mem \<Rightarrow> u32 \<Rightarrow> byte list \<Rightarrow> u32 list \<Rightarrow> (nat \<times> mem \<times> mem) run" where
  "sprintf ks m out buf fmt args = vsnprintf ks m out buf 0x7fffffff fmt args"

subsection \<open>The fields of a decoded specification are in range\<close>

definition spec_range :: "printf_spec \<Rightarrow> bool" where
  "spec_range spec \<longleftrightarrow> - 32768 \<le> sp_width spec \<and> sp_width spec \<le> 32767 \<and>
    - 32768 \<le> sp_precision spec \<and> sp_precision spec \<le> 32767"

definition decoded :: "printf_spec \<Rightarrow> bool" where
  "decoded spec \<longleftrightarrow> spec_range spec \<and>
    (sp_type spec \<in> {FORMAT_TYPE_NONE, FORMAT_TYPE_WIDTH, FORMAT_TYPE_PRECISION} \<or> spec_ok spec)"

lemma spec_range_simps [simp]:
  "spec_range (spec\<lparr>sp_type := t\<rparr>) = spec_range spec" "spec_range (spec\<lparr>sp_flags := f\<rparr>) = spec_range spec"
  "spec_range (spec\<lparr>sp_base := c\<rparr>) = spec_range spec" "spec_range (spec\<lparr>sp_qualifier := q\<rparr>) = spec_range spec"
  by (simp_all add: spec_range_def)

lemma spec_range_upd:
  "spec_range spec \<Longrightarrow> - 32768 \<le> w \<Longrightarrow> w \<le> 32767 \<Longrightarrow> spec_range (spec\<lparr>sp_width := w\<rparr>)"
  "spec_range spec \<Longrightarrow> - 32768 \<le> w \<Longrightarrow> w \<le> 32767 \<Longrightarrow> spec_range (spec\<lparr>sp_precision := w\<rparr>)"
  by (simp_all add: spec_range_def)

lemma spec_ok_range: "spec_ok spec \<longleftrightarrow> spec_range spec \<and> sp_base spec \<in> {8, 10, 16}"
  by (auto simp: spec_ok_def spec_range_def)

lemma decode_conversion_ok:
  assumes "spec_range spec"
  shows "spec_ok (snd (decode_conversion fmt spec))"
proof -
  note split = if_split [of "\<lambda>r. spec_ok (snd r)"]
  show ?thesis unfolding decode_conversion_def Let_def split using assms by (simp add: spec_ok_range)
qed

lemma decode_qualifier_ok: "spec_range spec \<Longrightarrow> spec_ok (snd (decode_qualifier fmt spec))"
  by (simp add: decode_qualifier_def split_def Let_def decode_conversion_ok)

lemma decode_precision_decoded:
  assumes "spec_range spec"
  shows "decoded (snd (decode_precision fmt spec))"
proof -
  have p: "spec_range (spec\<lparr>sp_precision := - 1\<rparr>)" "spec_range (spec\<lparr>sp_precision := - 1\<rparr>\<lparr>sp_precision := max 0 (s16 x)\<rparr>)" for x
    using assms s16_bounds [of x] by (auto intro!: spec_range_upd)
  note ok = decode_qualifier_ok [OF p(1)] decode_qualifier_ok [OF p(2)]
  then have "spec_range (snd (decode_qualifier f (spec\<lparr>sp_precision := - 1\<rparr>)))"
    "spec_range (snd (decode_qualifier f (spec\<lparr>sp_precision := - 1\<rparr>\<lparr>sp_precision := max 0 (s16 x)\<rparr>)))" for f x
    by (auto simp: spec_ok_range)
  with ok p show ?thesis
    unfolding decode_precision_def Let_def split_def decoded_def by (simp del: printf_spec.update_convs)
qed

lemma decode_directive_decoded:
  assumes "spec_range spec"
  shows "decoded (snd (decode_directive fmt spec))"
proof -
  have w: "spec_range (spec\<lparr>sp_flags := f, sp_width := - 1\<rparr>)" "spec_range (spec\<lparr>sp_flags := f, sp_width := - 1\<rparr>\<lparr>sp_width := s16 x\<rparr>)" for f x
    using assms s16_bounds [of x] by (auto intro!: spec_range_upd)
  show ?thesis
    using w decode_precision_decoded [OF w(1)] decode_precision_decoded [OF w(2)]
    unfolding decode_directive_def Let_def split_def by (simp add: decoded_def)
qed

lemma format_decode_decoded:
  assumes "spec_range spec"
  shows "decoded (snd (format_decode fmt spec))"
proof -
  have w: "spec_range ((if sp_width spec < 0 then spec\<lparr>sp_width := s16 (- sp_width spec), sp_flags := sp_flags spec OR LEFT\<rparr>
      else spec)\<lparr>sp_type := FORMAT_TYPE_NONE\<rparr>)"
    using assms s16_bounds [of "- sp_width spec"] by (simp add: spec_range_def)
  have p: "spec_range ((if sp_precision spec < 0 then spec\<lparr>sp_precision := 0\<rparr> else spec)\<lparr>sp_type := FORMAT_TYPE_NONE\<rparr>)"
    using assms by (simp add: spec_range_def)
  have "decoded (snd (decode_qualifier fmt ((if sp_precision spec < 0 then spec\<lparr>sp_precision := 0\<rparr> else spec)\<lparr>sp_type := FORMAT_TYPE_NONE\<rparr>)))"
    using decode_qualifier_ok [OF p] by (simp add: decoded_def spec_ok_range)
  moreover have "decoded (spec\<lparr>sp_type := FORMAT_TYPE_NONE\<rparr>)" using assms by (simp add: decoded_def)
  ultimately show ?thesis
    using decode_precision_decoded [OF w] decode_directive_decoded [of "spec\<lparr>sp_type := FORMAT_TYPE_NONE\<rparr>"] assms
    unfolding format_decode_def Let_def split_def by simp
qed

subsection \<open>The text does not depend on the buffer\<close>

lemma copy_text_puts: "copy_text b cs = puts b cs"
proof -
  have "o_mem (copy_text b cs) = o_mem (puts b cs)"
    by (rule ext) (auto simp: copy_text_def puts_mem Let_def)
  then show ?thesis using puts_str [of b cs] by (simp add: copy_text_def)
qed

lemma char_loop_text: "\<exists>t e. - 32768 \<le> e \<and> e \<le> 32767 \<and> (\<forall>b. char_loop b fw = (puts b t, e))"
proof (induction "s16_steps fw" arbitrary: fw rule: less_induct)
  case less
  show ?case
  proof (cases "0 < s16 (fw - 1)")
    case True
    then have "s16_steps (s16 (fw - 1)) < s16_steps fw" by (intro s16_steps_less) simp
    from less [OF this] obtain t e where "- 32768 \<le> e" "e \<le> 32767" "\<forall>b. char_loop b (s16 (fw - 1)) = (puts b t, e)"
      by blast
    with True have "char_loop b fw = (puts b (chr CHR '' '' # t), e)" for b
      by (subst char_loop.simps) (simp only: Let_def if_True puts_simps)
    with \<open>- 32768 \<le> e\<close> \<open>e \<le> 32767\<close> show ?thesis by blast
  next
    case False
    then have "char_loop b fw = (puts b [], s16 (fw - 1))" for b by (subst char_loop.simps) (simp add: Let_def)
    then show ?thesis using s16_bounds by blast
  qed
qed

lemma print_char_text: "\<exists>t e. - 32768 \<le> e \<and> e \<le> 32767 \<and> (\<forall>b. print_char b c spec = (puts b t, e))"
proof -
  obtain t1 e1 where 1: "\<forall>b. char_loop b (sp_width spec) = (puts b t1, e1)"
    using char_loop_text by blast
  obtain t2 e2 where 2: "- 32768 \<le> e2" "e2 \<le> 32767" "\<forall>b. char_loop b e1 = (puts b t2, e2)"
    using char_loop_text by blast
  obtain t3 e3 where 3: "- 32768 \<le> e3" "e3 \<le> 32767" "\<forall>b. char_loop b (sp_width spec) = (puts b t3, e3)"
    using char_loop_text by blast
  show ?thesis
  proof (cases "has (sp_flags spec) LEFT")
    case True
    then have "print_char b c spec = (puts b (c # t3), e3)" for b by (simp add: print_char_def 3(3))
    then show ?thesis using 3 by blast
  next
    case False
    then have "print_char b c spec = (puts b (t1 @ c # t2), e2)" for b by (simp add: print_char_def 1 2 put_puts del: puts_simps(2))
    then show ?thesis using 2 by blast
  qed
qed

text \<open>What a turn of the loop does with \<open>n\<close> characters already out: it stops, or it puts a text.\<close>

type_synonym turn = "(byte list \<times> mem \<times> byte list \<times> printf_spec \<times> u32 list) run"

definition turn_of :: "outbuf \<Rightarrow> turn \<Rightarrow> (outbuf \<times> mem \<times> byte list \<times> printf_spec \<times> u32 list) run" where
  "turn_of b r = bindR r (\<lambda>(t, x). Ok (puts b t, x))"

lemma turn_of_simps [simp]: "turn_of b (Stop f) = Stop f" "turn_of b (Ok (t, x)) = Ok (puts b t, x)"
  by (simp_all add: turn_of_def)

lemma turn_word:
  assumes "\<And>a rest. \<exists>r. \<forall>b buf. o_str b = buf + n \<longrightarrow> f b buf a rest = turn_of b r"
  shows "\<exists>r. \<forall>b buf. o_str b = buf + n \<longrightarrow> bindR (va_word args) (\<lambda>(a, rest). f b buf a rest) = turn_of b r"
proof (cases args)
  case Nil
  then have "\<forall>b buf. o_str b = buf + n \<longrightarrow> bindR (va_word args) (\<lambda>(a, rest). f b buf a rest) = turn_of b (Stop Segv)" by simp
  then show ?thesis by blast
next
  case (Cons a rest)
  then show ?thesis using assms [of a rest] by simp
qed

lemma turn_emitter:
  assumes "emitter f"
  shows "\<exists>r. \<forall>b buf. o_str b = buf + n \<longrightarrow> Ok (f b, x) = turn_of b r"
proof -
  obtain t where "\<forall>b. f b = puts b t" using assms by (auto simp: emitter_def emits_def)
  then have "\<forall>b buf. o_str b = buf + n \<longrightarrow> Ok (f b, x) = turn_of b (Ok (t, x))" by simp
  then show ?thesis by blast
qed

lemma emitter_puts: "emitter (\<lambda>b. puts b cs)" "emitter (\<lambda>b. put b c)" "emitter (\<lambda>b. b)"
  by (rule emitterI [of _ cs], simp, rule emitterI [of _ "[c]"], simp, rule emitterI [of _ "[]"], simp)

lemma step_turn:
  assumes "decoded spec"
  shows "\<exists>r. \<forall>b buf. o_str b = buf + n \<longrightarrow> vsnprintf_step ks buf b m old_fmt fmt spec args = turn_of b r"
proof -
  have w: "- 32768 \<le> sp_width spec" "sp_width spec \<le> 32767" "- 32768 \<le> sp_precision spec" "sp_precision spec \<le> 32767"
    using assms by (simp_all add: decoded_def spec_range_def)
  have num: "\<exists>r. \<forall>b buf. o_str b = buf + n \<longrightarrow> bindR (va_word args) (\<lambda>(a, args). Ok (number b (int_arg ty a) spec, m, fmt, spec, args)) = turn_of b r"
    if "spec_ok spec" for ty
    by (rule turn_word) (rule turn_emitter, rule emitter_number [OF that])
  have ll: "\<exists>r. \<forall>b buf. o_str b = buf + n \<longrightarrow> bindR (va_long_long args) (\<lambda>(num, args). Ok (number b num spec, m, fmt, spec, args)) = turn_of b r"
    if "spec_ok spec"
  proof (cases args rule: va_long_long.cases)
    case (1 lo hi rest)
    then show ?thesis using turn_emitter [OF emitter_number [OF that, of "ucast lo OR push_bit 32 (ucast hi)"], of n "(m, fmt, spec, rest)"] by simp
  qed (auto intro!: exI [of _ "Stop Segv"])
  have chars: "\<exists>r. \<forall>b buf. o_str b = buf + n \<longrightarrow> bindR (va_word args) (\<lambda>(a, args).
         let (b, fw) = print_char b (ucast a) spec in Ok (b, m, fmt, spec\<lparr>sp_width := fw\<rparr>, args)) = turn_of b r"
  proof (rule turn_word)
    fix a :: u32 and rest :: "u32 list"
    obtain t e where "\<forall>b. print_char b (ucast a) spec = (puts b t, e)" using print_char_text by blast
    then have "\<forall>b buf. o_str b = buf + n \<longrightarrow> (let (b, fw) = print_char b (ucast a) spec in Ok (b, m, fmt, spec\<lparr>sp_width := fw\<rparr>, rest)) =
        turn_of b (Ok (t, m, fmt, spec\<lparr>sp_width := e\<rparr>, rest))" by simp
    then show "\<exists>r. \<forall>b buf. o_str b = buf + n \<longrightarrow> (let (b, fw) = print_char b (ucast a) spec in Ok (b, m, fmt, spec\<lparr>sp_width := fw\<rparr>, rest)) =
        turn_of b r" by blast
  qed
  have nr: "\<exists>r. \<forall>b buf. o_str b = buf + n \<longrightarrow> bindR (va_word args) (\<lambda>(a, args).
         Ok (b, store32 m (unat a) (word_of_nat (o_str b - buf)), fmt, spec, args)) = turn_of b r"
  proof (rule turn_word)
    fix a :: u32 and rest :: "u32 list"
    have "\<forall>b buf. o_str b = buf + n \<longrightarrow> Ok (b, store32 m (unat a) (word_of_nat (o_str b - buf)), fmt, spec, rest) =
        turn_of b (Ok ([], store32 m (unat a) (word_of_nat n), fmt, spec, rest))" by simp
    then show "\<exists>r. \<forall>b buf. o_str b = buf + n \<longrightarrow> Ok (b, store32 m (unat a) (word_of_nat (o_str b - buf)), fmt, spec, rest) = turn_of b r" by blast
  qed
  have ok: "spec_ok spec" if "sp_type spec \<notin> {FORMAT_TYPE_NONE, FORMAT_TYPE_WIDTH, FORMAT_TYPE_PRECISION}"
    using assms that by (simp add: decoded_def)
  note ts = turn_emitter [OF emitter_puts(1)] turn_emitter [OF emitter_puts(2)]
    turn_word [OF turn_emitter [OF emitter_puts(3)]] turn_word [OF turn_emitter [OF emitter_string [OF w(2)]]]
    turn_word [OF turn_emitter [OF emitter_pointer [OF w]]]
  show ?thesis
    unfolding vsnprintf_step_def copy_text_puts
    by (cases "sp_type spec") (simp_all only: format_type.case ts chars nr, (rule ll num, rule ok, simp)+)
qed

lemma step_range:
  assumes "decoded spec" "vsnprintf_step ks buf b m old_fmt fmt spec args = Ok (b', m', fmt', spec', args')"
  shows "spec_range spec'"
proof -
  have r: "spec_range spec" using assms(1) by (simp add: decoded_def)
  have s: "spec_range (spec\<lparr>sp_width := s16 x\<rparr>)" "spec_range (spec\<lparr>sp_precision := s16 x\<rparr>)" for x
    using r s16_bounds [of x] by (auto intro: spec_range_upd)
  have c: "spec_range (spec\<lparr>sp_width := snd (print_char b c spec)\<rparr>)" for c
    using r print_char_text [of c spec] spec_range_upd(1) [of spec] by force
  show ?thesis
    using assms(2) r s c unfolding vsnprintf_step_def bind_va_word bind_va_long_long
    by (cases "sp_type spec") (simp_all add: bind_va_word bind_va_long_long split_def Let_def, auto)
qed

lemma vsnprintf_loop_text:
  assumes "spec_range spec"
  shows "\<exists>r. \<forall>b buf. o_str b = buf + n \<longrightarrow>
    vsnprintf_loop ks buf b m fmt spec args = bindR r (\<lambda>(t, m'). Ok (puts b t, m'))"
  using assms
proof (induction "fmt_steps (length fmt) spec" arbitrary: n m fmt spec args rule: less_induct)
  case less
  show ?case
  proof (cases "ch fmt 0 = 0")
    case True
    then have "\<forall>b buf. o_str b = buf + n \<longrightarrow> vsnprintf_loop ks buf b m fmt spec args = bindR (Ok ([], m)) (\<lambda>(t, m'). Ok (puts b t, m'))"
      by (subst vsnprintf_loop.simps) simp
    then show ?thesis by blast
  next
    case False
    then have ne: "fmt \<noteq> []" "hd fmt \<noteq> 0" by (cases fmt; simp)+
    let ?fmt = "drop (fst (format_decode fmt spec)) fmt" and ?spec = "snd (format_decode fmt spec)"
    have d: "decoded ?spec" by (rule format_decode_decoded [OF less.prems])
    obtain r where r: "\<forall>b buf. o_str b = buf + n \<longrightarrow> vsnprintf_step ks buf b m fmt ?fmt ?spec args = turn_of b r"
      using step_turn [OF d] by blast
    have unfold: "vsnprintf_loop ks buf b m fmt spec args =
        bindR (turn_of b r) (\<lambda>(b, m, fmt, spec, args). vsnprintf_loop ks buf b m fmt spec args)" if "o_str b = buf + n" for b buf
      using False r that by (subst vsnprintf_loop.simps) simp
    show ?thesis
    proof (cases r)
      case (Inl f)
      then have "\<forall>b buf. o_str b = buf + n \<longrightarrow> vsnprintf_loop ks buf b m fmt spec args = bindR (Stop f) (\<lambda>(t, m'). Ok (puts b t, m'))"
        by (simp add: unfold)
      then show ?thesis by blast
    next
      case (Inr x)
      obtain t m' fmt' spec' args' where x: "x = (t, m', fmt', spec', args')" by (cases x)
      define b0 where "b0 = \<lparr>o_str = n, o_end = 0, o_mem = (\<lambda>_. 0)\<rparr>"
      have st: "vsnprintf_step ks 0 b0 m fmt ?fmt ?spec args = Ok (puts b0 t, m', fmt', spec', args')"
        using r [rule_format, of b0 0] by (simp add: b0_def Inr x)
      have "fmt_steps (length fmt') spec' < fmt_steps (length fmt) spec"
        using vsnprintf_step_progress [OF st] format_decode_progress(1) [OF ne, of spec] by (simp add: fmt_steps_def)
      from less.hyps [OF this step_range [OF d st], of "n + length t" m' args']
      obtain r' where r': "\<forall>b buf. o_str b = buf + (n + length t) \<longrightarrow>
          vsnprintf_loop ks buf b m' fmt' spec' args' = bindR r' (\<lambda>(t, m'). Ok (puts b t, m'))" by blast
      have "\<forall>b buf. o_str b = buf + n \<longrightarrow> vsnprintf_loop ks buf b m fmt spec args =
          bindR (bindR r' (\<lambda>(t', m'). Ok (t @ t', m'))) (\<lambda>(t, m'). Ok (puts b t, m'))"
        using r' by (cases r') (auto simp: unfold Inr x)
      then show ?thesis by blast
    qed
  qed
qed

text \<open>A buffer that lies in the address space, of a size that is not rejected.\<close>

definition buffer_ok :: "u32 \<Rightarrow> u32 \<Rightarrow> bool" where
  "buffer_ok buf sz \<longleftrightarrow> unat sz < 2 ^ 31 \<and> unat buf + unat sz < 2 ^ 32"

lemma buffer_ok_simps:
  assumes "buffer_ok buf sz"
  shows "\<not> sint sz < 0" "\<not> buf + sz < buf" "unat (buf + sz) = unat buf + unat sz"
proof -
  from assms have a: "unat (buf + sz) = unat buf + unat sz" by (simp add: buffer_ok_def unat_add_32)
  then show "unat (buf + sz) = unat buf + unat sz" .
  then show "\<not> buf + sz < buf" by (simp add: word_less_nat_alt)
  have "int (unat sz) < int (2 ^ 31)" using assms by (simp only: buffer_ok_def of_nat_less_iff)
  then have "uint sz < 2 ^ 31" by (simp only: uint_nat of_nat_power of_nat_numeral)
  then have "sint sz = uint sz" unfolding sint_uint
    by (subst signed_take_bit_int_eq_self) (simp_all add: order_trans [OF _ uint_ge_0])
  then show "\<not> sint sz < 0" by (simp add: not_less)
qed

definition printed :: "byte list \<Rightarrow> mem \<Rightarrow> u32 \<Rightarrow> u32 \<Rightarrow> mem" where
  "printed t out buf sz =
    (let b = puts \<lparr>o_str = unat buf, o_end = unat buf + unat sz, o_mem = out\<rparr> t
     in if sz > 0 then
          if o_str b < o_end b then (o_mem b)(o_str b := 0) else (o_mem b)(o_end b - 1 := 0)
        else o_mem b)"

lemma vsnprintf_printed:
  "\<exists>r. \<forall>out buf sz. buffer_ok buf sz \<longrightarrow>
    vsnprintf ks m out buf sz fmt args = bindR r (\<lambda>(t, m'). Ok (length t, printed t out buf sz, m'))"
proof -
  have "spec_range null_spec" by (simp add: spec_range_def null_spec_def)
  from vsnprintf_loop_text [OF this, of 0 ks m fmt args]
  obtain r where r: "\<forall>b buf. o_str b = buf \<longrightarrow>
      vsnprintf_loop ks buf b m fmt null_spec args = bindR r (\<lambda>(t, m'). Ok (puts b t, m'))" by auto
  have "vsnprintf ks m out buf sz fmt args = bindR r (\<lambda>(t, m'). Ok (length t, printed t out buf sz, m'))"
    if "buffer_ok buf sz" for out buf sz
    using r [rule_format, of "\<lparr>o_str = unat buf, o_end = unat buf + unat sz, o_mem = out\<rparr>" "unat buf"]
    by (cases r) (auto simp: vsnprintf_def buffer_ok_simps [OF that] printed_def Let_def)
  then show ?thesis by blast
qed

lemma printed_outside: "a < unat buf \<or> unat buf + unat sz \<le> a \<Longrightarrow> printed t out buf sz a = out a"
  by (auto simp: printed_def Let_def puts_mem word_less_nat_alt)

lemma printed_inside:
  assumes "0 < unat sz"
  shows "bytes_at (printed t out buf sz) (unat buf) (Suc (min (length t) (unat sz - 1))) = take (unat sz - 1) t @ [0]"
proof (rule nth_equalityI)
  let ?k = "min (length t) (unat sz - 1)"
  show "length (bytes_at (printed t out buf sz) (unat buf) (Suc ?k)) = length (take (unat sz - 1) t @ [0 :: byte])"
    by (simp add: bytes_at_def)
  fix i
  assume "i < length (bytes_at (printed t out buf sz) (unat buf) (Suc ?k))"
  then have i: "i \<le> ?k" by (simp only: bytes_at_def length_map length_upt diff_zero less_Suc_eq_le)
  have s: "sz > 0" using assms by (simp add: word_less_nat_alt)
  have "printed t out buf sz (unat buf + i) = (if i < ?k then t ! i else 0)"
  proof (cases "length t < unat sz")
    case True
    then have "?k = length t" by simp
    with True i s show ?thesis by (simp only: printed_def Let_def if_True puts_str) (simp add: puts_mem)
  next
    case False
    then have "?k = unat sz - 1" by simp
    with False i s assms show ?thesis by (simp only: printed_def Let_def if_True puts_str) (auto simp: puts_mem)
  qed
  then show "bytes_at (printed t out buf sz) (unat buf) (Suc ?k) ! i = (take (unat sz - 1) t @ [0]) ! i"
    using i by (auto simp: bytes_at_def nth_append simp del: upt_Suc)
qed


lemma vsnprintf_loop_nul [simp]: "vsnprintf_loop ks buf b m [] spec args = Ok (b, m)"
  by (subst vsnprintf_loop.simps) simp

lemmas decode_defs = format_decode_def decode_directive_def decode_precision_def decode_qualifier_def
  length_modifier_def decode_conversion_def int_type_def

lemmas number_eval = number_puts copy_text_puts spec_ok_def number_text_def num_digits_def digits_rev.simps num_sign_def
  num_abs_def num_pfx_def pad_n_def pad_end_def s16_def has_def flag_defs int_arg_def

lemma vsnprintf_pid:
  "\<exists>out'. vsnprintf (\<lambda>_ _. []) (\<lambda>_. 0) (\<lambda>_. 0) 0x1000 0 (lit ''pid %d'') [42] = Ok (6, out', \<lambda>_. 0)"
  apply (simp add: vsnprintf_def word_less_nat_alt)
  apply (subst vsnprintf_loop.simps)
  apply (simp add: decode_defs vsnprintf_step_def null_spec_def TOLOWER_def)
  apply (subst vsnprintf_loop.simps)
  apply (simp add: decode_defs vsnprintf_step_def null_spec_def TOLOWER_def isdigit_codes has_def flag_defs int_arg_def)
  apply (simp add: number_eval put_def)
  done


text \<open>
  The length \<^verbatim>\<open>vscnprintf\<close> returns.  When \<^verbatim>\<open>vsnprintf\<close> returns \<open>n\<close> below $2^{32}$, \<^verbatim>\<open>vscnprintf\<close>
  returns the number of characters that are in the buffer, \<open>min n (size - 1)\<close>, for a size above
  0; for size 0 it returns the word of \<open>-1\<close>.
\<close>

theorem vscnprintf_length:
  assumes "vsnprintf ks m out buf sz fmt args = Ok (n, out', m')" "n < 2 ^ 32"
  shows "vscnprintf ks m out buf sz fmt args =
    Ok (if sz = 0 then - 1 else word_of_nat (min n (unat sz - 1)), out', m')"
proof -
  have n: "unat (word_of_nat n :: u32) = n" using assms(2) by (rule unat_word_of_nat_32)
  have "sz - 1 = word_of_nat (unat sz - 1)" if "sz \<noteq> 0"
    using that by (simp add: of_nat_diff unat_gt_0 Suc_le_eq)
  then show ?thesis
    using assms(1) n by (auto simp: vscnprintf_def word_le_nat_alt min_def)
qed

theorem vscnprintf_length_witness:
  "\<exists>out'. vsnprintf (\<lambda>_ _. []) (\<lambda>_. 0) (\<lambda>_. 0) 0x1000 0 (lit ''pid %d'') [42] = Ok (6, out', \<lambda>_. 0) \<and>
    vscnprintf (\<lambda>_ _. []) (\<lambda>_. 0) (\<lambda>_. 0) 0x1000 0 (lit ''pid %d'') [42] = Ok (- 1, out', \<lambda>_. 0)"
proof -
  obtain o0 where o: "vsnprintf (\<lambda>_ _. []) (\<lambda>_. 0) (\<lambda>_. 0) 0x1000 0 (lit ''pid %d'') [42] = Ok (6, o0, \<lambda>_. 0)"
    using vsnprintf_pid by blast
  from vscnprintf_length [OF o] have
    "vscnprintf (\<lambda>_ _. []) (\<lambda>_. 0) (\<lambda>_. 0) 0x1000 0 (lit ''pid %d'') [42] = Ok (- 1, o0, \<lambda>_. 0)" by simp
  with o show ?thesis by blast
qed

text \<open>
  C28.  Decoding a format ends.  While there is a character left, \<^verbatim>\<open>format_decode\<close> reads at most
  what is left, and it reads nothing only when it resumes after a width or a precision taken from
  the arguments; the specification it leaves then is not one to resume, so the next call reads.
\<close>

theorem format_decode_consumes:
  assumes "fmt \<noteq> []" "hd fmt \<noteq> 0" "format_decode fmt spec = (n, spec')"
  shows "n \<le> length fmt \<and> (n = 0 \<longrightarrow>
    sp_type spec \<in> {FORMAT_TYPE_WIDTH, FORMAT_TYPE_PRECISION} \<and>
    sp_type spec' \<notin> {FORMAT_TYPE_WIDTH, FORMAT_TYPE_PRECISION})"
proof -
  have "n \<le> length fmt" using assms(3) by (auto simp: format_decode_def split_def Let_def)
  moreover have "fmt_steps (length fmt - n) spec' < fmt_steps (length fmt) spec"
    using format_decode_progress(1) [OF assms(1,2), of spec] assms(3) by simp
  ultimately show ?thesis by (auto simp: fmt_steps_def of_bool_def split: if_splits)
qed

theorem format_decode_consumes_witness:
  "\<exists>n spec'. format_decode (lit ''d'') (null_spec\<lparr>sp_type := FORMAT_TYPE_WIDTH\<rparr>) = (n, spec') \<and> n \<le> 1 \<and>
    (n = 0 \<longrightarrow> sp_type spec' \<notin> {FORMAT_TYPE_WIDTH, FORMAT_TYPE_PRECISION})"
proof -
  obtain n spec' where "format_decode (lit ''d'') (null_spec\<lparr>sp_type := FORMAT_TYPE_WIDTH\<rparr>) = (n, spec')" by fastforce
  with format_decode_consumes [OF _ _ this] show ?thesis by simp
qed

end
