(* ===== verification/Scanf.thy ===== *)
theory Scanf
  imports Printf_Format
begin

text \<open>
  Formatted input (\<^verbatim>\<open>src/lib/vsprintf.c\<close>, \<^verbatim>\<open>vsscanf\<close> and \<^verbatim>\<open>sscanf\<close>).  The input is the list of
  its characters and \<^verbatim>\<open>str\<close> an index into it, because \<^verbatim>\<open>%n\<close> stores the distance from the start; the
  format is the list of what is left of it.  The arguments are addresses, and what is read is stored
  in the memory \<open>m\<close>.  One turn of the loop yields how the loop goes on.
\<close>

subsection \<open>Stores\<close>

definition store8 :: "mem \<Rightarrow> nat \<Rightarrow> byte \<Rightarrow> mem" where
  "store8 m a v = m(a := v)"

definition store16 :: "mem \<Rightarrow> nat \<Rightarrow> u16 \<Rightarrow> mem" where
  "store16 m a v = m(a := ucast v, a + 1 := ucast (drop_bit 8 v))"

definition store64 :: "mem \<Rightarrow> nat \<Rightarrow> u64 \<Rightarrow> mem" where
  "store64 m a v = store32 (store32 m a (ucast v)) (a + 4) (ucast (drop_bit 32 v))"

subsection \<open>One conversion\<close>

text \<open>\<^verbatim>\<open>while (--field_width > 0 && *str)\<close> and \<^verbatim>\<open>while (*str && !isspace(*str) && field_width--)\<close>\<close>

fun scan_chars :: "mem \<Rightarrow> nat \<Rightarrow> byte list \<Rightarrow> int \<Rightarrow> mem \<times> nat" where
  "scan_chars m s [] fw = (m, 0)"
| "scan_chars m s (c # str) fw =
    (let fw = s16 (fw - 1)
     in if fw > 0 \<and> c \<noteq> 0 then apsnd Suc (scan_chars (m(s := c)) (s + 1) str fw) else (m, 0))"

fun scan_word :: "mem \<Rightarrow> nat \<Rightarrow> byte list \<Rightarrow> int \<Rightarrow> mem \<times> nat" where
  "scan_word m s [] fw = (m(s := 0), 0)"
| "scan_word m s (c # str) fw =
    (if c \<noteq> 0 \<and> \<not> isspace c \<and> fw \<noteq> 0 then apsnd Suc (scan_word (m(s := c)) (s + 1) str (s16 (fw - 1)))
     else (m(s := 0), 0))"

text \<open>The store of an integer conversion: the memory and what follows the number.\<close>

definition scan_int :: "mem \<Rightarrow> nat \<Rightarrow> byte \<Rightarrow> bool \<Rightarrow> u32 \<Rightarrow> byte list \<Rightarrow> mem \<times> byte list" where
  "scan_int m p qualifier is_sign base str =
    (let (l, next_l) = (if is_sign then simple_strtol str base else simple_strtoul str base);
         (ll, next_ll) = (if is_sign then simple_strtoll str base else simple_strtoull str base);
         (ul, next_ul) = simple_strtoul str base
     in if qualifier = chr CHR ''H'' then (store8 m p (ucast l), next_l)
        else if qualifier = chr CHR ''h'' then (store16 m p (ucast l), next_l)
        else if qualifier = chr CHR ''l'' then (store32 m p l, next_l)
        else if qualifier = chr CHR ''L'' then (store64 m p ll, next_ll)
        else if qualifier = chr CHR ''Z'' \<or> qualifier = chr CHR ''z'' then (store32 m p ul, next_ul)
        else (store32 m p l, next_l))"

definition scan_modifier :: "byte list \<Rightarrow> byte \<times> byte list" where
  "scan_modifier fmt =
    (let c = ch fmt 0
     in if c = chr CHR ''h'' \<or> TOLOWER c = chr CHR ''l'' \<or> TOLOWER c = chr CHR ''z'' then
          let fmt = tl fmt
          in if c = ch fmt 0 \<and> c = chr CHR ''h'' then (chr CHR ''H'', tl fmt)
             else if c = ch fmt 0 \<and> c = chr CHR ''l'' then (chr CHR ''L'', tl fmt)
             else (c, fmt)
        else (0xff, fmt))"

text \<open>The number test: whether an integer of this base can start with \<open>digit\<close>.\<close>

definition scan_digit :: "u32 \<Rightarrow> byte \<Rightarrow> bool" where
  "scan_digit base digit \<longleftrightarrow> \<not> (digit = 0 \<or>
    base = 16 \<and> \<not> isxdigit digit \<or>
    base = 10 \<and> \<not> isdigit digit \<or>
    base = 8 \<and> (\<not> isdigit digit \<or> digit > chr CHR ''7'') \<or>
    base = 0 \<and> \<not> isdigit digit)"

record scan_state =
  sc_str :: nat
  sc_fmt :: "byte list"
  sc_args :: "u32 list"
  sc_mem :: mem
  sc_num :: nat

datatype scan_turn = Scan_continue scan_state | Scan_break scan_state | Scan_return scan_state

definition skip_index :: "byte list \<Rightarrow> nat \<Rightarrow> nat" where
  "skip_index buf i = i + length (takeWhile isspace (drop i buf))"

definition conversion_base :: "byte \<Rightarrow> (u32 \<times> bool) option" where
  "conversion_base c =
    (if c = chr CHR ''o'' then Some (8, False)
     else if c = chr CHR ''x'' \<or> c = chr CHR ''X'' then Some (16, False)
     else if c = chr CHR ''i'' then Some (0, True)
     else if c = chr CHR ''d'' then Some (10, True)
     else if c = chr CHR ''u'' then Some (10, False)
     else None)"

text \<open>The integer conversions, after the \<^verbatim>\<open>switch\<close> on the conversion character.\<close>

definition scan_number :: "byte list \<Rightarrow> byte \<Rightarrow> u32 \<Rightarrow> bool \<Rightarrow> scan_state \<Rightarrow> scan_turn run" where
  "scan_number buf qualifier base is_sign s =
    (let i = skip_index buf (sc_str s);
         digit = (if is_sign \<and> ch buf i = chr CHR ''-'' then ch buf (i + 1) else ch buf i)
     in if \<not> scan_digit base digit then Ok (Scan_break (s\<lparr>sc_str := i\<rparr>))
        else bindR (va_word (sc_args s)) (\<lambda>(p, args).
          let (m, rest) = scan_int (sc_mem s) (unat p) qualifier is_sign base (drop i buf)
          in Ok (Scan_continue (s\<lparr>sc_str := length buf - length rest, sc_args := args, sc_mem := m,
                                  sc_num := sc_num s + 1\<rparr>))))"

definition scan_conversion :: "byte list \<Rightarrow> int \<Rightarrow> byte \<Rightarrow> byte \<Rightarrow> scan_state \<Rightarrow> scan_turn run" where
  "scan_conversion buf fw qualifier c s =
    (let i = sc_str s
     in if c = chr CHR ''c'' then
          bindR (va_word (sc_args s)) (\<lambda>(p, args).
            let fw = (if fw = - 1 then 1 else fw);
                (m, k) = scan_chars ((sc_mem s)(unat p := ch buf i)) (unat p + 1) (drop (i + 1) buf) fw
            in Ok (Scan_continue (s\<lparr>sc_str := i + 1 + k, sc_args := args, sc_mem := m, sc_num := sc_num s + 1\<rparr>)))
        else if c = chr CHR ''s'' then
          bindR (va_word (sc_args s)) (\<lambda>(p, args).
            let fw = (if fw = - 1 then 32767 else fw);
                i = skip_index buf i;
                (m, k) = scan_word (sc_mem s) (unat p) (drop i buf) fw
            in Ok (Scan_continue (s\<lparr>sc_str := i + k, sc_args := args, sc_mem := m, sc_num := sc_num s + 1\<rparr>)))
        else if c = chr CHR ''n'' then
          bindR (va_word (sc_args s)) (\<lambda>(p, args).
            Ok (Scan_continue (s\<lparr>sc_args := args, sc_mem := store32 (sc_mem s) (unat p) (word_of_nat i)\<rparr>)))
        else if c = chr CHR ''%'' then
          if ch buf i \<noteq> chr CHR ''%'' then Ok (Scan_return (s\<lparr>sc_str := i + 1\<rparr>)) else Ok (Scan_continue (s\<lparr>sc_str := i + 1\<rparr>))
        else case conversion_base c of
               None \<Rightarrow> Ok (Scan_return s)
             | Some (base, is_sign) \<Rightarrow> scan_number buf qualifier base is_sign s)"

definition scan_directive :: "byte list \<Rightarrow> scan_state \<Rightarrow> scan_turn run" where
  "scan_directive buf s =
    (let fmt = sc_fmt s
     in if ch fmt 0 = chr CHR ''*'' then
          Ok (Scan_continue (s\<lparr>sc_fmt := dropWhile (\<lambda>c. \<not> isspace c \<and> c \<noteq> chr CHR ''%'' \<and> c \<noteq> 0) fmt,
            sc_str := sc_str s + length (takeWhile (\<lambda>c. \<not> isspace c \<and> c \<noteq> 0) (drop (sc_str s) buf))\<rparr>))
        else
          let (w, fmt) = (if isdigit (ch fmt 0) then skip_atoi fmt else (- 1, fmt));
              (q, fmt) = scan_modifier fmt
          in if ch fmt 0 = 0 \<or> ch buf (sc_str s) = 0 then Ok (Scan_break (s\<lparr>sc_fmt := fmt\<rparr>))
             else scan_conversion buf (s16 (sint w)) q (ch fmt 0) (s\<lparr>sc_fmt := tl fmt\<rparr>))"

definition vsscanf_turn :: "byte list \<Rightarrow> scan_state \<Rightarrow> scan_turn run" where
  "vsscanf_turn buf s =
    (let s = (if isspace (ch (sc_fmt s) 0)
              then s\<lparr>sc_fmt := dropWhile isspace (tl (sc_fmt s)), sc_str := skip_index buf (sc_str s)\<rparr> else s);
         c = ch (sc_fmt s) 0
     in if c \<noteq> chr CHR ''%'' \<and> c \<noteq> 0 then
          let s' = s\<lparr>sc_fmt := tl (sc_fmt s), sc_str := sc_str s + 1\<rparr>
          in if c \<noteq> ch buf (sc_str s) then Ok (Scan_break s') else Ok (Scan_continue s')
        else if c = 0 then Ok (Scan_break s)
        else scan_directive buf (s\<lparr>sc_fmt := tl (sc_fmt s)\<rparr>))"

subsection \<open>The loop\<close>

lemma dropWhile_length_less: "P (ch s 0) \<Longrightarrow> ch s 0 \<noteq> 0 \<Longrightarrow> length (dropWhile P s) < length s"
  using length_dropWhile_le [of P "tl s"] by (cases s) (simp_all add: less_Suc_eq_le)

lemma scan_modifier_length: "length (snd (scan_modifier fmt)) \<le> length fmt"
  by (simp add: scan_modifier_def Let_def)

lemma scan_number_fmt:
  "scan_number buf q base is_sign s = Ok (Scan_continue s') \<Longrightarrow> sc_fmt s' = sc_fmt s"
  by (auto simp: scan_number_def Let_def bind_va_word split_def split: if_splits)

lemma scan_conversion_fmt:
  assumes "scan_conversion buf fw q c s = Ok (Scan_continue s')"
  shows "sc_fmt s' = sc_fmt s"
  using assms scan_number_fmt unfolding scan_conversion_def Let_def
  by (auto simp: bind_va_word split_def split: if_splits option.splits)

lemma scan_directive_fmt:
  assumes "scan_directive buf s = Ok (Scan_continue s')"
  shows "length (sc_fmt s') \<le> length (sc_fmt s)"
proof (cases "ch (sc_fmt s) 0 = chr CHR ''*''")
  case True
  then show ?thesis using assms by (auto simp: scan_directive_def Let_def length_dropWhile_le)
next
  case False
  define f1 where "f1 = snd (if isdigit (ch (sc_fmt s) 0) then skip_atoi (sc_fmt s) else (- 1, sc_fmt s))"
  define f2 where "f2 = snd (scan_modifier f1)"
  have "length f1 \<le> length (sc_fmt s)" by (simp add: f1_def skip_atoi_length)
  moreover have "length f2 \<le> length f1" by (simp add: f2_def scan_modifier_length)
  moreover from assms False obtain fw q where
    "scan_conversion buf fw q (ch f2 0) (s\<lparr>sc_fmt := tl f2\<rparr>) = Ok (Scan_continue s')"
    unfolding scan_directive_def Let_def split_def f1_def [symmetric] f2_def [symmetric] by (auto split: if_splits)
  then have "sc_fmt s' = tl f2" using scan_conversion_fmt by fastforce
  ultimately show ?thesis by simp
qed

lemma vsscanf_turn_fmt:
  assumes "vsscanf_turn buf s = Ok (Scan_continue s')" "ch (sc_fmt s) 0 \<noteq> 0"
  shows "length (sc_fmt s') < length (sc_fmt s)"
proof -
  define s1 where "s1 = (if isspace (ch (sc_fmt s) 0)
    then s\<lparr>sc_fmt := dropWhile isspace (tl (sc_fmt s)), sc_str := skip_index buf (sc_str s)\<rparr> else s)"
  have 1: "length (sc_fmt s1) \<le> length (sc_fmt s)"
    using length_dropWhile_le [of isspace "tl (sc_fmt s)"] by (auto simp: s1_def)
  have ne: "ch (sc_fmt s1) 0 \<noteq> 0"
    using assms(1) unfolding vsscanf_turn_def Let_def s1_def [symmetric] by (auto split: if_splits)
  then have "length (tl (sc_fmt s1)) < length (sc_fmt s1)" by (cases "sc_fmt s1") auto
  moreover have "length (sc_fmt s') \<le> length (tl (sc_fmt s1))"
    using assms(1) scan_directive_fmt [of buf "s1\<lparr>sc_fmt := tl (sc_fmt s1)\<rparr>" s']
    unfolding vsscanf_turn_def Let_def s1_def [symmetric] by (auto split: if_splits)
  ultimately show ?thesis using 1 by simp
qed

function vsscanf_loop :: "byte list \<Rightarrow> scan_state \<Rightarrow> scan_turn run" where
  "vsscanf_loop buf s =
    (if ch (sc_fmt s) 0 \<noteq> 0 \<and> ch buf (sc_str s) \<noteq> 0 then
       bindR (vsscanf_turn buf s) (\<lambda>t. case t of Scan_continue s \<Rightarrow> vsscanf_loop buf s | _ \<Rightarrow> Ok t)
     else Ok (Scan_break s))"
  by pat_completeness auto

termination vsscanf_loop
  by (relation "measure (\<lambda>(buf, s). length (sc_fmt s))") (auto intro: vsscanf_turn_fmt)

declare vsscanf_loop.simps [simp del]

definition scan_finish :: "scan_turn \<Rightarrow> (nat \<times> mem) run" where
  "scan_finish t =
    (case t of
       Scan_return s \<Rightarrow> Ok (sc_num s, sc_mem s)
     | Scan_continue s \<Rightarrow> Ok (sc_num s, sc_mem s)
     | Scan_break s \<Rightarrow>
         if ch (sc_fmt s) 0 = chr CHR ''%'' \<and> ch (sc_fmt s) 1 = chr CHR ''n'' then
           bindR (va_word (sc_args s)) (\<lambda>(p, _). Ok (sc_num s, store32 (sc_mem s) (unat p) (word_of_nat (sc_str s))))
         else Ok (sc_num s, sc_mem s))"

definition vsscanf :: "mem \<Rightarrow> byte list \<Rightarrow> byte list \<Rightarrow> u32 list \<Rightarrow> (nat \<times> mem) run" where
  "vsscanf m buf fmt args =
    bindR (vsscanf_loop buf \<lparr>sc_str = 0, sc_fmt = fmt, sc_args = args, sc_mem = m, sc_num = 0\<rparr>) scan_finish"

definition sscanf :: "mem \<Rightarrow> byte list \<Rightarrow> byte list \<Rightarrow> u32 list \<Rightarrow> (nat \<times> mem) run" where
  "sscanf m buf fmt args = vsscanf m buf fmt args"

subsection \<open>What a turn reads\<close>

lemma ch_drop: "ch buf i = ch (drop i buf) 0" "ch buf (Suc i) = ch (drop i buf) 1"
  by (auto simp: ch_def)

lemma isspace_32 [simp]: "isspace 32"
  by (simp add: isspace_codes)

lemma isxdigit_not_space: "isxdigit c \<Longrightarrow> \<not> isspace c \<and> c \<noteq> 0"
  by (auto simp: isxdigit_codes isspace_codes)

lemma skip_index_stay: "drop i buf = r \<Longrightarrow> r = [] \<or> \<not> isspace (hd r) \<Longrightarrow> skip_index buf i = i"
  by (cases r) (auto simp: skip_index_def)

lemma strtoull_hex:
  assumes "\<forall>c\<in>set hs. isxdigit c" "hs \<noteq> []" "r = [] \<or> \<not> isalnum (hd r)"
  shows "simple_strtoull (hs @ r) 16 = (word_of_nat (num_of 16 hs), r)"
proof -
  have d: "\<forall>c\<in>set hs. is_digit 16 c" using assms(1) by (simp add: is_digit_def digit_of_isxdigit)
  have r: "r = [] \<or> \<not> is_digit 16 (hd r)" "TOLOWER (ch r 0) \<noteq> 0x78"
    using assms(3) isalnum_letters by (auto simp: is_digit_def digit_of_isxdigit ch_def hd_conv_nth TOLOWER_def)
  have x: "TOLOWER (ch (hs @ r) 1) \<noteq> 0x78"
  proof (cases "tl hs")
    case Nil
    with assms(2) have "ch (hs @ r) 1 = ch r 0" by (cases hs) auto
    then show ?thesis using r(2) by simp
  next
    case (Cons c t)
    with assms(2) have "ch (hs @ r) 1 = c" "c \<in> set hs" by (cases hs; simp)+
    then show ?thesis using assms(1) xdigit_not_x by auto
  qed
  have "simple_strtoull (hs @ r) 16 = strtoull_loop 16 (hs @ r) (word_of_nat 0)"
    using x by (simp add: simple_strtoull_def)
  also have "\<dots> = (word_of_nat (num_of 16 hs), r)"
    using strtoull_loop_result [of 16 "hs @ r" 0] takeWhile_append_stop [OF d r(1)] dropWhile_append_stop [OF d r(1)]
    by (simp add: num_of_def)
  finally show ?thesis .
qed

lemma drop_append_index: "drop i buf = u @ r \<Longrightarrow> drop (i + length u) buf = r"
  using drop_drop [of "length u" i buf] by (simp add: add.commute)

lemma index_of_rest:
  assumes "drop i buf = u @ r" "u \<noteq> []"
  shows "length buf - length r = i + length u"
proof -
  have "length buf - i = length u + length r" using arg_cong [OF assms(1), of length] by simp
  moreover have "0 < length u" using assms(2) by simp
  ultimately show ?thesis by linarith
qed

lemma turn_literal:
  assumes "sc_fmt s = c # f" "drop (sc_str s) buf = c # r" "\<not> isspace c" "c \<noteq> chr CHR ''%''" "c \<noteq> 0"
  shows "vsscanf_turn buf s = Ok (Scan_continue (s\<lparr>sc_str := sc_str s + 1, sc_fmt := f\<rparr>))"
  using assms ch_drop(1) [of buf "sc_str s"] by (simp add: vsscanf_turn_def Let_def)

lemma turn_space:
  assumes "sc_fmt s = chr CHR '' '' # f" "\<not> isspace (ch f 0)"
  shows "vsscanf_turn buf s = vsscanf_turn buf (s\<lparr>sc_fmt := f, sc_str := skip_index buf (sc_str s)\<rparr>)"
proof -
  have "dropWhile isspace f = f" using assms(2) by (cases f) simp_all
  with assms show ?thesis by (simp add: vsscanf_turn_def Let_def)
qed

lemmas scan_defs = vsscanf_turn_def scan_directive_def scan_conversion_def conversion_base_def scan_number_def
  scan_modifier_def scan_digit_def scan_int_def TOLOWER_def isspace_codes

lemma turn_lx:
  assumes "sc_fmt s = lit ''%lx'' @ f" "drop (sc_str s) buf = hs @ r" "sc_args s = p # args"
    and hs: "\<forall>c\<in>set hs. isxdigit c" "hs \<noteq> []" "r = [] \<or> \<not> isalnum (hd r)"
  shows "vsscanf_turn buf s = Ok (Scan_continue (s\<lparr>sc_str := sc_str s + length hs, sc_fmt := f, sc_args := args,
    sc_mem := store32 (sc_mem s) (unat p) (word_of_nat (num_of 16 hs)), sc_num := sc_num s + 1\<rparr>))"
proof -
  have h: "isxdigit (hd hs)" "hd hs \<noteq> 0" "\<not> isspace (hd hs)"
    using hs isxdigit_not_space by (cases hs; auto)+
  have c: "ch buf (sc_str s) = hd hs" using ch_drop(1) [of buf "sc_str s"] assms(2) hs(2) by (cases hs) auto
  have i: "skip_index buf (sc_str s) = sc_str s"
    using skip_index_stay [OF assms(2)] hs(2) h by (cases hs) auto
  have "simple_strtoul (hs @ r) 16 = (word_of_nat (num_of 16 hs), r)"
    by (simp add: simple_strtoul_def strtoull_hex hs ucast_word_of_nat)
  then show ?thesis
    using assms(1-3) c i h index_of_rest [OF assms(2) hs(2)]
    by (simp add: scan_defs isdigit_codes Let_def split_def)
qed

lemma turn_llx:
  assumes "sc_fmt s = lit ''%llx'' @ f" "drop (sc_str s) buf = hs @ r" "sc_args s = p # args"
    and hs: "\<forall>c\<in>set hs. isxdigit c" "hs \<noteq> []" "r = [] \<or> \<not> isalnum (hd r)"
  shows "vsscanf_turn buf s = Ok (Scan_continue (s\<lparr>sc_str := sc_str s + length hs, sc_fmt := f, sc_args := args,
    sc_mem := store64 (sc_mem s) (unat p) (word_of_nat (num_of 16 hs)), sc_num := sc_num s + 1\<rparr>))"
proof -
  have h: "isxdigit (hd hs)" "hd hs \<noteq> 0" "\<not> isspace (hd hs)"
    using hs isxdigit_not_space by (cases hs; auto)+
  have c: "ch buf (sc_str s) = hd hs" using ch_drop(1) [of buf "sc_str s"] assms(2) hs(2) by (cases hs) auto
  have i: "skip_index buf (sc_str s) = sc_str s"
    using skip_index_stay [OF assms(2)] hs(2) h by (cases hs) auto
  show ?thesis
    using assms(1-3) c i h index_of_rest [OF assms(2) hs(2)] strtoull_hex [OF hs]
    by (simp add: scan_defs isdigit_codes Let_def split_def)
qed

lemma turn_4s:
  assumes "sc_fmt s = lit ''%4s'' @ f" "drop (sc_str s) buf = [c0, c1, c2, c3] @ r" "sc_args s = p # args"
    and cs: "\<forall>c\<in>{c0, c1, c2, c3}. \<not> isspace c \<and> c \<noteq> 0"
  shows "vsscanf_turn buf s = Ok (Scan_continue (s\<lparr>sc_str := sc_str s + 4, sc_fmt := f, sc_args := args,
    sc_mem := (sc_mem s)(unat p := c0, unat p + 1 := c1, unat p + 2 := c2, unat p + 3 := c3, unat p + 4 := 0),
    sc_num := sc_num s + 1\<rparr>))"
proof -
  have c: "ch buf (sc_str s) = c0" using ch_drop(1) [of buf "sc_str s"] assms(2) by simp
  have i: "skip_index buf (sc_str s) = sc_str s" using skip_index_stay [OF assms(2)] cs by simp
  have "scan_word (sc_mem s) (unat p) ([c0, c1, c2, c3] @ r) 4 =
      ((sc_mem s)(unat p := c0, unat p + 1 := c1, unat p + 2 := c2, unat p + 3 := c3, unat p + 4 := 0), 4)"
    using cs by (cases r) (simp_all add: s16_def eval_nat_numeral)
  then show ?thesis
    using assms(1-3) c i cs
    by (simp add: vsscanf_turn_def scan_directive_def scan_conversion_def scan_modifier_def TOLOWER_def isspace_codes
        isdigit_codes Let_def split_def skip_atoi_def s16_def)
qed

lemma turn_skip:
  assumes "sc_fmt s = lit ''%*'' @ g @ f" "\<forall>c\<in>set g. \<not> isspace c \<and> c \<noteq> chr CHR ''%'' \<and> c \<noteq> 0"
    "isspace (ch f 0) \<or> ch f 0 = chr CHR ''%''"
    and "drop (sc_str s) buf = u @ r" "\<forall>c\<in>set u. \<not> isspace c \<and> c \<noteq> 0" "isspace (ch r 0)"
  shows "vsscanf_turn buf s = Ok (Scan_continue (s\<lparr>sc_str := sc_str s + length u, sc_fmt := f\<rparr>))"
proof -
  have "dropWhile (\<lambda>c. \<not> isspace c \<and> c \<noteq> chr CHR ''%'' \<and> c \<noteq> 0) (g @ f) = f"
    using assms(2,3) by (intro dropWhile_append_stop) (cases f; auto)+
  moreover have "takeWhile (\<lambda>c. \<not> isspace c \<and> c \<noteq> 0) (u @ r) = u"
    using assms(5,6) by (intro takeWhile_append_stop) (cases r; auto)+
  ultimately show ?thesis
    using assms(1,4) by (simp add: vsscanf_turn_def scan_directive_def Let_def isspace_codes)
qed

lemma turn_n:
  assumes "sc_fmt s = lit ''%n'' @ f" "ch buf (sc_str s) \<noteq> 0" "sc_args s = p # args"
  shows "vsscanf_turn buf s = Ok (Scan_continue (s\<lparr>sc_fmt := f, sc_args := args,
    sc_mem := store32 (sc_mem s) (unat p) (word_of_nat (sc_str s))\<rparr>))"
  using assms
  by (simp add: vsscanf_turn_def scan_directive_def scan_conversion_def scan_modifier_def TOLOWER_def isspace_codes
      isdigit_codes Let_def)

lemma vsscanf_loop_step:
  assumes "ch (sc_fmt s) 0 \<noteq> 0" "ch buf (sc_str s) \<noteq> 0" "vsscanf_turn buf s = Ok (Scan_continue s')"
  shows "vsscanf_loop buf s = vsscanf_loop buf s'"
  using assms by (subst vsscanf_loop.simps) simp

end
