(* ===== verification/Proc_Maps.thy ===== *)
theory Proc_Maps
  imports Scanf
begin

text \<open>
  The memory map of a process (\<^verbatim>\<open>src/core/loader/proc.c\<close>): the lines of \<^verbatim>\<open>/proc/<pid>/maps\<close> are
  read one after the other and parsed with \<^verbatim>\<open>sscanf\<close>.  The text is the list of its characters, and a
  pointer into it an index; behind the end a NUL is read.  The variables \<^verbatim>\<open>sscanf\<close> stores to are the
  addresses 0 (\<^verbatim>\<open>entry.start\<close>), 4 (\<^verbatim>\<open>entry.end\<close>), 8 (\<^verbatim>\<open>str_prot\<close>), 16 (\<^verbatim>\<open>entry.offset\<close>) and 24 (\<^verbatim>\<open>l\<close>)
  of a stack frame whose initial contents \<open>frame\<close> are arbitrary, as those of an uninitialised frame.
  \<^verbatim>\<open>open\<close>, \<^verbatim>\<open>read\<close> and \<^verbatim>\<open>close\<close> are parameters.
\<close>

subsection \<open>The parser\<close>

record proc_maps_entry_t =
  pm_valid :: bool
  pm_start :: u32
  pm_end :: u32
  pm_prot :: u32
  pm_offset :: u64
  pm_fn :: "nat option"
  pm_fn_len :: nat

record proc_mem_handler_t =
  map_data :: "byte list"
  map_end :: nat
  curr_ptr :: nat

definition PROT_READ :: u32 where "PROT_READ = 0x1"
definition PROT_WRITE :: u32 where "PROT_WRITE = 0x2"
definition PROT_EXEC :: u32 where "PROT_EXEC = 0x4"

definition init_map_handler :: "byte list \<Rightarrow> nat \<Rightarrow> proc_mem_handler_t run" where
  "init_map_handler data sz =
    bindR (assert_that (sz > 0)) (\<lambda>_. Ok \<lparr>map_data = data, map_end = sz, curr_ptr = 0\<rparr>)"

definition reset_map_handler :: "proc_mem_handler_t \<Rightarrow> proc_mem_handler_t" where
  "reset_map_handler h = h\<lparr>curr_ptr := 0\<rparr>"

definition next_ptr :: "nat \<Rightarrow> nat \<Rightarrow> nat run" where
  "next_ptr ptr lim = bindR (assert_that (ptr < lim)) (\<lambda>_. Ok (ptr + 1))"

function skip_spaces_and_eol :: "byte list \<Rightarrow> nat \<Rightarrow> nat \<Rightarrow> nat run" where
  "skip_spaces_and_eol data ptr lim =
    (if ch data ptr = 9 \<or> ch data ptr = chr CHR '' '' \<or> ch data ptr = 10
     then bindR (next_ptr ptr lim) (\<lambda>ptr. skip_spaces_and_eol data ptr lim)
     else Ok ptr)"
  by pat_completeness auto

termination skip_spaces_and_eol
  by (relation "measure (\<lambda>(data, ptr, lim). lim - ptr)") (auto simp: next_ptr_def run_simps)

function get_eol :: "byte list \<Rightarrow> nat \<Rightarrow> nat \<Rightarrow> nat run" where
  "get_eol data ptr lim =
    (if ch data ptr \<noteq> 10 \<and> ch data ptr \<noteq> 0
     then bindR (next_ptr ptr lim) (\<lambda>ptr. get_eol data ptr lim)
     else Ok ptr)"
  by pat_completeness auto

termination get_eol
  by (relation "measure (\<lambda>(data, ptr, lim). lim - ptr)") (auto simp: next_ptr_def run_simps)

declare skip_spaces_and_eol.simps [simp del] get_eol.simps [simp del]

definition load64 :: "mem \<Rightarrow> nat \<Rightarrow> u64" where
  "load64 m a = ucast (load32 m a) OR push_bit 32 (ucast (load32 m (a + 4)))"

definition maps_format :: "byte list" where
  "maps_format = lit ''%lx-%lx %4s %llx %*2x:%*2x %*d %n''"

definition parse_prot :: "mem \<Rightarrow> u32" where
  "parse_prot m =
    (if m 8 = chr CHR ''r'' then PROT_READ else 0) OR
    (if m 9 = chr CHR ''w'' then PROT_WRITE else 0) OR
    (if m 10 = chr CHR ''x'' then PROT_EXEC else 0)"

definition parse_fn :: "byte list \<Rightarrow> nat \<Rightarrow> nat \<Rightarrow> nat \<Rightarrow> (nat option \<times> nat) run" where
  "parse_fn data ptr len fn_ptr =
    (let fn_ptr = fn_ptr + length (takeWhile (\<lambda>c. c = chr CHR '' '' \<or> c = 9) (drop fn_ptr data));
         fn_ptr = (if ch data fn_ptr \<noteq> chr CHR ''/'' \<and> ch data fn_ptr \<noteq> chr CHR ''['' then fn_ptr - 1 else fn_ptr)
     in if ch data fn_ptr = 10 then Ok (None, 0)
        else bindR (assert_that (ptr + len > fn_ptr)) (\<lambda>_.
          let fn_len = ptr + len - fn_ptr
          in if list_ex (\<lambda>i. ch data (fn_ptr + i) = 92) [0..<fn_len] then Stop Fatal
             else Ok (Some fn_ptr, fn_len)))"

definition parse_line :: "mem \<Rightarrow> byte list \<Rightarrow> nat \<Rightarrow> nat \<Rightarrow> proc_maps_entry_t run" where
  "parse_line frame data ptr len =
    bindR (sscanf frame (drop ptr data) maps_format [0, 4, 8, 16, 24]) (\<lambda>(err, m).
    bindR (assert_that (err = 4)) (\<lambda>_.
    bindR (parse_fn data ptr len (ptr + unat (load32 m 24))) (\<lambda>(fn, fn_len).
      Ok \<lparr>pm_valid = True, pm_start = load32 m 0, pm_end = load32 m 4, pm_prot = parse_prot m,
          pm_offset = load64 m 16, pm_fn = fn, pm_fn_len = fn_len\<rparr>)))"

definition null_entry :: proc_maps_entry_t where
  "null_entry = \<lparr>pm_valid = False, pm_start = 0, pm_end = 0, pm_prot = 0, pm_offset = 0, pm_fn = None, pm_fn_len = 0\<rparr>"

definition read_maps_line :: "mem \<Rightarrow> proc_mem_handler_t \<Rightarrow> (proc_maps_entry_t \<times> proc_mem_handler_t) run" where
  "read_maps_line frame h =
    bindR (assert_that (map_end h > 0)) (\<lambda>_.
    if curr_ptr h \<ge> map_end h then Ok (null_entry, h)
    else
      bindR (skip_spaces_and_eol (map_data h) (curr_ptr h) (map_end h)) (\<lambda>ptr.
      bindR (get_eol (map_data h) ptr (map_end h)) (\<lambda>eol.
      bindR (parse_line frame (map_data h) ptr (eol - ptr)) (\<lambda>entry.
        Ok (entry, h\<lparr>curr_ptr := eol + 1\<rparr>)))))"

subsection \<open>Searching\<close>

lemma skip_spaces_and_eol_le: "skip_spaces_and_eol data ptr lim = Ok p \<Longrightarrow> ptr \<le> p"
  by (induction data ptr lim rule: skip_spaces_and_eol.induct)
    (subst (asm) (2) skip_spaces_and_eol.simps, force simp: next_ptr_def run_simps split: if_splits)

lemma get_eol_le: "get_eol data ptr lim = Ok p \<Longrightarrow> ptr \<le> p"
  by (induction data ptr lim rule: get_eol.induct)
    (subst (asm) (2) get_eol.simps, force simp: next_ptr_def run_simps split: if_splits)

lemma read_maps_line_progress:
  assumes "read_maps_line frame h = Ok (entry, h')" "pm_valid entry"
  shows "map_end h' = map_end h" "map_data h' = map_data h" "curr_ptr h < map_end h" "curr_ptr h < curr_ptr h'"
proof -
  have "\<not> map_end h \<le> curr_ptr h" using assms by (auto simp: read_maps_line_def null_entry_def run_simps)
  with assms obtain ptr eol where "skip_spaces_and_eol (map_data h) (curr_ptr h) (map_end h) = Ok ptr"
    "get_eol (map_data h) ptr (map_end h) = Ok eol" "h' = h\<lparr>curr_ptr := eol + 1\<rparr>"
    by (auto simp: read_maps_line_def run_simps)
  with \<open>\<not> map_end h \<le> curr_ptr h\<close>
  show "map_end h' = map_end h" "map_data h' = map_data h" "curr_ptr h < map_end h" "curr_ptr h < curr_ptr h'"
    using skip_spaces_and_eol_le get_eol_le by fastforce+
qed

lemma read_maps_line_measure:
  "read_maps_line frame h = Ok (entry, h') \<Longrightarrow> pm_valid entry \<Longrightarrow> map_end h' - curr_ptr h' < map_end h - curr_ptr h"
  using read_maps_line_progress [of frame h entry h'] by simp

definition entry_name :: "byte list \<Rightarrow> proc_maps_entry_t \<Rightarrow> byte list" where
  "entry_name data entry =
    (case pm_fn entry of None \<Rightarrow> [] | Some fn \<Rightarrow> map (\<lambda>i. ch data (fn + i)) [0..<pm_fn_len entry])"

function find_fn_loop :: "mem \<Rightarrow> proc_mem_handler_t \<Rightarrow> byte list \<Rightarrow> (proc_maps_entry_t \<times> proc_mem_handler_t) run" where
  "find_fn_loop frame h fn =
    bindR (read_maps_line frame h) (\<lambda>(entry, h).
    if pm_valid entry then
      if pm_fn entry \<noteq> None then
        bindR (assert_that (pm_fn_len entry \<noteq> 0)) (\<lambda>_.
        if pm_fn_len entry = length fn \<and> entry_name (map_data h) entry = fn then Ok (entry, h)
        else find_fn_loop frame h fn)
      else find_fn_loop frame h fn
    else Ok (null_entry, h))"
  by pat_completeness auto

termination find_fn_loop
  by (relation "measure (\<lambda>(frame, h, fn). map_end h - curr_ptr h)")
    (auto intro: read_maps_line_measure)

definition find_in_map_by_fn ::
  "mem \<Rightarrow> proc_mem_handler_t \<Rightarrow> byte list \<Rightarrow> bool \<Rightarrow> (proc_maps_entry_t \<times> proc_mem_handler_t) run" where
  "find_in_map_by_fn frame h fn reset = find_fn_loop frame (if reset then reset_map_handler h else h) fn"

function find_addr_loop :: "mem \<Rightarrow> proc_mem_handler_t \<Rightarrow> u32 \<Rightarrow> (proc_maps_entry_t \<times> proc_mem_handler_t) run" where
  "find_addr_loop frame h p =
    bindR (read_maps_line frame h) (\<lambda>(entry, h).
    if pm_valid entry then
      if pm_start entry \<le> p \<and> pm_end entry > p then Ok (entry, h) else find_addr_loop frame h p
    else Ok (null_entry, h))"
  by pat_completeness auto

termination find_addr_loop
  by (relation "measure (\<lambda>(frame, h, p). map_end h - curr_ptr h)")
    (auto intro: read_maps_line_measure)

definition find_in_map_by_addr ::
  "mem \<Rightarrow> proc_mem_handler_t \<Rightarrow> u32 \<Rightarrow> (proc_maps_entry_t \<times> proc_mem_handler_t) run" where
  "find_in_map_by_addr frame h addr = find_addr_loop frame (reset_map_handler h) addr"

declare find_fn_loop.simps [simp del] find_addr_loop.simps [simp del]

subsection \<open>Reading the file\<close>

definition MAX_PROC_MAPS_FILE_SIZE :: nat where
  "MAX_PROC_MAPS_FILE_SIZE = 1048576"

record proc_calls =
  pc_open :: "byte list \<Rightarrow> int"
  pc_read :: "int \<Rightarrow> nat \<Rightarrow> int \<times> byte list"

definition read_procmap :: "proc_calls \<Rightarrow> int \<Rightarrow> proc_mem_handler_t run" where
  "read_procmap k fd =
    (let (err, data) = pc_read k fd MAX_PROC_MAPS_FILE_SIZE
     in bindR (CASSERT (err > 0)) (\<lambda>_.
        bindR (CASSERT (err < int MAX_PROC_MAPS_FILE_SIZE)) (\<lambda>_. init_map_handler data (nat err))))"

definition read_self_procmap :: "proc_calls \<Rightarrow> proc_mem_handler_t run" where
  "read_self_procmap k =
    (let fd = pc_open k (lit ''/proc/self/maps'')
     in bindR (CASSERT (fd \<ge> 0)) (\<lambda>_. read_procmap k fd))"

text \<open>The name is what \<^verbatim>\<open>snprintf\<close> leaves in the array of 64 characters, up to the NUL.\<close>

definition pid_maps_name :: "u32 \<Rightarrow> byte list run" where
  "pid_maps_name pid =
    bindR (snprintf (\<lambda>_ _. []) (\<lambda>_. 0) (\<lambda>_. 0) 0x1000 64 (lit ''/proc/%d/maps'') [pid]) (\<lambda>(n, out, _).
      Ok (takeWhile (\<lambda>c. c \<noteq> 0) (bytes_at out 0x1000 64)))"

definition read_pid_procmap :: "proc_calls \<Rightarrow> u32 \<Rightarrow> proc_mem_handler_t run" where
  "read_pid_procmap k pid =
    bindR (pid_maps_name pid) (\<lambda>name.
      let fd = pc_open k name
      in bindR (CASSERT (fd > 0)) (\<lambda>_. read_procmap k fd))"

text \<open>The areas \<^verbatim>\<open>flush_mem_to_ckpt\<close> writes: the address and the length of each \<^verbatim>\<open>write\<close>.\<close>

function flush_loop :: "mem \<Rightarrow> proc_mem_handler_t \<Rightarrow> (u32 \<times> u32) list run" where
  "flush_loop frame h =
    bindR (read_maps_line frame h) (\<lambda>(entry, h).
    if pm_valid entry then
      bindR (flush_loop frame h) (\<lambda>ws. Ok ((pm_start entry, pm_end entry - pm_start entry) # ws))
    else Ok [])"
  by pat_completeness auto

termination flush_loop
  by (relation "measure (\<lambda>(frame, h). map_end h - curr_ptr h)")
    (auto intro: read_maps_line_measure)

declare flush_loop.simps [simp del]

definition flush_mem_to_ckpt :: "proc_calls \<Rightarrow> mem \<Rightarrow> (u32 \<times> u32) list run" where
  "flush_mem_to_ckpt k frame =
    (let fd = pc_open k (lit ''/proc/self/maps'');
         (sz, data) = pc_read k fd 0x100000
     in bindR (CASSERT (sz > 0)) (\<lambda>_.
        bindR (CASSERT (sz < 0x100000)) (\<lambda>_.
        bindR (init_map_handler data (nat sz)) (\<lambda>h. flush_loop frame h))))"

subsection \<open>The lines of the file\<close>

text \<open>
  A line as the kernel prints it: \<^verbatim>\<open>start-end prot offset dev inode\<close>, blanks, and the name, which is
  missing for an anonymous area.  The numbers are hexadecimal digits.
\<close>

record map_line =
  ml_start :: "byte list"
  ml_end :: "byte list"
  ml_prot :: "byte list"
  ml_offset :: "byte list"
  ml_dev :: "byte list"
  ml_inode :: "byte list"
  ml_gap :: nat
  ml_name :: "byte list"

definition hex_ok :: "byte list \<Rightarrow> bool" where
  "hex_ok hs \<longleftrightarrow> hs \<noteq> [] \<and> (\<forall>c\<in>set hs. isxdigit c)"

definition field_ok :: "byte list \<Rightarrow> bool" where
  "field_ok u \<longleftrightarrow> u \<noteq> [] \<and> (\<forall>c\<in>set u. \<not> isspace c \<and> c \<noteq> 0)"

definition line_head :: "map_line \<Rightarrow> byte list" where
  "line_head l = ml_start l @ lit ''-'' @ ml_end l @ lit '' '' @ ml_prot l @ lit '' '' @ ml_offset l @ lit '' '' @
    ml_dev l @ lit '' '' @ ml_inode l @ replicate (Suc (ml_gap l)) (chr CHR '' '')"

definition line_text :: "map_line \<Rightarrow> byte list" where
  "line_text l = line_head l @ ml_name l"

definition line_ok :: "map_line \<Rightarrow> bool" where
  "line_ok l \<longleftrightarrow> hex_ok (ml_start l) \<and> hex_ok (ml_end l) \<and> hex_ok (ml_offset l) \<and>
    field_ok (ml_prot l) \<and> length (ml_prot l) = 4 \<and> field_ok (ml_dev l) \<and> field_ok (ml_inode l) \<and>
    (ml_name l = [] \<or> hd (ml_name l) \<in> {chr CHR ''/'', chr CHR ''[''} \<and> (\<forall>c\<in>set (ml_name l). c \<notin> {0, 10, 92}))"

definition line_prot :: "map_line \<Rightarrow> u32" where
  "line_prot l =
    (if ml_prot l ! 0 = chr CHR ''r'' then PROT_READ else 0) OR
    (if ml_prot l ! 1 = chr CHR ''w'' then PROT_WRITE else 0) OR
    (if ml_prot l ! 2 = chr CHR ''x'' then PROT_EXEC else 0)"

text \<open>The entry of a line that starts at \<open>ptr\<close>.\<close>

definition line_entry :: "map_line \<Rightarrow> nat \<Rightarrow> proc_maps_entry_t" where
  "line_entry l ptr =
    \<lparr>pm_valid = True, pm_start = word_of_nat (num_of 16 (ml_start l)), pm_end = word_of_nat (num_of 16 (ml_end l)),
     pm_prot = line_prot l, pm_offset = word_of_nat (num_of 16 (ml_offset l)),
     pm_fn = (if ml_name l = [] then None else Some (ptr + length (line_head l))), pm_fn_len = length (ml_name l)\<rparr>"

lemma load_store32: "load32 (store32 m a v) a = v"
proof (rule bit_word_eqI)
  fix n
  assume "n < LENGTH(32)"
  then show "bit (load32 (store32 m a v) a) n = bit v n"
    by (cases "24 \<le> n"; cases "16 \<le> n") (auto simp: load32_def store32_def bit_simps)
qed

lemma load_store32_other:
  "a + 4 \<le> b \<or> b + 4 \<le> a \<Longrightarrow> load32 (store32 m b v) a = load32 m a"
  unfolding load32_def store32_def by auto

lemma load_store64: "load64 (store64 m a v) a = v"
proof -
  have "load64 (store64 m a v) a = ucast (ucast v :: u32) OR push_bit 32 (ucast (ucast (drop_bit 32 v) :: u32))"
    by (simp add: load64_def store64_def load_store32 load_store32_other)
  also have "\<dots> = v" by (rule bit_word_eqI) (auto simp: bit_simps)
  finally show ?thesis .
qed

subsection \<open>Scanning a line\<close>

lemma field_space: "field_ok u \<Longrightarrow> \<not> isspace (ch (u @ r) 0) \<and> ch (u @ r) 0 \<noteq> 0"
  by (cases u) (auto simp: field_ok_def)

lemma hex_field: "hex_ok hs \<Longrightarrow> field_ok hs"
  using isxdigit_not_space by (auto simp: hex_ok_def field_ok_def)

lemma skip_one_space:
  assumes "drop i buf = lit '' '' @ r" "\<not> isspace (ch r 0)"
  shows "skip_index buf i = i + 1"
  using assms by (cases r) (simp_all add: skip_index_def)

lemma not_alnum_codes: "\<not> isalnum 32" "\<not> isalnum 45"
  by (simp_all add: isalnum_codes isalpha_codes isupper_codes islower_codes isdigit_codes)

text \<open>The blanks after the inode, and for an anonymous area everything up to the next line.\<close>

definition after_inode :: "map_line \<Rightarrow> byte list \<Rightarrow> byte list" where
  "after_inode l rest = replicate (Suc (ml_gap l)) (chr CHR '' '') @ ml_name l @ 10 # rest"

definition line_frame :: "mem \<Rightarrow> map_line \<Rightarrow> nat \<Rightarrow> mem" where
  "line_frame frame l k =
    store32 (store64 ((store32 (store32 frame 0 (word_of_nat (num_of 16 (ml_start l)))) 4
        (word_of_nat (num_of 16 (ml_end l))))
      (8 := ml_prot l ! 0, 9 := ml_prot l ! 1, 10 := ml_prot l ! 2, 11 := ml_prot l ! 3, 12 := 0))
      16 (word_of_nat (num_of 16 (ml_offset l)))) 24 (word_of_nat k)"

text \<open>One step of the loop, with a blank before the conversion or without.\<close>

lemma loop_turn:
  assumes "vsscanf_turn buf s = Ok (Scan_continue s')" "ch (sc_fmt s) 0 \<noteq> 0" "drop (sc_str s) buf = u @ r" "field_ok u"
  shows "vsscanf_loop buf s = vsscanf_loop buf s'"
  using assms field_space [of u r] ch_drop(1) [of buf "sc_str s"] by (intro vsscanf_loop_step) auto

lemma loop_space_turn:
  assumes "vsscanf_turn buf (s\<lparr>sc_fmt := f, sc_str := sc_str s + 1\<rparr>) = Ok (Scan_continue s')"
    "sc_fmt s = chr CHR '' '' # f" "\<not> isspace (ch f 0)" "drop (sc_str s) buf = lit '' '' @ u @ r" "field_ok u"
  shows "vsscanf_loop buf s = vsscanf_loop buf s'"
proof (rule vsscanf_loop_step)
  have "skip_index buf (sc_str s) = sc_str s + 1"
    using assms(4) field_space [OF assms(5), of r] by (intro skip_one_space [of _ _ "u @ r"]) auto
  then show "vsscanf_turn buf s = Ok (Scan_continue s')"
    using turn_space [OF assms(2,3), of buf] assms(1) by simp
  show "ch (sc_fmt s) 0 \<noteq> 0" using assms(2) by simp
  show "ch buf (sc_str s) \<noteq> 0" using ch_drop(1) [of buf "sc_str s"] assms(4) by simp
qed

lemma loop_lx:
  assumes "drop i buf = hs @ r" "hex_ok hs" "\<not> isalnum (hd r)"
  shows "vsscanf_loop buf \<lparr>sc_str = i, sc_fmt = lit ''%lx'' @ f, sc_args = p # args, sc_mem = m, sc_num = n\<rparr> =
    vsscanf_loop buf \<lparr>sc_str = i + length hs, sc_fmt = f, sc_args = args,
      sc_mem = store32 m (unat p) (word_of_nat (num_of 16 hs)), sc_num = n + 1\<rparr>"
  using assms turn_lx [of "\<lparr>sc_str = i, sc_fmt = lit ''%lx'' @ f, sc_args = p # args, sc_mem = m, sc_num = n\<rparr>" f buf hs r p args]
  by (intro loop_turn [OF _ _ _ hex_field]) (auto simp: hex_ok_def)

lemma loop_literal:
  assumes "drop i buf = c # r" "\<not> isspace c" "c \<noteq> chr CHR ''%''" "c \<noteq> 0"
  shows "vsscanf_loop buf \<lparr>sc_str = i, sc_fmt = c # f, sc_args = args, sc_mem = m, sc_num = n\<rparr> =
    vsscanf_loop buf \<lparr>sc_str = i + 1, sc_fmt = f, sc_args = args, sc_mem = m, sc_num = n\<rparr>"
  using assms turn_literal [of "\<lparr>sc_str = i, sc_fmt = c # f, sc_args = args, sc_mem = m, sc_num = n\<rparr>" c f buf r]
  by (intro loop_turn [of _ _ _ "[c]" r]) (auto simp: field_ok_def)

lemma loop_4s:
  assumes "drop i buf = lit '' '' @ u @ r" "field_ok u" "length u = 4"
  shows "vsscanf_loop buf \<lparr>sc_str = i, sc_fmt = lit '' %4s'' @ f, sc_args = p # args, sc_mem = m, sc_num = n\<rparr> =
    vsscanf_loop buf \<lparr>sc_str = i + 5, sc_fmt = f, sc_args = args,
      sc_mem = m(unat p := u ! 0, unat p + 1 := u ! 1, unat p + 2 := u ! 2, unat p + 3 := u ! 3, unat p + 4 := 0), sc_num = n + 1\<rparr>"
proof -
  obtain c0 c1 c2 c3 where u: "u = [c0, c1, c2, c3]" using assms(3) by (auto simp: eval_nat_numeral length_Suc_conv)
  have "drop (i + 1) buf = [c0, c1, c2, c3] @ r" using drop_append_index [OF assms(1)] by (simp add: u)
  then have t: "vsscanf_turn buf \<lparr>sc_str = i + 1, sc_fmt = lit ''%4s'' @ f, sc_args = p # args, sc_mem = m, sc_num = n\<rparr> =
      Ok (Scan_continue \<lparr>sc_str = i + 5, sc_fmt = f, sc_args = args,
      sc_mem = m(unat p := u ! 0, unat p + 1 := u ! 1, unat p + 2 := u ! 2, unat p + 3 := u ! 3, unat p + 4 := 0), sc_num = n + 1\<rparr>)"
    using assms(2) by (subst turn_4s [of _ f _ c0 c1 c2 c3 r p args]) (auto simp: u field_ok_def)
  show ?thesis
    by (rule loop_space_turn [of _ _ "lit ''%4s'' @ f" _ u r]) (use t assms in \<open>simp_all add: isspace_codes\<close>)
qed

lemma loop_llx:
  assumes "drop i buf = lit '' '' @ hs @ r" "hex_ok hs" "\<not> isalnum (hd r)"
  shows "vsscanf_loop buf \<lparr>sc_str = i, sc_fmt = lit '' %llx'' @ f, sc_args = p # args, sc_mem = m, sc_num = n\<rparr> =
    vsscanf_loop buf \<lparr>sc_str = i + 1 + length hs, sc_fmt = f, sc_args = args,
      sc_mem = store64 m (unat p) (word_of_nat (num_of 16 hs)), sc_num = n + 1\<rparr>"
proof -
  have "drop (i + 1) buf = hs @ r" using drop_append_index [OF assms(1)] by simp
  then have t: "vsscanf_turn buf \<lparr>sc_str = i + 1, sc_fmt = lit ''%llx'' @ f, sc_args = p # args, sc_mem = m, sc_num = n\<rparr> =
      Ok (Scan_continue \<lparr>sc_str = i + 1 + length hs, sc_fmt = f, sc_args = args,
      sc_mem = store64 m (unat p) (word_of_nat (num_of 16 hs)), sc_num = n + 1\<rparr>)"
    using assms(2,3) by (subst turn_llx [of _ f _ hs r p args]) (auto simp: hex_ok_def)
  show ?thesis
    by (rule loop_space_turn [of _ _ "lit ''%llx'' @ f" _ hs r]) (use t assms hex_field in \<open>simp_all add: isspace_codes\<close>)
qed

lemma loop_skip:
  assumes "drop i buf = lit '' '' @ u @ r" "field_ok u" "isspace (ch r 0)"
    "\<forall>c\<in>set g. \<not> isspace c \<and> c \<noteq> chr CHR ''%'' \<and> c \<noteq> 0" "isspace (ch f 0) \<or> ch f 0 = chr CHR ''%''"
  shows "vsscanf_loop buf \<lparr>sc_str = i, sc_fmt = lit '' %*'' @ g @ f, sc_args = args, sc_mem = m, sc_num = n\<rparr> =
    vsscanf_loop buf \<lparr>sc_str = i + 1 + length u, sc_fmt = f, sc_args = args, sc_mem = m, sc_num = n\<rparr>"
proof -
  have "drop (i + 1) buf = u @ r" using drop_append_index [OF assms(1)] by simp
  then have t: "vsscanf_turn buf \<lparr>sc_str = i + 1, sc_fmt = lit ''%*'' @ g @ f, sc_args = args, sc_mem = m, sc_num = n\<rparr> =
      Ok (Scan_continue \<lparr>sc_str = i + 1 + length u, sc_fmt = f, sc_args = args, sc_mem = m, sc_num = n\<rparr>)"
    using assms(2-5) by (subst turn_skip [of _ g f _ u r]) (auto simp: field_ok_def)
  show ?thesis
    by (rule loop_space_turn [of _ _ "lit ''%*'' @ g @ f" _ u r]) (use t assms in \<open>simp_all add: isspace_codes\<close>)
qed

lemma loop_skip_nothing:
  assumes "drop i buf = r" "isspace (ch r 0)"
    "\<forall>c\<in>set g. \<not> isspace c \<and> c \<noteq> chr CHR ''%'' \<and> c \<noteq> 0" "isspace (ch f 0) \<or> ch f 0 = chr CHR ''%''"
  shows "vsscanf_loop buf \<lparr>sc_str = i, sc_fmt = lit ''%*'' @ g @ f, sc_args = args, sc_mem = m, sc_num = n\<rparr> =
    vsscanf_loop buf \<lparr>sc_str = i, sc_fmt = f, sc_args = args, sc_mem = m, sc_num = n\<rparr>"
proof (rule vsscanf_loop_step)
  show "vsscanf_turn buf \<lparr>sc_str = i, sc_fmt = lit ''%*'' @ g @ f, sc_args = args, sc_mem = m, sc_num = n\<rparr> =
      Ok (Scan_continue \<lparr>sc_str = i, sc_fmt = f, sc_args = args, sc_mem = m, sc_num = n\<rparr>)"
    using turn_skip [of "\<lparr>sc_str = i, sc_fmt = lit ''%*'' @ g @ f, sc_args = args, sc_mem = m, sc_num = n\<rparr>" g f buf "[]" r] assms
    by simp
  have "ch r 0 \<noteq> 0" using assms(2) by (metis isspace_not_0)
  then show "ch buf (sc_str \<lparr>sc_str = i, sc_fmt = lit ''%*'' @ g @ f, sc_args = args, sc_mem = m, sc_num = n\<rparr>) \<noteq> 0"
    using ch_drop(1) [of buf i] assms(1) by simp
qed simp

lemma maps_format_parts:
  "maps_format = lit ''%lx'' @ chr CHR ''-'' # lit ''%lx'' @ lit '' %4s'' @ lit '' %llx'' @ lit '' %*'' @ lit ''2x:'' @
    lit ''%*'' @ lit ''2x'' @ lit '' %*'' @ lit ''d'' @ lit '' %n''"
  by (simp add: maps_format_def)

lemma scan_head:
  assumes l: "line_ok l" and buf: "buf = line_text l @ 10 # rest"
  obtains k where "k + Suc (ml_gap l) = length (line_head l)" "drop k buf = after_inode l rest"
    "vsscanf_loop buf \<lparr>sc_str = 0, sc_fmt = maps_format, sc_args = [0, 4, 8, 16, 24], sc_mem = frame, sc_num = 0\<rparr> =
     vsscanf_loop buf \<lparr>sc_str = k, sc_fmt = lit '' %n'', sc_args = [24],
      sc_mem = store64 ((store32 (store32 frame 0 (word_of_nat (num_of 16 (ml_start l)))) 4 (word_of_nat (num_of 16 (ml_end l))))
        (8 := ml_prot l ! 0, 9 := ml_prot l ! 1, 10 := ml_prot l ! 2, 11 := ml_prot l ! 3, 12 := 0))
        16 (word_of_nat (num_of 16 (ml_offset l))), sc_num = 4\<rparr>"
proof -
  define R where "R = after_inode l rest"
  let ?sp = "lit '' ''"
  have d0: "drop 0 buf = ml_start l @ lit ''-'' @ ml_end l @ ?sp @ ml_prot l @ ?sp @ ml_offset l @ ?sp @ ml_dev l @ ?sp @ ml_inode l @ R"
    by (simp add: buf line_text_def line_head_def R_def after_inode_def)
  note d1 = drop_append_index [OF d0]
  then have d1': "drop (0 + length (ml_start l)) buf = 45 # ml_end l @ ?sp @ ml_prot l @ ?sp @ ml_offset l @ ?sp @ ml_dev l @ ?sp @ ml_inode l @ R" by simp
  have d2: "drop (0 + length (ml_start l) + 1) buf = ml_end l @ ?sp @ ml_prot l @ ?sp @ ml_offset l @ ?sp @ ml_dev l @ ?sp @ ml_inode l @ R"
    using drop_append_index [OF d1] by simp
  note d3 = drop_append_index [OF d2]
  have d4: "drop (0 + length (ml_start l) + 1 + length (ml_end l) + 5) buf = ?sp @ ml_offset l @ ?sp @ ml_dev l @ ?sp @ ml_inode l @ R"
    using drop_append_index [OF d3 [unfolded append_assoc [symmetric, of ?sp "ml_prot l"]]] l by (simp add: line_ok_def)
  have d5: "drop (0 + length (ml_start l) + 1 + length (ml_end l) + 5 + 1 + length (ml_offset l)) buf = ?sp @ ml_dev l @ ?sp @ ml_inode l @ R"
    using drop_append_index [OF drop_append_index [OF d4]] by simp
  have d6: "drop (0 + length (ml_start l) + 1 + length (ml_end l) + 5 + 1 + length (ml_offset l) + 1 + length (ml_dev l)) buf = ?sp @ ml_inode l @ R"
    using drop_append_index [OF drop_append_index [OF d5]] by simp
  have d7: "drop (0 + length (ml_start l) + 1 + length (ml_end l) + 5 + 1 + length (ml_offset l) + 1 + length (ml_dev l) + 1 + length (ml_inode l)) buf = R"
    using drop_append_index [OF drop_append_index [OF d6]] by simp
  have ok: "hex_ok (ml_start l)" "hex_ok (ml_end l)" "hex_ok (ml_offset l)" "field_ok (ml_prot l)" "length (ml_prot l) = 4"
    "field_ok (ml_dev l)" "field_ok (ml_inode l)" using l by (simp_all add: line_ok_def)
  have R: "isspace (ch R 0)" by (simp add: R_def after_inode_def)
  have u: "unat (0 :: u32) = 0" "unat (4 :: u32) = 4" "unat (8 :: u32) = 8" "unat (16 :: u32) = 16" by simp_all
  have g: "\<forall>c\<in>set (lit ''2x:''). \<not> isspace c \<and> c \<noteq> chr CHR ''%'' \<and> c \<noteq> 0" "\<forall>c\<in>set (lit ''2x''). \<not> isspace c \<and> c \<noteq> chr CHR ''%'' \<and> c \<noteq> 0"
    "\<forall>c\<in>set (lit ''d''). \<not> isspace c \<and> c \<noteq> chr CHR ''%'' \<and> c \<noteq> 0"
    by (simp_all add: isspace_codes)
  have c: "\<not> isalnum (hd (lit ''-'' @ x))" "\<not> isalnum (hd (lit '' '' @ x))" "isspace (ch (lit '' '' @ x) 0)"
    "\<not> isspace 45" "(45 :: byte) \<noteq> chr CHR ''%''" "(45 :: byte) \<noteq> 0" for x
    by (simp_all add: not_alnum_codes isspace_codes)
  have f: "isspace (ch (lit ''%*'' @ x) 0) \<or> ch (lit ''%*'' @ x) 0 = chr CHR ''%''"
    "isspace (ch (lit '' %*'' @ x) 0) \<or> ch (lit '' %*'' @ x) 0 = chr CHR ''%''"
    "isspace (ch (lit '' %n'') 0) \<or> ch (lit '' %n'') 0 = chr CHR ''%''" for x
    by simp_all
  have minus: "chr CHR ''-'' = 45" by simp
  note chain = loop_lx [OF d0 ok(1) c(1)] loop_literal [OF d1' c(4-6)] loop_lx [OF d2 ok(2) c(2)] loop_4s [OF d3 ok(4,5)]
    loop_llx [OF d4 ok(3) c(2)] loop_skip [OF d5 ok(6) c(3) g(1) f(1)] loop_skip_nothing [OF d6 c(3) g(2) f(2)]
    loop_skip [OF d6 ok(7) R g(3) f(3)]
  show ?thesis
  proof (rule that)
    show "drop (0 + length (ml_start l) + 1 + length (ml_end l) + 5 + 1 + length (ml_offset l) + 1 + length (ml_dev l) + 1 + length (ml_inode l)) buf = after_inode l rest"
      using d7 by (simp only: R_def)
    show "0 + length (ml_start l) + 1 + length (ml_end l) + 5 + 1 + length (ml_offset l) + 1 + length (ml_dev l) + 1 + length (ml_inode l) +
        Suc (ml_gap l) = length (line_head l)"
      using ok(5) by (simp add: line_head_def)
  qed (simp only: maps_format_parts minus chain u, simp add: eval_nat_numeral)
qed

text \<open>
  The end of the scan: the blanks, and for an anonymous area the newline and everything blank after
  it, are skipped, and the index is stored if that is not the end of the input.
\<close>

lemma scan_tail:
  assumes "ch buf k = chr CHR '' ''" "j = skip_index buf k"
  shows "bindR (vsscanf_loop buf \<lparr>sc_str = k, sc_fmt = lit '' %n'', sc_args = [24], sc_mem = m, sc_num = 4\<rparr>) scan_finish =
    Ok (4, if ch buf j \<noteq> 0 then store32 m 24 (word_of_nat j) else m)"
proof -
  have t: "vsscanf_turn buf \<lparr>sc_str = k, sc_fmt = lit '' %n'', sc_args = [24], sc_mem = m, sc_num = 4\<rparr> =
      vsscanf_turn buf \<lparr>sc_str = j, sc_fmt = lit ''%n'', sc_args = [24], sc_mem = m, sc_num = 4\<rparr>"
    using turn_space [of "\<lparr>sc_str = k, sc_fmt = lit '' %n'', sc_args = [24], sc_mem = m, sc_num = 4\<rparr>" "lit ''%n''" buf]
    by (simp add: isspace_codes assms(2))
  show ?thesis
  proof (cases "ch buf j = 0")
    case True
    then have "vsscanf_turn buf \<lparr>sc_str = j, sc_fmt = lit ''%n'', sc_args = [24], sc_mem = m, sc_num = 4\<rparr> =
        Ok (Scan_break \<lparr>sc_str = j, sc_fmt = lit ''n'', sc_args = [24], sc_mem = m, sc_num = 4\<rparr>)"
      by (simp add: vsscanf_turn_def scan_directive_def scan_modifier_def TOLOWER_def isspace_codes isdigit_codes)
    with t True assms(1) show ?thesis by (subst vsscanf_loop.simps) (simp add: scan_finish_def)
  next
    case False
    then have "vsscanf_turn buf \<lparr>sc_str = j, sc_fmt = lit ''%n'', sc_args = [24], sc_mem = m, sc_num = 4\<rparr> =
        Ok (Scan_continue \<lparr>sc_str = j, sc_fmt = [], sc_args = [], sc_mem = store32 m 24 (word_of_nat j), sc_num = 4\<rparr>)"
      using turn_n [of "\<lparr>sc_str = j, sc_fmt = lit ''%n'', sc_args = [24], sc_mem = m, sc_num = 4\<rparr>" "[]" buf 24 "[]"] by simp
    with t False assms(1) show ?thesis
      by (subst vsscanf_loop.simps) (simp add: scan_finish_def vsscanf_loop.simps [of buf "\<lparr>sc_str = j, sc_fmt = [], sc_args = [], sc_mem = store32 m 24 (word_of_nat j), sc_num = 4\<rparr>"])
  qed
qed

lemma length_takeWhile_blanks:
  "length (takeWhile isspace (replicate n (chr CHR '' '') @ v)) = n + length (takeWhile isspace v)"
  by (induction n) simp_all

lemma sscanf_line:
  assumes l: "line_ok l" and buf: "buf = line_text l @ 10 # rest"
    and j: "j = (if ml_name l = [] then length (line_head l) + 1 + length (takeWhile isspace rest) else length (line_head l))"
    and ne: "ch buf j \<noteq> 0"
  shows "sscanf frame buf maps_format [0, 4, 8, 16, 24] = Ok (4, line_frame frame l j)"
proof -
  define m where "m = store64 ((store32 (store32 frame 0 (word_of_nat (num_of 16 (ml_start l)))) 4 (word_of_nat (num_of 16 (ml_end l))))
        (8 := ml_prot l ! 0, 9 := ml_prot l ! 1, 10 := ml_prot l ! 2, 11 := ml_prot l ! 3, 12 := 0))
        16 (word_of_nat (num_of 16 (ml_offset l)))"
  obtain k where k: "k + Suc (ml_gap l) = length (line_head l)" "drop k buf = after_inode l rest"
    and run: "vsscanf_loop buf \<lparr>sc_str = 0, sc_fmt = maps_format, sc_args = [0, 4, 8, 16, 24], sc_mem = frame, sc_num = 0\<rparr> =
     vsscanf_loop buf \<lparr>sc_str = k, sc_fmt = lit '' %n'', sc_args = [24], sc_mem = m, sc_num = 4\<rparr>"
    unfolding m_def by (rule scan_head [OF l buf])
  have c: "ch buf k = chr CHR '' ''" using ch_drop(1) [of buf k] k(2) by (simp add: after_inode_def)
  have name: "ml_name l \<noteq> [] \<Longrightarrow> \<not> isspace (hd (ml_name l))"
  proof -
    assume "ml_name l \<noteq> []"
    then have "hd (ml_name l) = chr CHR ''/'' \<or> hd (ml_name l) = chr CHR ''[''" using l by (simp add: line_ok_def)
    then show ?thesis by (elim disjE) (simp_all only:, simp_all add: isspace_codes)
  qed
  have "length (takeWhile isspace (after_inode l rest)) =
      Suc (ml_gap l) + (if ml_name l = [] then 1 + length (takeWhile isspace rest) else 0)"
    unfolding after_inode_def length_takeWhile_blanks using name
    by (cases "ml_name l") (simp_all add: isspace_codes [of 10])
  then have "j = skip_index buf k" using k unfolding skip_index_def j k(2) by simp
  from scan_tail [OF c this, of m] ne show ?thesis
    unfolding sscanf_def vsscanf_def run line_frame_def m_def [symmetric] by simp
qed

subsection \<open>Parsing a line\<close>

lemma line_frame_loads:
  "load32 (line_frame frame l k) 0 = word_of_nat (num_of 16 (ml_start l))"
  "load32 (line_frame frame l k) 4 = word_of_nat (num_of 16 (ml_end l))"
  "load64 (line_frame frame l k) 16 = word_of_nat (num_of 16 (ml_offset l))"
  "load32 (line_frame frame l k) 24 = word_of_nat k"
  "parse_prot (line_frame frame l k) = line_prot l"
proof -
  have other: "load32 (m(x := v)) a = load32 m a" if "x < a \<or> a + 4 \<le> x" for m x v a
    using that by (auto simp: load32_def)
  show "load32 (line_frame frame l k) 0 = word_of_nat (num_of 16 (ml_start l))"
    "load32 (line_frame frame l k) 4 = word_of_nat (num_of 16 (ml_end l))"
    by (simp_all add: line_frame_def store64_def load_store32_other other load_store32)
  have "load64 (line_frame frame l k) 16 = load64 (store64 m 16 (word_of_nat (num_of 16 (ml_offset l)))) 16" for m
    by (simp add: line_frame_def load64_def store64_def load_store32_other load_store32)
  then show "load64 (line_frame frame l k) 16 = word_of_nat (num_of 16 (ml_offset l))"
    by (simp only: load_store64)
  show "load32 (line_frame frame l k) 24 = word_of_nat k" by (simp add: line_frame_def load_store32)
  show "parse_prot (line_frame frame l k) = line_prot l"
    unfolding parse_prot_def line_prot_def line_frame_def store64_def store32_def by simp
qed

lemma ch_append: "ch (u @ v) i = (if i < length u then u ! i else ch v (i - length u))"
  by (auto simp: ch_def nth_append)

lemma ch_drop_add: "ch data (ptr + i) = ch (drop ptr data) i"
  by (auto simp: ch_def)

text \<open>An anonymous line must be followed by another line, see \<open>anonymous_last_line\<close> below.\<close>

definition followed :: "map_line \<Rightarrow> byte list \<Rightarrow> bool" where
  "followed l rest \<longleftrightarrow> (ml_name l = [] \<longrightarrow> rest \<noteq> [] \<and> isxdigit (hd rest))"

lemma parse_fn_named:
  assumes l: "line_ok l" and data: "drop ptr data = line_text l @ 10 # rest" and name: "ml_name l \<noteq> []"
  shows "parse_fn data ptr (length (line_text l)) (ptr + length (line_head l)) =
    Ok (Some (ptr + length (line_head l)), length (ml_name l))"
proof -
  have h: "ch data (ptr + length (line_head l)) = hd (ml_name l)"
    using name by (simp add: ch_drop_add data line_text_def ch_append hd_conv_nth)
  have n: "hd (ml_name l) = chr CHR ''/'' \<or> hd (ml_name l) = chr CHR ''[''" using l name by (simp add: line_ok_def)
  have "drop (ptr + length (line_head l)) data = ml_name l @ 10 # rest"
    using drop_append_index [of ptr data "line_head l"] data by (simp add: line_text_def)
  then have t: "takeWhile (\<lambda>c. c = chr CHR '' '' \<or> c = 9) (drop (ptr + length (line_head l)) data) = []"
    using name n by (cases "ml_name l") auto
  have "ch data (ptr + length (line_head l) + i) = ml_name l ! i" if "i < length (ml_name l)" for i
    using that by (simp add: add.assoc ch_drop_add data line_text_def ch_append nth_append)
  then have b: "\<not> list_ex (\<lambda>i. ch data (ptr + length (line_head l) + i) = 92) [0..<length (ml_name l)]"
    using l name by (auto simp: list_ex_iff line_ok_def)
  have "ptr + length (line_text l) - (ptr + length (line_head l)) = length (ml_name l)" by (simp add: line_text_def)
  moreover have "ch data (ptr + length (line_head l)) \<noteq> 10" using h n by auto
  moreover have "ptr + length (line_text l) > ptr + length (line_head l)" using name by (simp add: line_text_def)
  ultimately show ?thesis
    using t n b h unfolding parse_fn_def Let_def by auto
qed

lemma parse_fn_anonymous:
  assumes data: "drop ptr data = line_head l @ 10 # rest" and rest: "rest \<noteq> []" "isxdigit (hd rest)"
  shows "parse_fn data ptr len (ptr + (length (line_head l) + 1)) = Ok (None, 0)"
proof -
  have d: "drop (ptr + (length (line_head l) + 1)) data = rest"
    using drop_append_index [of ptr data "line_head l @ [10]" rest] data by simp
  have x: "hd rest \<notin> {chr CHR '' '', 9, chr CHR ''/'', chr CHR ''['', 0}" using rest(2) by (auto simp: isxdigit_codes)
  have t: "takeWhile (\<lambda>c. c = chr CHR '' '' \<or> c = 9) rest = []" using rest(1) x by (cases rest) auto
  have c: "ch data (ptr + (length (line_head l) + 1)) = hd rest" using rest(1) by (simp only: ch_drop_add data) (cases rest; simp add: ch_append)
  have n: "ch data (ptr + (length (line_head l) + 1) - 1) = 10" using ch_drop_add [of data ptr "length (line_head l)"] by (simp add: data ch_append)
  show ?thesis unfolding parse_fn_def Let_def d t using c n x by simp
qed

lemma parse_line_entry:
  assumes l: "line_ok l" and data: "drop ptr data = line_text l @ 10 # rest" and f: "followed l rest" and len: "length data < 2 ^ 32"
  shows "parse_line frame data ptr (length (line_text l)) = Ok (line_entry l ptr)"
proof -
  define j where "j = (if ml_name l = [] then length (line_head l) + 1 else length (line_head l))"
  have r: "ml_name l = [] \<Longrightarrow> takeWhile isspace rest = []"
    using f isxdigit_not_space by (cases rest) (auto simp: followed_def)
  have "length (drop ptr data) = length (line_head l) + length (ml_name l) + 1 + length rest"
    unfolding data by (simp add: line_text_def)
  moreover have "ml_name l = [] \<Longrightarrow> 0 < length rest" using f by (simp add: followed_def)
  ultimately have jl: "j < length (drop ptr data)" by (auto simp: j_def)
  have "ch (drop ptr data) j = (if ml_name l = [] then hd rest else hd (ml_name l))"
    using f by (cases rest) (auto simp: data j_def line_text_def ch_append followed_def hd_conv_nth)
  moreover have "(if ml_name l = [] then hd rest else hd (ml_name l)) \<noteq> 0"
    using f l isxdigit_not_space by (auto simp: followed_def line_ok_def)
  ultimately have "ch (drop ptr data) j \<noteq> 0" by simp
  then have s: "sscanf frame (drop ptr data) maps_format [0, 4, 8, 16, 24] = Ok (4, line_frame frame l j)"
    by (intro sscanf_line [OF l data]) (simp_all add: j_def r)
  have "j < 2 ^ 32" using jl len by simp
  then have u: "unat (word_of_nat j :: u32) = j" by (rule unat_word_of_nat_32)
  have "parse_fn data ptr (length (line_text l)) (ptr + j) =
      Ok (if ml_name l = [] then None else Some (ptr + length (line_head l)), length (ml_name l))"
  proof (cases "ml_name l = []")
    case True
    with data have "drop ptr data = line_head l @ 10 # rest" by (simp add: line_text_def)
    from parse_fn_anonymous [OF this] f True show ?thesis by (simp add: j_def followed_def)
  next
    case False
    with parse_fn_named [OF l data] show ?thesis by (simp add: j_def)
  qed
  then show ?thesis
    by (simp add: parse_line_def s line_frame_loads u line_entry_def)
qed

lemma line_text_chars:
  assumes "line_ok l" "c \<in> set (line_text l)"
  shows "c \<noteq> 10 \<and> c \<noteq> 0"
proof -
  have f: "c \<noteq> 10 \<and> c \<noteq> 0" if "field_ok u" "c \<in> set u" for u
    using that by (auto simp: field_ok_def isspace_codes)
  have "field_ok (ml_start l)" "field_ok (ml_end l)" "field_ok (ml_offset l)" "field_ok (ml_prot l)" "field_ok (ml_dev l)" "field_ok (ml_inode l)"
    "\<forall>c\<in>set (ml_name l). c \<noteq> 10 \<and> c \<noteq> 0"
    using assms(1) hex_field by (auto simp: line_ok_def)
  with f assms(2) show ?thesis by (auto simp: line_text_def line_head_def)
qed

lemma get_eol_line:
  assumes "drop ptr data = u @ 10 # rest" "\<forall>c\<in>set u. c \<noteq> 10 \<and> c \<noteq> 0" "ptr + length u \<le> lim"
  shows "get_eol data ptr lim = Ok (ptr + length u)"
  using assms
proof (induction u arbitrary: ptr)
  case Nil
  then show ?case using ch_drop(1) [of data ptr] by (subst get_eol.simps) simp
next
  case (Cons c u)
  from Cons.prems(1) have "drop (ptr + 1) data = u @ 10 # rest" using drop_append_index [of ptr data "[c]"] by simp
  with Cons have "get_eol data (ptr + 1) lim = Ok (ptr + 1 + length u)" by (intro Cons.IH) auto
  moreover have "ch data ptr = c" using ch_drop(1) [of data ptr] Cons.prems(1) by simp
  ultimately show ?case using Cons.prems by (subst get_eol.simps) (simp add: next_ptr_def)
qed

subsection \<open>Reading the whole map\<close>

definition maps_text :: "map_line list \<Rightarrow> byte list" where
  "maps_text ls = concat (map (\<lambda>l. line_text l @ [10]) ls)"

definition maps_ok :: "map_line list \<Rightarrow> bool" where
  "maps_ok ls \<longleftrightarrow> (\<forall>l\<in>set ls. line_ok l) \<and> (ls \<noteq> [] \<longrightarrow> ml_name (last ls) \<noteq> [])"

fun entries :: "nat \<Rightarrow> map_line list \<Rightarrow> proc_maps_entry_t list" where
  "entries ptr [] = []"
| "entries ptr (l # ls) = line_entry l ptr # entries (ptr + length (line_text l) + 1) ls"

lemma maps_text_simps [simp]: "maps_text [] = []" "maps_text (l # ls) = line_text l @ 10 # maps_text ls"
  by (simp_all add: maps_text_def)

lemma line_text_hex: "line_ok l \<Longrightarrow> line_text l \<noteq> [] \<and> isxdigit (hd (line_text l))"
  by (cases "ml_start l") (auto simp: line_ok_def hex_ok_def line_text_def line_head_def)

lemma maps_followed:
  assumes "maps_ok (l # ls)"
  shows "followed l (maps_text ls)"
proof (cases ls)
  case Nil
  with assms show ?thesis by (simp add: maps_ok_def followed_def)
next
  case (Cons l' ls')
  with assms line_text_hex [of l'] show ?thesis by (auto simp: maps_ok_def followed_def)
qed

lemma maps_ok_Cons: "maps_ok (l # ls) \<Longrightarrow> line_ok l \<and> maps_ok ls"
  by (auto simp: maps_ok_def split: if_splits)

definition handler_at :: "byte list \<Rightarrow> nat \<Rightarrow> proc_mem_handler_t" where
  "handler_at data ptr = \<lparr>map_data = data, map_end = length data, curr_ptr = ptr\<rparr>"

lemma read_maps_line_entry:
  assumes "maps_ok (l # ls)" "drop ptr data = maps_text (l # ls)" "length data < 2 ^ 32"
  shows "read_maps_line frame (handler_at data ptr) =
    Ok (line_entry l ptr, handler_at data (ptr + length (line_text l) + 1))"
proof -
  have l: "line_ok l" using maps_ok_Cons [OF assms(1)] by simp
  have d: "drop ptr data = line_text l @ 10 # maps_text ls" using assms(2) by simp
  have c: "isxdigit (ch data ptr)" using line_text_hex [OF l] ch_drop(1) [of data ptr] d by (cases "line_text l") auto
  have len: "length data = ptr + length (line_text l) + 1 + length (maps_text ls)"
  proof -
    have "length (drop ptr data) = length (line_text l) + 1 + length (maps_text ls)" unfolding d by simp
    then show ?thesis by simp
  qed
  have "skip_spaces_and_eol data ptr (length data) = Ok ptr"
    using c by (subst skip_spaces_and_eol.simps) (auto simp: isxdigit_codes)
  moreover have "get_eol data ptr (length data) = Ok (ptr + length (line_text l))"
    using line_text_chars [OF l] len by (intro get_eol_line [OF d]) auto
  moreover have "parse_line frame data ptr (length (line_text l)) = Ok (line_entry l ptr)"
    by (rule parse_line_entry [OF l d maps_followed [OF assms(1)] assms(3)])
  ultimately show ?thesis using len by (simp add: read_maps_line_def handler_at_def)
qed

lemma read_maps_line_end:
  "data \<noteq> [] \<Longrightarrow> read_maps_line frame (handler_at data (length data)) = Ok (null_entry, handler_at data (length data))"
  by (simp add: read_maps_line_def handler_at_def)

lemma drop_next_line:
  "drop ptr data = maps_text (l # ls) \<Longrightarrow> drop (ptr + length (line_text l) + 1) data = maps_text ls"
  using drop_append_index [of ptr data "line_text l @ [10]" "maps_text ls"] by (simp add: add.assoc)

definition contains :: "u32 \<Rightarrow> proc_maps_entry_t \<Rightarrow> bool" where
  "contains p e \<longleftrightarrow> pm_start e \<le> p \<and> p < pm_end e"

lemma find_addr_loop_first:
  assumes "maps_ok ls" "drop ptr data = maps_text ls" "ptr \<le> length data" "length data < 2 ^ 32" "data \<noteq> []"
  shows "\<exists>h'. find_addr_loop frame (handler_at data ptr) p =
    Ok (case find (contains p) (entries ptr ls) of Some e \<Rightarrow> e | None \<Rightarrow> null_entry, h')"
  using assms(1-3)
proof (induction ls arbitrary: ptr)
  case Nil
  then have "ptr = length data" by simp
  then show ?case using assms(5) by (subst find_addr_loop.simps) (simp add: read_maps_line_end null_entry_def)
next
  case (Cons l ls)
  note r = read_maps_line_entry [OF Cons.prems(1,2) assms(4), of frame]
  have v: "pm_valid (line_entry l ptr)" by (simp add: line_entry_def)
  show ?case
  proof (cases "contains p (line_entry l ptr)")
    case True
    then show ?thesis by (subst find_addr_loop.simps) (simp add: r v contains_def)
  next
    case False
    have "length (drop ptr data) = length (maps_text (l # ls))" using Cons.prems(2) by simp
    then have "ptr + length (line_text l) + 1 \<le> length data" by simp
    with Cons.IH [OF conjunct2 [OF maps_ok_Cons [OF Cons.prems(1)]] drop_next_line [OF Cons.prems(2)]]
    obtain h' where "find_addr_loop frame (handler_at data (ptr + length (line_text l) + 1)) p =
        Ok (case find (contains p) (entries (ptr + length (line_text l) + 1) ls) of Some e \<Rightarrow> e | None \<Rightarrow> null_entry, h')" by blast
    with False show ?thesis by (subst find_addr_loop.simps) (auto simp: r v contains_def)
  qed
qed

text \<open>
  C29.  Looking up an address in the memory map.  The text is a sequence of lines as the kernel
  prints them, shorter than $2^{32}$ characters, the last one with a name.  Whatever the handler was
  used for before and whatever is on the stack, \<^verbatim>\<open>find_in_map_by_addr\<close> returns the entry of the
  first area that contains the address, with its bounds, protection, offset and name, and an invalid
  entry if no area contains it.
\<close>

theorem find_in_map_by_addr_first:
  assumes "maps_ok ls" "ls \<noteq> []" "length (maps_text ls) < 2 ^ 32"
  shows "\<exists>h'. find_in_map_by_addr frame
      \<lparr>map_data = maps_text ls, map_end = length (maps_text ls), curr_ptr = c\<rparr> p =
    Ok (case find (contains p) (entries 0 ls) of Some e \<Rightarrow> e | None \<Rightarrow> null_entry, h')"
proof -
  have "maps_text ls \<noteq> []" using assms(2) by (cases ls) auto
  with find_addr_loop_first [OF assms(1), of 0 "maps_text ls" frame p] assms(3)
  show ?thesis by (simp add: find_in_map_by_addr_def reset_map_handler_def handler_at_def)
qed

definition demo_line :: map_line where
  "demo_line = \<lparr>ml_start = lit ''08048000'', ml_end = lit ''08049000'', ml_prot = lit ''r-xp'', ml_offset = lit ''00001000'',
    ml_dev = lit ''08:01'', ml_inode = lit ''42'', ml_gap = 3, ml_name = lit ''/bin/ls''\<rparr>"

lemma demo_line_ok: "maps_ok [demo_line]"
proof -
  have x: "isxdigit 48" "isxdigit 49" "isxdigit 52" "isxdigit 56" "isxdigit 57" by (simp_all add: isxdigit_codes)
  show ?thesis
    by (simp add: maps_ok_def line_ok_def demo_line_def hex_ok_def field_ok_def isspace_codes x)
qed

theorem find_in_map_by_addr_first_witness:
  "\<exists>h'. find_in_map_by_addr (\<lambda>_. 0)
      \<lparr>map_data = maps_text [demo_line], map_end = length (maps_text [demo_line]), curr_ptr = 7\<rparr> 0x8048010 =
    Ok (case find (contains 0x8048010) (entries 0 [demo_line]) of Some e \<Rightarrow> e | None \<Rightarrow> null_entry, h')"
  by (rule find_in_map_by_addr_first [OF demo_line_ok])
    (simp_all add: line_text_def line_head_def demo_line_def)

text \<open>
  C30.  An anonymous area on the last line.  The scan then reports four fields but does not
  store the position of the name, because the input ends at the blanks before \<^verbatim>\<open>%n\<close>: the
  variable \<^verbatim>\<open>l\<close> that \<^verbatim>\<open>parse_line\<close> uses next is whatever the stack held.
\<close>

theorem anonymous_last_line:
  assumes "line_ok l" "ml_name l = []"
  shows "\<exists>m. sscanf frame (line_text l @ [10]) maps_format [0, 4, 8, 16, 24] = Ok (4, m) \<and>
    load32 m 24 = load32 frame 24"
proof -
  let ?buf = "line_text l @ 10 # []"
  define m where "m = store64 ((store32 (store32 frame 0 (word_of_nat (num_of 16 (ml_start l)))) 4 (word_of_nat (num_of 16 (ml_end l))))
        (8 := ml_prot l ! 0, 9 := ml_prot l ! 1, 10 := ml_prot l ! 2, 11 := ml_prot l ! 3, 12 := 0))
        16 (word_of_nat (num_of 16 (ml_offset l)))"
  obtain k where k: "k + Suc (ml_gap l) = length (line_head l)" "drop k ?buf = after_inode l []"
    and run: "vsscanf_loop ?buf \<lparr>sc_str = 0, sc_fmt = maps_format, sc_args = [0, 4, 8, 16, 24], sc_mem = frame, sc_num = 0\<rparr> =
     vsscanf_loop ?buf \<lparr>sc_str = k, sc_fmt = lit '' %n'', sc_args = [24], sc_mem = m, sc_num = 4\<rparr>"
    unfolding m_def by (rule scan_head [OF assms(1) refl])
  have c: "ch ?buf k = chr CHR '' ''" using ch_drop(1) [of ?buf k] k(2) by (simp add: after_inode_def)
  have "length (takeWhile isspace (after_inode l [])) = Suc (ml_gap l) + 1"
    unfolding after_inode_def length_takeWhile_blanks by (simp add: assms(2) isspace_codes [of 10])
  then have "skip_index ?buf k = length ?buf" using k assms(2) unfolding skip_index_def k(2) by (simp add: line_text_def)
  then have "ch ?buf (skip_index ?buf k) = 0" by (simp add: ch_def)
  with scan_tail [OF c refl, of m] run have "sscanf frame ?buf maps_format [0, 4, 8, 16, 24] = Ok (4, m)"
    by (simp add: sscanf_def vsscanf_def)
  moreover have "load32 m 24 = load32 frame 24"
    by (simp add: m_def store64_def load_store32_other) (simp add: load32_def store32_def)
  ultimately show ?thesis by auto
qed

theorem anonymous_last_line_witness:
  "\<exists>m. sscanf (\<lambda>_. 7) (line_text (demo_line\<lparr>ml_name := []\<rparr>) @ [10]) maps_format [0, 4, 8, 16, 24] = Ok (4, m) \<and>
    load32 m 24 = load32 (\<lambda>_. 7) 24"
  by (rule anonymous_last_line) (use demo_line_ok in \<open>simp_all add: maps_ok_def line_ok_def\<close>)

end
