(* ===== verification/User_Entry.thy ===== *)
theory User_Entry
  imports Proc_Maps Mm
begin

text \<open>
  The hook at the entry point of the traced program (\<^verbatim>\<open>src/core/loader/user_entry.c\<close>,
  \<^verbatim>\<open>arch_user_entry.c\<close>).  The first five bytes at the entry are saved and replaced by a
  jump to the loader; when the program arrives there the bytes are put back.  The area of the entry
  is looked up in the memory map and made writable for each change.

  The state has the memory of the process, the protection of every byte, the mapped addresses and
  the static variables of \<^verbatim>\<open>arch_user_entry.c\<close>.  A store to a byte without write
  permission faults.  \<open>mmap\<close>, \<open>munmap\<close>, \<open>mprotect\<close> and the reading of the memory map
  are parameters.
\<close>

definition PATCH_SZ :: nat where "PATCH_SZ = 5"

record patch_state =
  ps_mem :: mem
  ps_prot :: "nat \<Rightarrow> u32"
  ps_vm :: vm
  reprotect_addr_start :: u32
  reprotect_sz :: u32
  old_prot :: u32
  patch_begin :: u32
  saved_patch_bytes :: "byte list"

type_synonym mprotect = "u32 \<Rightarrow> u32 \<Rightarrow> u32 \<Rightarrow> vm \<Rightarrow> (nat \<Rightarrow> u32) \<Rightarrow> int \<times> (nat \<Rightarrow> u32)"

definition protect :: "mprotect \<Rightarrow> u32 \<Rightarrow> u32 \<Rightarrow> u32 \<Rightarrow> patch_state \<Rightarrow> patch_state run" where
  "protect mprotect a sz prot st =
    (let (err, p) = mprotect a sz prot (ps_vm st) (ps_prot st)
     in bindR (assert_that (err = 0)) (\<lambda>_. Ok (st\<lparr>ps_prot := p\<rparr>)))"

definition store_bytes :: "nat \<Rightarrow> byte list \<Rightarrow> patch_state \<Rightarrow> patch_state run" where
  "store_bytes a bs st =
    (if list_all (\<lambda>x. ps_prot st x AND Proc_Maps.PROT_WRITE \<noteq> 0) [a..<a + length bs]
     then Ok (st\<lparr>ps_mem := (\<lambda>x. if a \<le> x \<and> x < a + length bs then bs ! (x - a) else ps_mem st x)\<rparr>)
     else Stop Segv)"

definition do_patch :: "u32 \<Rightarrow> u32 \<Rightarrow> patch_state \<Rightarrow> patch_state run" where
  "do_patch inst target st =
    (let diff = target - (inst + word_of_nat PATCH_SZ)
     in bindR (store_bytes (unat inst) [0xe9] st) (\<lambda>st.
          store_bytes (unat inst + 1)
            [ucast diff, ucast (drop_bit 8 diff), ucast (drop_bit 16 diff), ucast (drop_bit 24 diff)] st))"

definition unpatch_user_entry :: "mprotect \<Rightarrow> patch_state \<Rightarrow> patch_state run" where
  "unpatch_user_entry mprotect st =
    bindR (assert_that (patch_begin st \<noteq> 0)) (\<lambda>_. bindR (assert_that (reprotect_addr_start st \<noteq> 0)) (\<lambda>_.
      bindR (protect mprotect (reprotect_addr_start st) (reprotect_sz st)
        (Proc_Maps.PROT_READ OR Proc_Maps.PROT_WRITE) st) (\<lambda>st.
      bindR (store_bytes (unat (patch_begin st)) (saved_patch_bytes st) st) (\<lambda>st.
      protect mprotect (reprotect_addr_start st) (reprotect_sz st) (old_prot st) st))))"

text \<open>The target of the jump is the address of the assembly entry \<^verbatim>\<open>arch_user_entry_e\<close>.\<close>

definition arch_patch_user_entry :: "u32 \<Rightarrow> u32 \<Rightarrow> u32 \<Rightarrow> u32 \<Rightarrow> u32 \<Rightarrow> patch_state \<Rightarrow> patch_state run" where
  "arch_patch_user_entry arch_user_entry_e uentry rep_start rep_sz prot st =
    (let st = st\<lparr>patch_begin := uentry,
           saved_patch_bytes := bytes_at (ps_mem st) (unat uentry) PATCH_SZ,
           reprotect_addr_start := rep_start, reprotect_sz := rep_sz, old_prot := prot\<rparr>
     in do_patch (patch_begin st) arch_user_entry_e st)"

definition patch_user_entry ::
  "mmap \<Rightarrow> munmap \<Rightarrow> mprotect \<Rightarrow> proc_calls \<Rightarrow> mem \<Rightarrow> u32 \<Rightarrow> u32 \<Rightarrow> patch_state \<Rightarrow> patch_state run" where
  "patch_user_entry mmap munmap mprotect pk frame arch_user_entry_e uentry st =
    bindR (xalloc_pages mmap (word_of_nat MAX_PROC_MAPS_FILE_SIZE) False (ps_vm st)) (\<lambda>(mapdata, vm).
    bindR (assert_that (mapdata \<noteq> 0)) (\<lambda>_.
    bindR (read_self_procmap pk) (\<lambda>h.
    bindR (find_in_map_by_addr frame h uentry) (\<lambda>(r, h).
    bindR (assert_that (uentry \<ge> pm_start r)) (\<lambda>_.
    bindR (assert_that (uentry < pm_end r)) (\<lambda>_.
    bindR (CASSERT (\<not> uentry + word_of_nat PATCH_SZ \<ge> pm_end r)) (\<lambda>_.
    let start = pm_start r; sz = pm_end r - start; prot = pm_prot r
    in bindR (xdealloc_pages munmap mapdata (word_of_nat MAX_PROC_MAPS_FILE_SIZE) vm) (\<lambda>vm.
       bindR (protect mprotect start sz (Proc_Maps.PROT_READ OR Proc_Maps.PROT_WRITE) (st\<lparr>ps_vm := vm\<rparr>)) (\<lambda>st.
       bindR (arch_patch_user_entry arch_user_entry_e uentry start sz prot st) (\<lambda>st.
       protect mprotect start sz prot st))))))))))"

subsection \<open>The kernel\<close>

text \<open>\<^verbatim>\<open>mprotect\<close> succeeds on whole mapped pages and then sets exactly the area.\<close>

definition in_area :: "u32 \<Rightarrow> u32 \<Rightarrow> nat \<Rightarrow> bool" where
  "in_area a sz x \<longleftrightarrow> unat a \<le> x \<and> x < unat a + unat sz"

definition mprotect_spec :: "mprotect \<Rightarrow> bool" where
  "mprotect_spec mprotect \<longleftrightarrow> (\<forall>a sz prot vm p.
    (is_valid_page a \<and> is_valid_page sz \<and> (\<forall>x. in_area a sz x \<longrightarrow> x \<in> vm) \<longrightarrow>
      mprotect a sz prot vm p = (0, \<lambda>x. if in_area a sz x then prot else p x)))"

text \<open>
  The memory map of the process agrees with its state: the text is what the kernel delivers on
  reading, and the area of an address consists of mapped pages with the printed protection.
\<close>

definition maps_agree :: "proc_calls \<Rightarrow> map_line list \<Rightarrow> bool" where
  "maps_agree pk ls \<longleftrightarrow> maps_ok ls \<and> ls \<noteq> [] \<and> length (maps_text ls) < MAX_PROC_MAPS_FILE_SIZE
    \<and> pc_open pk (lit ''/proc/self/maps'') \<ge> 0
    \<and> pc_read pk (pc_open pk (lit ''/proc/self/maps'')) MAX_PROC_MAPS_FILE_SIZE = (int (length (maps_text ls)), maps_text ls)"

definition area_agrees :: "proc_maps_entry_t \<Rightarrow> patch_state \<Rightarrow> bool" where
  "area_agrees e st \<longleftrightarrow> is_valid_page (pm_start e) \<and> is_valid_page (pm_end e) \<and> pm_start e \<noteq> 0
    \<and> (\<forall>x. in_area (pm_start e) (pm_end e - pm_start e) x \<longrightarrow> x \<in> ps_vm st \<and> ps_prot st x = pm_prot e)"

subsection \<open>Patching and unpatching\<close>

lemma protect_Ok:
  assumes "mprotect_spec mprotect" "is_valid_page a" "is_valid_page sz" "\<And>x. in_area a sz x \<Longrightarrow> x \<in> ps_vm st"
  shows "protect mprotect a sz prot st = Ok (st\<lparr>ps_prot := (\<lambda>x. if in_area a sz x then prot else ps_prot st x)\<rparr>)"
  using assms by (simp add: protect_def mprotect_spec_def)

lemma writable: "(Proc_Maps.PROT_READ OR Proc_Maps.PROT_WRITE) AND Proc_Maps.PROT_WRITE \<noteq> 0"
  by (simp add: Proc_Maps.PROT_READ_def Proc_Maps.PROT_WRITE_def)

lemma store_bytes_Ok:
  assumes "\<And>x. a \<le> x \<Longrightarrow> x < a + length bs \<Longrightarrow> ps_prot st x AND Proc_Maps.PROT_WRITE \<noteq> 0"
  shows "store_bytes a bs st = Ok (st\<lparr>ps_mem := (\<lambda>x. if a \<le> x \<and> x < a + length bs then bs ! (x - a) else ps_mem st x)\<rparr>)"
  using assms by (simp add: store_bytes_def list_all_iff)

lemma is_valid_page_dvd: "is_valid_page c \<longleftrightarrow> 4096 dvd unat c"
proof -
  have "c AND 4095 = take_bit 12 c" by (simp add: take_bit_eq_mask mask_eq_exp_minus_1)
  then show ?thesis
    using unat_take_bit [of 12 c] by (simp add: is_valid_page_def PAGE_SIZE_def unat_eq_zero [symmetric] dvd_eq_mod_eq_0)
qed

lemma valid_page_diff: "is_valid_page a \<Longrightarrow> is_valid_page b \<Longrightarrow> a \<le> b \<Longrightarrow> is_valid_page (b - a)"
  by (simp add: is_valid_page_dvd unat_sub_32 word_le_nat_alt)

definition jump_target :: "mem \<Rightarrow> u32 \<Rightarrow> u32 option" where
  "jump_target m a = (if m (unat a) = 0xe9 then Some (a + 5 + load32 m (unat a + 1)) else None)"

definition in_patch :: "u32 \<Rightarrow> nat \<Rightarrow> bool" where
  "in_patch u x \<longleftrightarrow> unat u \<le> x \<and> x < unat u + PATCH_SZ"

definition patched_mem :: "u32 \<Rightarrow> u32 \<Rightarrow> mem \<Rightarrow> mem" where
  "patched_mem u t m = store32 (m(unat u := 0xe9)) (unat u + 1) (t - (u + 5))"

lemma store_word_Ok:
  assumes "\<And>x. a \<le> x \<Longrightarrow> x < a + 4 \<Longrightarrow> ps_prot st x AND Proc_Maps.PROT_WRITE \<noteq> 0"
  shows "store_bytes a [ucast d, ucast (drop_bit 8 d), ucast (drop_bit 16 d), ucast (drop_bit 24 d)] st =
    Ok (st\<lparr>ps_mem := store32 (ps_mem st) a d\<rparr>)"
proof -
  have nth4: "(if a \<le> x \<and> x < a + 4 then [b0, b1, b2, b3] ! (x - a) else f x) =
      (f(a := b0, a + 1 := b1, a + 2 := b2, a + 3 := b3)) x" for a x :: nat and b0 b1 b2 b3 :: byte and f
  proof (cases "a \<le> x \<and> x < a + 4")
    case True
    then have "x - a \<in> {0, 1, 2, 3}" and "x = a + (x - a)" by auto
    then show ?thesis using True by (elim insertE) (auto simp: numeral_2_eq_2 numeral_3_eq_3)
  qed auto
  have len: "length [b0, b1, b2, b3] = 4" for b0 b1 b2 b3 :: byte by simp
  show ?thesis
    by (subst store_bytes_Ok) (simp_all only: len nth4 store32_def assms not_False_eq_True)
qed

lemma do_patch_Ok:
  assumes "\<And>x. in_patch u x \<Longrightarrow> ps_prot st x AND Proc_Maps.PROT_WRITE \<noteq> 0"
  shows "do_patch u t st = Ok (st\<lparr>ps_mem := patched_mem u t (ps_mem st)\<rparr>)"
proof -
  have "store_bytes (unat u) [0xe9] st = Ok (st\<lparr>ps_mem := (ps_mem st)(unat u := 0xe9)\<rparr>)"
    using assms by (subst store_bytes_Ok) (auto simp: in_patch_def PATCH_SZ_def fun_eq_iff)
  then show ?thesis
    using assms by (simp add: do_patch_def Let_def store_word_Ok patched_mem_def in_patch_def PATCH_SZ_def)
qed

lemma patched_mem_jump: "jump_target (patched_mem u t m) u = Some t"
  by (simp add: jump_target_def patched_mem_def load_store32) (simp add: store32_def)

lemma patched_mem_outside: "\<not> in_patch u x \<Longrightarrow> patched_mem u t m x = m x"
  by (auto simp: in_patch_def PATCH_SZ_def patched_mem_def store32_def)

lemma lookup_entry:
  assumes "maps_agree pk ls" "find (contains u) (entries 0 ls) = Some e"
  obtains h h' where "read_self_procmap pk = Ok h" "find_in_map_by_addr frame h u = Ok (e, h')"
proof -
  note m = assms(1) [unfolded maps_agree_def]
  have ne: "maps_text ls \<noteq> []" using m by (cases ls) auto
  have h: "read_self_procmap pk = Ok (handler_at (maps_text ls) 0)"
    using m ne by (simp add: read_self_procmap_def read_procmap_def CASSERT_def init_map_handler_def handler_at_def)
  have "length (maps_text ls) < 2 ^ 32" using m by (simp add: MAX_PROC_MAPS_FILE_SIZE_def)
  from find_addr_loop_first [of ls 0 "maps_text ls" frame u, OF _ _ _ this ne] m assms(2) obtain h' where
    "find_addr_loop frame (handler_at (maps_text ls) 0) u = Ok (e, h')" by auto
  then have "find_in_map_by_addr frame (handler_at (maps_text ls) 0) u = Ok (e, h')"
    by (simp add: find_in_map_by_addr_def reset_map_handler_def handler_at_def)
  with h show thesis by (rule that)
qed

lemma scratch_pages:
  assumes "mmap_spec mmap" "munmap_spec munmap" "xalloc_pages mmap sz False vm = Ok (p, vm')" "ALIGN_UP sz PAGE_SIZE = sz"
  shows "xdealloc_pages munmap p sz vm' = Ok vm"
proof -
  note a = assms(4)
  from assms(3) obtain prot where "mmap vm sz prot = (p, vm')" "is_valid_page p"
    by (auto simp: xalloc_pages_def a run_simps Let_def split: prod.splits)
  then have "bytes p sz \<inter> vm = {}" "vm' = vm \<union> bytes p sz" "is_valid_page p"
    using assms(1) unfolding mmap_spec_def by blast+
  then show ?thesis using assms(2) by (auto simp: xdealloc_pages_def a munmap_spec_def)
qed

definition hooked :: "u32 \<Rightarrow> u32 \<Rightarrow> proc_maps_entry_t \<Rightarrow> patch_state \<Rightarrow> patch_state" where
  "hooked t u e st = st\<lparr>ps_mem := patched_mem u t (ps_mem st), patch_begin := u,
    saved_patch_bytes := bytes_at (ps_mem st) (unat u) PATCH_SZ,
    reprotect_addr_start := pm_start e, reprotect_sz := pm_end e - pm_start e, old_prot := pm_prot e\<rparr>"

lemma area_patch:
  assumes "pm_start e \<le> u" "unat u + PATCH_SZ < unat (pm_end e)"
  shows "in_patch u x \<Longrightarrow> in_area (pm_start e) (pm_end e - pm_start e) x"
  using assms by (simp add: in_patch_def in_area_def unat_sub_32 word_le_nat_alt)

lemma reprotected:
  assumes "area_agrees e st"
  shows "(\<lambda>x. if in_area (pm_start e) (pm_end e - pm_start e) x then pm_prot e else ps_prot st x) = ps_prot st"
  using assms by (auto simp: area_agrees_def fun_eq_iff)

lemma patch_user_entry_Ok:
  assumes spec: "mmap_spec mmap" "munmap_spec munmap" "mprotect_spec mprotect"
    and page: "xalloc_pages mmap (word_of_nat MAX_PROC_MAPS_FILE_SIZE) False (ps_vm st) = Ok (p, vm)" "p \<noteq> 0"
    and maps: "maps_agree pk ls" "find (contains u) (entries 0 ls) = Some e" "area_agrees e st"
    and room: "unat u + PATCH_SZ < unat (pm_end e)"
  shows "patch_user_entry mmap munmap mprotect pk frame t u st = Ok (hooked t u e st)"
proof -
  let ?a = "pm_start e" and ?sz = "pm_end e - pm_start e"
  from lookup_entry [OF maps(1,2), of frame] obtain h h' where
    h: "read_self_procmap pk = Ok h" "find_in_map_by_addr frame h u = Ok (e, h')" .
  have c: "?a \<le> u" "u < pm_end e" using maps(2) by (auto simp: find_Some_iff contains_def)
  have al: "ALIGN_UP (word_of_nat MAX_PROC_MAPS_FILE_SIZE) PAGE_SIZE = word_of_nat MAX_PROC_MAPS_FILE_SIZE"
    by (simp add: ALIGN_UP_def ALIGN_DOWN_def PAGE_SIZE_def MAX_PROC_MAPS_FILE_SIZE_def)
  note vm = scratch_pages [OF spec(1,2) page(1) al]
  have pages: "is_valid_page ?a" "is_valid_page ?sz" "\<And>x. in_area ?a ?sz x \<Longrightarrow> x \<in> ps_vm st"
    using maps(3) c valid_page_diff [of ?a "pm_end e"] unfolding area_agrees_def by auto
  note prot = protect_Ok [OF spec(3) pages(1,2)]
  have "unat u + unat (5 :: u32) < 2 ^ 32"
    using less_trans [OF room unat_less_32 [of "pm_end e"]] by (simp add: PATCH_SZ_def)
  then have "unat (u + word_of_nat PATCH_SZ) = unat u + PATCH_SZ"
    using unat_add_32 [of u 5] by (simp add: PATCH_SZ_def)
  then have fit: "\<not> u + word_of_nat PATCH_SZ \<ge> pm_end e" using room by (simp add: word_le_nat_alt)
  show ?thesis
    using reprotected [OF maps(3)] area_patch [OF c(1) room] writable
    by (simp add: patch_user_entry_def page h c fit CASSERT_def vm prot pages(3) arch_patch_user_entry_def do_patch_Ok hooked_def
        Let_def cong: if_cong)
qed

lemma store_saved_Ok:
  assumes "\<And>x. in_patch u x \<Longrightarrow> ps_prot st x AND Proc_Maps.PROT_WRITE \<noteq> 0"
  shows "store_bytes (unat u) (bytes_at m0 (unat u) PATCH_SZ) st =
    Ok (st\<lparr>ps_mem := \<lambda>x. if in_patch u x then m0 x else ps_mem st x\<rparr>)"
proof -
  have "length (bytes_at m0 (unat u) PATCH_SZ) = PATCH_SZ" by (simp add: bytes_at_def)
  moreover have "(if unat u \<le> x \<and> x < unat u + PATCH_SZ then bytes_at m0 (unat u) PATCH_SZ ! (x - unat u) else ps_mem st x) =
      (if in_patch u x then m0 x else ps_mem st x)" for x
    by (auto simp: in_patch_def bytes_at_def less_diff_conv2)
  ultimately show ?thesis
    by (subst store_bytes_Ok) (use assms in \<open>simp_all add: in_patch_def\<close>)
qed

lemma unpatch_user_entry_Ok:
  assumes spec: "mprotect_spec mprotect" and area: "area_agrees e st" and c: "pm_start e \<le> u" "unat u + PATCH_SZ < unat (pm_end e)"
  shows "unpatch_user_entry mprotect ((hooked t u e st)\<lparr>ps_mem := m\<rparr>) =
    Ok ((hooked t u e st)\<lparr>ps_mem := \<lambda>x. if in_patch u x then ps_mem st x else m x\<rparr>)"
proof -
  let ?a = "pm_start e" and ?sz = "pm_end e - pm_start e"
  have pages: "is_valid_page ?a" "is_valid_page ?sz" "\<And>x. in_area ?a ?sz x \<Longrightarrow> x \<in> ps_vm st" and ne: "?a \<noteq> 0" "u \<noteq> 0"
    using area c valid_page_diff [of ?a "pm_end e"] unfolding area_agrees_def by (auto simp: word_le_nat_alt unat_eq_zero)
  note prot = protect_Ok [OF spec pages(1,2)]
  show ?thesis
    using reprotected [OF area] area_patch [OF c] writable
    by (simp add: unpatch_user_entry_def hooked_def ne prot pages(3) store_saved_Ok cong: if_cong)
qed

text \<open>
  C13.  The hook at the entry point.  Let the memory map of the process agree with its state, the
  entry point lie in an area of it more than five bytes before its end, and the kernel give out the
  scratch pages.  Then \<^verbatim>\<open>patch_user_entry\<close> returns: the entry now holds a jump to the
  loader's entry, no other byte of memory, no protection and no mapping has changed.  When the
  program arrives there later, with any other memory contents, \<^verbatim>\<open>unpatch_user_entry\<close> puts the
  original five bytes back, changes no other byte, and leaves protections and mappings as they were.
\<close>

theorem user_entry_hook:
  assumes "mmap_spec mmap" "munmap_spec munmap" "mprotect_spec mprotect"
    "xalloc_pages mmap (word_of_nat MAX_PROC_MAPS_FILE_SIZE) False (ps_vm st) = Ok (p, vm)" "p \<noteq> 0"
    "maps_agree pk ls" "find (contains u) (entries 0 ls) = Some e" "area_agrees e st"
    "unat u + PATCH_SZ < unat (pm_end e)"
  shows "\<exists>st'. patch_user_entry mmap munmap mprotect pk frame t u st = Ok st' \<and>
    jump_target (ps_mem st') u = Some t \<and> (\<forall>x. \<not> in_patch u x \<longrightarrow> ps_mem st' x = ps_mem st x) \<and>
    ps_prot st' = ps_prot st \<and> ps_vm st' = ps_vm st \<and>
    (\<forall>m. unpatch_user_entry mprotect (st'\<lparr>ps_mem := m\<rparr>) =
      Ok (st'\<lparr>ps_mem := \<lambda>x. if in_patch u x then ps_mem st x else m x\<rparr>))"
proof -
  have "pm_start e \<le> u" using assms(7) by (auto simp: find_Some_iff contains_def)
  note unpatch = unpatch_user_entry_Ok [OF assms(3,8) this assms(9), where t = t]
  show ?thesis
    by (rule exI [of _ "hooked t u e st"])
      (simp add: patch_user_entry_Ok [OF assms] unpatch, simp add: hooked_def patched_mem_jump patched_mem_outside)
qed

text \<open>A kernel for the witness: one area, 08048000 to 08049000, readable and executable.\<close>

definition demo_mprotect :: mprotect where
  "demo_mprotect a sz prot vm p = (0, \<lambda>x. if in_area a sz x then prot else p x)"

definition demo_proc :: proc_calls where
  "demo_proc = \<lparr>pc_open = (\<lambda>_. 3), pc_read = (\<lambda>fd n. (int (length (maps_text [demo_line])), maps_text [demo_line]))\<rparr>"

definition demo_patch_state :: patch_state where
  "demo_patch_state = \<lparr>ps_mem = (\<lambda>_. 0x90), ps_prot = (\<lambda>_. 5), ps_vm = bytes 0x08048000 0x1000,
    reprotect_addr_start = 0, reprotect_sz = 0, old_prot = 0, patch_begin = 0, saved_patch_bytes = []\<rparr>"

lemma demo_entry:
  "pm_start (line_entry demo_line 0) = 0x08048000" "pm_end (line_entry demo_line 0) = 0x08049000"
  "pm_prot (line_entry demo_line 0) = 5"
  by (simp_all add: line_entry_def demo_line_def num_of_def digit_of_def line_prot_def Proc_Maps.PROT_READ_def Proc_Maps.PROT_EXEC_def)

theorem user_entry_hook_witness:
  "\<exists>st'. patch_user_entry demo_mmap demo_munmap demo_mprotect demo_proc (\<lambda>_. 0) 0x10000 0x8048010 demo_patch_state = Ok st' \<and>
    jump_target (ps_mem st') 0x8048010 = Some 0x10000 \<and>
    (\<forall>x. \<not> in_patch 0x8048010 x \<longrightarrow> ps_mem st' x = ps_mem demo_patch_state x) \<and>
    ps_prot st' = ps_prot demo_patch_state \<and> ps_vm st' = ps_vm demo_patch_state \<and>
    (\<forall>m. unpatch_user_entry demo_mprotect (st'\<lparr>ps_mem := m\<rparr>) =
      Ok (st'\<lparr>ps_mem := \<lambda>x. if in_patch 0x8048010 x then ps_mem demo_patch_state x else m x\<rparr>))"
proof (rule user_entry_hook [OF demo_mmap_spec, where e = "line_entry demo_line 0" and ls = "[demo_line]" and p = "0x10000000"])
  show "munmap_spec demo_munmap" by (simp add: munmap_spec_def demo_munmap_def)
  show "mprotect_spec demo_mprotect" by (simp add: mprotect_spec_def demo_mprotect_def)
  show "xalloc_pages demo_mmap (word_of_nat MAX_PROC_MAPS_FILE_SIZE) False (ps_vm demo_patch_state) =
      Ok (0x10000000, bytes 0x08048000 0x1000 \<union> bytes 0x10000000 0x100000)"
    by (simp add: xalloc_pages_def demo_mmap_def demo_patch_state_def MAX_PROC_MAPS_FILE_SIZE_def PAGE_SIZE_def
        ALIGN_UP_def ALIGN_DOWN_def is_valid_page_def bytes_def)
  show "maps_agree demo_proc [demo_line]"
    using demo_line_ok by (simp add: maps_agree_def demo_proc_def MAX_PROC_MAPS_FILE_SIZE_def)
      (simp add: line_text_def line_head_def demo_line_def)
  show "find (contains 0x8048010) (entries 0 [demo_line]) = Some (line_entry demo_line 0)"
    by (simp add: contains_def demo_entry)
  show "area_agrees (line_entry demo_line 0) demo_patch_state"
    by (auto simp: area_agrees_def demo_entry demo_patch_state_def is_valid_page_def PAGE_SIZE_def in_area_def bytes_def)
qed (simp_all add: demo_entry PATCH_SZ_def)

end
