(* ===== verification/Startup_Stack.thy ===== *)
theory Startup_Stack
  imports Proc_Maps
begin

text \<open>
  The stack a process starts with (\<^verbatim>\<open>src/core/loader/startup_stack.c\<close>): the number of
  arguments, the pointers to the arguments and to the environment strings, each list ended by a null
  pointer, and the auxiliary vector of pairs of words, ended by \<^verbatim>\<open>AT_NULL\<close>.  The loader
  finds these parts by walking over the words.  The walks do not end on a stack without
  terminators: they are partial, and \<open>None\<close> means that they run on.  Pointers are addresses of the
  memory; 0 is the null pointer, and using it faults.
\<close>

subsection \<open>The scan\<close>

record auxv_info =
  p_user_entry :: nat
  pp_user_phdrs :: nat
  p_nr_user_phdrs :: nat
  p_base :: nat
  p_execfn :: nat
  p_sysinfo :: nat
  pp_sysinfo_ehdr :: nat

record startup_stack_info =
  p_argc :: nat
  p_args :: nat
  p_envs :: nat
  p_auxvs :: nat
  cmdline_argbegin :: nat
  cmdline_argend :: nat
  envbegin :: nat
  envend :: nat
  bottom_exec_fn :: nat
  auxv_info :: auxv_info

definition startup_auxv_info :: auxv_info where
  "startup_auxv_info = \<lparr>p_user_entry = 0, pp_user_phdrs = 0, p_nr_user_phdrs = 0, p_base = 0, p_execfn = 0,
    p_sysinfo = 0, pp_sysinfo_ehdr = 0\<rparr>"

definition AT_NULL :: u32 where "AT_NULL = 0"
definition AT_PHDR :: u32 where "AT_PHDR = 3"
definition AT_PHENT :: u32 where "AT_PHENT = 4"
definition AT_PHNUM :: u32 where "AT_PHNUM = 5"
definition AT_BASE :: u32 where "AT_BASE = 7"
definition AT_ENTRY :: u32 where "AT_ENTRY = 9"
definition AT_EXECFN :: u32 where "AT_EXECFN = 31"
definition AT_SYSINFO :: u32 where "AT_SYSINFO = 32"
definition AT_SYSINFO_EHDR :: u32 where "AT_SYSINFO_EHDR = 33"

lemmas at_defs = AT_NULL_def AT_PHDR_def AT_PHENT_def AT_PHNUM_def AT_BASE_def AT_ENTRY_def AT_EXECFN_def
  AT_SYSINFO_def AT_SYSINFO_EHDR_def

text \<open>The size of \<^verbatim>\<open>struct elf_phdr\<close> is 32.\<close>

definition sizeof_elf_phdr :: u32 where "sizeof_elf_phdr = 32"

definition set_auxvinfo :: "u32 \<Rightarrow> nat \<Rightarrow> auxv_info \<Rightarrow> auxv_info" where
  "set_auxvinfo t p a =
    (if t = AT_ENTRY then a\<lparr>p_user_entry := p\<rparr>
     else if t = AT_BASE then a\<lparr>p_base := p\<rparr>
     else if t = AT_PHDR then a\<lparr>pp_user_phdrs := p\<rparr>
     else if t = AT_PHNUM then a\<lparr>p_nr_user_phdrs := p\<rparr>
     else if t = AT_EXECFN then a\<lparr>p_execfn := p\<rparr>
     else if t = AT_SYSINFO then a\<lparr>p_sysinfo := p\<rparr>
     else if t = AT_SYSINFO_EHDR then a\<lparr>pp_sysinfo_ehdr := p\<rparr>
     else a)"

partial_function (option) auxv_loop :: "mem \<Rightarrow> nat \<Rightarrow> auxv_info \<Rightarrow> auxv_info run option" where
  "auxv_loop m p a =
    (if load32 m p \<noteq> AT_NULL then
       if load32 m p = AT_PHENT \<and> load32 m (p + 4) \<noteq> sizeof_elf_phdr then Some (Stop Assertion)
       else auxv_loop m (p + 8) (set_auxvinfo (load32 m p) (p + 4) a)
     else Some (Ok a))"

definition init_auxv_info :: "mem \<Rightarrow> nat \<Rightarrow> auxv_info run option" where
  "init_auxv_info m p = auxv_loop m p startup_auxv_info"

partial_function (option) skip_pointers :: "mem \<Rightarrow> nat \<Rightarrow> nat option" where
  "skip_pointers m ptr = (if load32 m ptr \<noteq> 0 then skip_pointers m (ptr + 4) else Some ptr)"

partial_function (option) skip_nuls :: "mem \<Rightarrow> nat \<Rightarrow> nat option" where
  "skip_nuls m cptr = (if m cptr = 0 then skip_nuls m (cptr + 1) else Some cptr)"

definition bindO :: "'a run option \<Rightarrow> ('a \<Rightarrow> 'b run option) \<Rightarrow> 'b run option" where
  "bindO x f = Option.bind x (\<lambda>r. case r of Inl e \<Rightarrow> Some (Stop e) | Inr a \<Rightarrow> f a)"

lemma bindO_simps [simp]:
  "bindO (Some (Ok a)) f = f a" "bindO (Some (Stop e)) f = Some (Stop e)" "bindO None f = None"
  by (simp_all add: bindO_def)

definition strlen_ptr :: "mem \<Rightarrow> nat \<Rightarrow> nat run option" where
  "strlen_ptr m p = (if p = 0 then Some (Stop Segv) else map_option Ok (strlen m p))"

definition scan_startup_stack :: "mem \<Rightarrow> nat \<Rightarrow> startup_stack_info run option" where
  "scan_startup_stack m stack_top =
    (let argc = sint (load32 m stack_top); args = stack_top + 4
     in Option.bind (skip_pointers m args) (\<lambda>ptr.
        let envs = ptr + 4; firstenv = unat (load32 m envs)
        in Option.bind (skip_pointers m envs) (\<lambda>ptr.
           let lastenv = unat (load32 m (ptr - 4)); auxvs = ptr + 4
           in bindO (init_auxv_info m auxvs) (\<lambda>aux.
              let argbegin = unat (load32 m args);
                  lastarg = unat (load32 m (nat (int args + 4 * (argc - 1))))
              in bindO (strlen_ptr m lastarg) (\<lambda>n. bindO (strlen_ptr m lastenv) (\<lambda>n'.
                 Option.bind (skip_nuls m (lastenv + n' + 1)) (\<lambda>cptr.
                   Some (Ok \<lparr>p_argc = stack_top, p_args = args, p_envs = envs, p_auxvs = auxvs,
                     cmdline_argbegin = argbegin, cmdline_argend = lastarg + n + 1,
                     envbegin = firstenv, envend = lastenv + n' + 1, bottom_exec_fn = cptr,
                     auxv_info = aux\<rparr>))))))))"

subsection \<open>The layout the kernel prepares\<close>

fun words_at :: "mem \<Rightarrow> nat \<Rightarrow> u32 list \<Rightarrow> bool" where
  "words_at m p [] = True"
| "words_at m p (w # ws) = (load32 m p = w \<and> words_at m (p + 4) ws)"

lemma words_at_append: "words_at m p (ws @ vs) \<longleftrightarrow> words_at m p ws \<and> words_at m (p + 4 * length ws) vs"
  by (induction ws arbitrary: p) (auto simp: add.assoc)

lemma words_at_nth: "words_at m p ws \<Longrightarrow> i < length ws \<Longrightarrow> load32 m (p + 4 * i) = ws ! i"
proof (induction ws arbitrary: p i)
  case (Cons w ws)
  show ?case
  proof (cases i)
    case (Suc j)
    then show ?thesis using Cons.IH [of "p + 4" j] Cons.prems by (simp add: add.assoc)
  qed (use Cons.prems in simp)
qed simp

record stack_image =
  si_args :: "(u32 \<times> byte list) list"
  si_envs :: "(u32 \<times> byte list) list"
  si_auxv :: "(u32 \<times> u32) list"

definition string_table :: "mem \<Rightarrow> (u32 \<times> byte list) list \<Rightarrow> bool" where
  "string_table m ps \<longleftrightarrow> (\<forall>(p, s)\<in>set ps. p \<noteq> 0 \<and> cstr m (unat p) s)"

definition aux_words :: "(u32 \<times> u32) list \<Rightarrow> u32 list" where
  "aux_words xs = concat (map (\<lambda>(t, v). [t, v]) xs)"

definition envs_at :: "nat \<Rightarrow> stack_image \<Rightarrow> nat" where
  "envs_at sp im = sp + 4 * (length (si_args im) + 2)"

definition auxv_at :: "nat \<Rightarrow> stack_image \<Rightarrow> nat" where
  "auxv_at sp im = envs_at sp im + 4 * (length (si_envs im) + 1)"

definition stack_at :: "mem \<Rightarrow> nat \<Rightarrow> stack_image \<Rightarrow> bool" where
  "stack_at m sp im \<longleftrightarrow> length (si_args im) < 2 ^ 31
    \<and> load32 m sp = word_of_nat (length (si_args im))
    \<and> words_at m (sp + 4) (map fst (si_args im) @ [0])
    \<and> words_at m (envs_at sp im) (map fst (si_envs im) @ [0])
    \<and> words_at m (auxv_at sp im) (aux_words (si_auxv im) @ [AT_NULL])
    \<and> string_table m (si_args im) \<and> string_table m (si_envs im)
    \<and> (\<forall>(t, v)\<in>set (si_auxv im). t \<noteq> AT_NULL \<and> (t = AT_PHENT \<longrightarrow> v = sizeof_elf_phdr))"

text \<open>The address of the value of the last entry of a type, 0 if there is none.\<close>

fun aux_addr :: "nat \<Rightarrow> (u32 \<times> u32) list \<Rightarrow> u32 \<Rightarrow> nat \<Rightarrow> nat" where
  "aux_addr p [] t d = d"
| "aux_addr p (x # xs) t d = aux_addr (p + 8) xs t (if fst x = t then p + 4 else d)"

subsection \<open>Correctness of the scan\<close>

lemma skip_pointers_end: "words_at m p (ws @ [0]) \<Longrightarrow> 0 \<notin> set ws \<Longrightarrow> skip_pointers m p = Some (p + 4 * length ws)"
proof (induction ws arbitrary: p)
  case Nil
  then show ?case by (subst skip_pointers.simps) simp
next
  case (Cons w ws)
  then show ?case by (subst skip_pointers.simps) (simp add: add.assoc)
qed

lemma skip_nuls_end: "\<forall>i<n. m (p + i) = 0 \<Longrightarrow> m (p + n) \<noteq> 0 \<Longrightarrow> skip_nuls m p = Some (p + n)"
proof (induction n arbitrary: p)
  case 0
  then show ?case by (subst skip_nuls.simps) simp
next
  case (Suc n)
  have "skip_nuls m (p + 1) = Some (p + 1 + n)"
    by (rule Suc.IH) (use Suc.prems in \<open>auto dest: spec [of _ "Suc _"]\<close>)
  then show ?case using Suc.prems(1) by (subst skip_nuls.simps) (auto dest: spec [of _ 0])
qed

lemma auxv_loop_end:
  assumes "words_at m p (aux_words xs @ [AT_NULL])" "\<forall>(t, v)\<in>set xs. t \<noteq> AT_NULL \<and> (t = AT_PHENT \<longrightarrow> v = sizeof_elf_phdr)"
  shows "auxv_loop m p a = Some (Ok \<lparr>p_user_entry = aux_addr p xs AT_ENTRY (p_user_entry a),
    pp_user_phdrs = aux_addr p xs AT_PHDR (pp_user_phdrs a), p_nr_user_phdrs = aux_addr p xs AT_PHNUM (p_nr_user_phdrs a),
    p_base = aux_addr p xs AT_BASE (p_base a), p_execfn = aux_addr p xs AT_EXECFN (p_execfn a),
    p_sysinfo = aux_addr p xs AT_SYSINFO (p_sysinfo a), pp_sysinfo_ehdr = aux_addr p xs AT_SYSINFO_EHDR (pp_sysinfo_ehdr a)\<rparr>)"
  using assms
proof (induction xs arbitrary: p a)
  case Nil
  then show ?case by (subst auxv_loop.simps) (simp add: aux_words_def)
next
  case (Cons x xs)
  obtain t v where x: "x = (t, v)" by (cases x)
  have w: "load32 m p = t" "load32 m (p + 4) = v" "words_at m (p + 8) (aux_words xs @ [AT_NULL])"
    using Cons.prems(1) by (simp_all add: x aux_words_def add.assoc)
  have "auxv_loop m p a = auxv_loop m (p + 8) (set_auxvinfo t (p + 4) a)"
    using Cons.prems(2) w by (subst auxv_loop.simps) (auto simp: x)
  then show ?case
    using Cons.IH [OF w(3), of "set_auxvinfo t (p + 4) a"] Cons.prems(2) by (simp add: x set_auxvinfo_def at_defs)
qed

text \<open>What the scan records of a well-formed stack; \<open>fn\<close> is the address of the first byte after the environment.\<close>

definition string_end :: "u32 \<times> byte list \<Rightarrow> nat" where
  "string_end = (\<lambda>(p, s). unat p + length s + 1)"

definition image_info :: "nat \<Rightarrow> stack_image \<Rightarrow> nat \<Rightarrow> startup_stack_info" where
  "image_info sp im fn = (let aux = auxv_at sp im; a = \<lambda>t. aux_addr aux (si_auxv im) t 0 in
    \<lparr>p_argc = sp, p_args = sp + 4, p_envs = envs_at sp im, p_auxvs = aux,
     cmdline_argbegin = unat (fst (hd (si_args im))), cmdline_argend = string_end (last (si_args im)),
     envbegin = unat (fst (hd (si_envs im))), envend = string_end (last (si_envs im)), bottom_exec_fn = fn,
     auxv_info = \<lparr>p_user_entry = a AT_ENTRY, pp_user_phdrs = a AT_PHDR, p_nr_user_phdrs = a AT_PHNUM, p_base = a AT_BASE,
       p_execfn = a AT_EXECFN, p_sysinfo = a AT_SYSINFO, pp_sysinfo_ehdr = a AT_SYSINFO_EHDR\<rparr>\<rparr>)"

lemma string_table_nonnull: "string_table m ps \<Longrightarrow> 0 \<notin> set (map fst ps)"
  by (force simp: string_table_def)

lemma strlen_ptr_table:
  assumes "string_table m ps" "(p, s) \<in> set ps"
  shows "strlen_ptr m (unat p) = Some (Ok (length s))"
  using assms by (auto simp: string_table_def strlen_ptr_def unat_eq_zero)

lemma scan_parts:
  assumes st: "stack_at m sp im"
  shows "skip_pointers m (sp + 4) = Some (envs_at sp im - 4)" "envs_at sp im - 4 + 4 = envs_at sp im"
    "skip_pointers m (envs_at sp im) = Some (auxv_at sp im - 4)" "auxv_at sp im - 4 + 4 = auxv_at sp im"
    "sint (load32 m sp) = int (length (si_args im))"
proof -
  note s = st [unfolded stack_at_def]
  show "skip_pointers m (sp + 4) = Some (envs_at sp im - 4)" "envs_at sp im - 4 + 4 = envs_at sp im"
    using skip_pointers_end [of m "sp + 4" "map fst (si_args im)"] s string_table_nonnull [of m "si_args im"]
    by (simp_all add: envs_at_def)
  show "skip_pointers m (envs_at sp im) = Some (auxv_at sp im - 4)" "auxv_at sp im - 4 + 4 = auxv_at sp im"
    using skip_pointers_end [of m "envs_at sp im" "map fst (si_envs im)"] s string_table_nonnull [of m "si_envs im"]
    by (simp_all add: auxv_at_def)
  show "sint (load32 m sp) = int (length (si_args im))"
    using s by (simp add: signed_of_nat signed_take_bit_int_eq_self)
qed

lemma table_words:
  assumes "words_at m p (map fst ps @ [0])" "ps \<noteq> []"
  shows "load32 m p = fst (hd ps)" "load32 m (p + 4 * (length ps - 1)) = fst (last ps)"
  using words_at_nth [OF assms(1), of 0] words_at_nth [OF assms(1), of "length ps - 1"] assms(2)
  by (simp_all add: nth_append hd_conv_nth last_conv_nth)

lemma scan_prefix:
  assumes st: "stack_at m sp im" and args: "si_args im \<noteq> []"
  shows "scan_startup_stack m sp = (let lastenv = unat (load32 m (auxv_at sp im - 8)) in
    bindO (strlen_ptr m lastenv) (\<lambda>n'. Option.bind (skip_nuls m (lastenv + n' + 1)) (\<lambda>cptr.
      Some (Ok ((image_info sp im cptr)\<lparr>envbegin := unat (load32 m (envs_at sp im)), envend := lastenv + n' + 1\<rparr>)))))"
proof -
  note s = st [unfolded stack_at_def] and p = scan_parts [OF st]
  obtain a where a: "last (si_args im) = a" "a \<in> set (si_args im)" using args by simp
  have w: "load32 m (sp + 4) = fst (hd (si_args im))" "load32 m (sp + 4 + 4 * (length (si_args im) - 1)) = fst (last (si_args im))"
    using table_words [of m "sp + 4" "si_args im"] s args by simp_all
  have i: "nat (int (sp + 4) + 4 * (int (length (si_args im)) - 1)) = sp + 4 + 4 * (length (si_args im) - 1)"
    using args by (cases "si_args im") (simp_all add: nat_eq_iff)
  have len: "strlen_ptr m (unat (fst (last (si_args im)))) = Some (Ok (length (snd (last (si_args im)))))"
    using strlen_ptr_table [of m "si_args im" "fst a" "snd a"] s a by simp
  have aux: "init_auxv_info m (auxv_at sp im) = Some (Ok (startup_stack_info.auxv_info (image_info sp im 0)))"
    unfolding init_auxv_info_def
    by (subst auxv_loop_end [of m "auxv_at sp im" "si_auxv im"])
      (use s in \<open>simp_all add: image_info_def startup_auxv_info_def Let_def\<close>)
  have sub: "auxv_at sp im - 4 - 4 = auxv_at sp im - 8" by simp
  show ?thesis
    unfolding scan_startup_stack_def Let_def p bind.simps p(2) p(4) sub aux bindO_simps i w len
    by (simp add: image_info_def string_end_def Let_def split_def)
qed

lemma scan_image:
  assumes "stack_at m sp im" "si_args im \<noteq> []" "si_envs im \<noteq> []"
    "\<forall>i<n. m (string_end (last (si_envs im)) + i) = 0" "m (string_end (last (si_envs im)) + n) \<noteq> 0"
  shows "scan_startup_stack m sp = Some (Ok (image_info sp im (string_end (last (si_envs im)) + n)))"
proof -
  note s = assms(1) [unfolded stack_at_def]
  obtain e where e: "last (si_envs im) = e" "e \<in> set (si_envs im)" using assms(3) by simp
  have "auxv_at sp im - 8 = envs_at sp im + 4 * (length (si_envs im) - 1)"
    using assms(3) by (cases "si_envs im") (simp_all add: auxv_at_def)
  then have w: "load32 m (envs_at sp im) = fst (hd (si_envs im))" "load32 m (auxv_at sp im - 8) = fst e"
    using table_words [of m "envs_at sp im" "si_envs im"] s assms(3) e by simp_all
  have "strlen_ptr m (unat (fst e)) = Some (Ok (length (snd e)))"
    using strlen_ptr_table [of m "si_envs im" "fst e" "snd e"] s e by simp
  moreover have "unat (fst e) + length (snd e) + 1 = string_end e" by (simp add: string_end_def split_def)
  moreover have "skip_nuls m (string_end e) = Some (string_end e + n)" using assms(4,5) e by (intro skip_nuls_end) auto
  ultimately show ?thesis
    unfolding scan_prefix [OF assms(1,2)] Let_def w e by (simp add: image_info_def Let_def e)
qed

text \<open>
  C32.  The scan of the startup stack.  On a stack as the kernel lays it out, with at least one
  argument and one environment string, \<^verbatim>\<open>scan_startup_stack\<close> returns and records the
  addresses of the argument count, the arguments, the environment and the auxiliary vector, the
  extent of the argument and of the environment strings, the first byte after them, and for each of
  the seven types of auxiliary entries the address of its value (null if absent, the last one if
  repeated).
\<close>

theorem scan_startup_stack_image:
  assumes "stack_at m sp im" "si_args im \<noteq> []" "si_envs im \<noteq> []"
    "\<forall>i<n. m (string_end (last (si_envs im)) + i) = 0" "m (string_end (last (si_envs im)) + n) \<noteq> 0"
  shows "scan_startup_stack m sp = Some (Ok (image_info sp im (string_end (last (si_envs im)) + n)))"
  by (rule scan_image [OF assms])

text \<open>
  C33.  An empty environment.  The scan then takes the null pointer that ends the arguments for
  the last environment string and asks for its length: the loader faults.
\<close>

theorem scan_empty_environment:
  assumes "stack_at m sp im" "si_args im \<noteq> []" "si_envs im = []"
  shows "scan_startup_stack m sp = Some (Stop Segv)"
proof -
  note s = assms(1) [unfolded stack_at_def]
  have "load32 m (sp + 4 + 4 * length (si_args im)) = 0"
    using words_at_nth [of m "sp + 4" "map fst (si_args im) @ [0]" "length (si_args im)"] s by (simp add: nth_append)
  moreover have "auxv_at sp im - 8 = sp + 4 + 4 * length (si_args im)"
    using assms(3) by (simp add: auxv_at_def envs_at_def)
  ultimately show ?thesis
    unfolding scan_prefix [OF assms(1,2)] by (simp add: strlen_ptr_def)
qed

text \<open>A stack with the argument ``a'', the environment string ``E'' and the two entries of the system call page.\<close>

definition demo_image :: stack_image where
  "demo_image = \<lparr>si_args = [(0x2000, [97])], si_envs = [(0x2002, [69])], si_auxv = [(32, 0x5000), (33, 0x6000)]\<rparr>"

definition demo_stack :: mem where
  "demo_stack = (store32 (store32 (store32 (store32 (store32 (store32 (store32 (\<lambda>_. 0)
    0x1000 1) 0x1004 0x2000) 0x100c 0x2002) 0x1014 32) 0x1018 0x5000) 0x101c 33) 0x1020 0x6000)
    (0x2000 := 97, 0x2002 := 69, 0x2005 := 47)"

lemma demo_stack_at: "stack_at demo_stack 0x1000 demo_image"
  by (simp add: stack_at_def demo_image_def envs_at_def auxv_at_def aux_words_def string_table_def cstr_def at_defs)
    (simp add: demo_stack_def load32_def store32_def)

theorem scan_startup_stack_image_witness:
  "scan_startup_stack demo_stack 0x1000 = Some (Ok (image_info 0x1000 demo_image (string_end (last (si_envs demo_image)) + 1)))"
  by (rule scan_startup_stack_image [OF demo_stack_at])
    (simp_all add: demo_image_def string_end_def demo_stack_def store32_def)

definition demo_bare_stack :: mem where
  "demo_bare_stack = (store32 (store32 (\<lambda>_. 0) 0x1000 1) 0x1004 0x2000)(0x2000 := 97)"

theorem scan_empty_environment_witness: "scan_startup_stack demo_bare_stack 0x1000 = Some (Stop Segv)"
  by (rule scan_empty_environment [of _ _ "\<lparr>si_args = [(0x2000, [97])], si_envs = [], si_auxv = []\<rparr>"])
    (simp_all add: stack_at_def envs_at_def auxv_at_def aux_words_def string_table_def cstr_def at_defs
      demo_bare_stack_def load32_def store32_def)

end
