(* ===== verification/Exception.thy ===== *)
theory Exception
  imports Prelude
begin

text \<open>
  Exceptions for the replayer (\<^verbatim>\<open>src/core/replay/exception.c\<close>, \<^verbatim>\<open>exception.h\<close>,
  \<^verbatim>\<open>exception_types.h\<close>): \<^verbatim>\<open>TRY\<close>, \<^verbatim>\<open>FINALLY\<close> and \<^verbatim>\<open>CATCH\<close> as macros
  over a stack of catchers, a small state machine and \<^verbatim>\<open>longjmp\<close>.

  The chain of catchers from \<^verbatim>\<open>curr_catcher_p\<close> through \<^verbatim>\<open>prev\<close> is a list; a jump
  buffer is a number, and a \<^verbatim>\<open>longjmp\<close> is an outcome that names the buffer it goes to.
  Exception objects live in a store, since the macros reach them through a pointer.  The model is
  that of the release build, without \<^verbatim>\<open>REBRANCH_DEBUG\<close>.
\<close>

subsection \<open>Data\<close>

datatype exception_type =
    EXP_NO_EXCEPTION
  | EXP_WRONG_CKPT | EXP_CKPT_REGION_NOT_FOUND | EXP_FILE_NOT_FOUND | EXP_FILE_READ_ERROR | EXP_FILE_WRITE_ERROR
  | EXP_FILE_END | EXP_FILE_CORRUPTED | EXP_LZO_INFLATE | EXP_OUT_OF_MEMORY | EXP_PROC_MAPS
  | EXP_PROC_MAPS_REGION_NOT_FOUND | EXP_PTRACE | EXP_ELF | EXP_ELF_SYMBOL_NOT_FOUND
  | EXP_SOCKPAIR_ERROR | EXP_SOCKPAIR_UNRECOVERABLE | EXP_SOCKPAIR_UNSYNC | EXP_SOCKPAIR_TIMEOUT
  | EXP_RESTORE_CHILD
  | EXP_GDBSERVER_EXIT | EXP_GDBSERVER__EXIT | EXP_GDBSERVER_TARGET_SIGNALED | EXP_GDBSERVER_ERROR | EXP_GDBSERVER_DETACH
  | EXP_LOG_CORRUPTED | EXP_LOG_END | EXP_SYSCALL_REPLAYER | EXP_UNIMPLEMENTED
  | EXP_IO | EXP_CHDIR | EXP_FORK | EXP_UNMATCH_CKPT | EXP_WRONG_INST | EXP_CHILD_EXIT
  | EXP_UNCATCHABLE

datatype exception_level = EXP_LV_NONE | EXP_LV_LOWEST | EXP_LV_TAINTED | EXP_LV_FATAL | EXP_LV_UNCATCHABLE

definition EXCEPTION_MSG_LEN_MAX :: nat where "EXCEPTION_MSG_LEN_MAX = 512"

record exception_t =
  exp_type :: exception_type
  exp_msg :: string
  exp_val :: u32
  throw_time_errno :: u32
  exp_level :: exception_level

datatype catcher_action = CATCH_ITER_0 | CATCH_FINALLY | CATCH_THROW

datatype catcher_state = CATCHER_INIT | CATCHER_EXEC_BODY | CATCHER_WAIT_FINALLY | CATCHER_THROWN

record catcher_t =
  c_buf :: nat
  c_state :: catcher_state
  curr_exp :: nat

record exc_state =
  catchers :: "catcher_t list"
  exps :: "nat \<Rightarrow> exception_t"
  errno :: u32

subsection \<open>The functions of exception.c\<close>

definition push_catcher :: "catcher_t \<Rightarrow> exc_state \<Rightarrow> exc_state" where
  "push_catcher c x = x\<lparr>catchers := c # catchers x\<rparr>"

definition pop_catcher :: "exc_state \<Rightarrow> exc_state run" where
  "pop_catcher x = bindR (assert_that (catchers x \<noteq> [])) (\<lambda>_. Ok (x\<lparr>catchers := tl (catchers x)\<rparr>))"

definition no_exception :: exception_t where
  "no_exception = \<lparr>exp_type = EXP_NO_EXCEPTION, exp_msg = [], exp_val = 0, throw_time_errno = 0, exp_level = EXP_LV_NONE\<rparr>"

definition init_set_exception :: "nat \<Rightarrow> nat \<Rightarrow> exc_state \<Rightarrow> catcher_t \<times> exc_state" where
  "init_set_exception buf e x =
    (\<lparr>c_buf = buf, c_state = CATCHER_INIT, curr_exp = e\<rparr>, x\<lparr>exps := (exps x)(e := no_exception)\<rparr>)"

text \<open>The result is the jump buffer of the new catcher, numbered by its depth.\<close>

definition exceptions_state_mc_init :: "nat \<Rightarrow> exc_state \<Rightarrow> nat \<times> exc_state" where
  "exceptions_state_mc_init e x =
    (let buf = length (catchers x); (c, x) = init_set_exception buf e x in (buf, push_catcher c x))"

definition set_state :: "catcher_state \<Rightarrow> exc_state \<Rightarrow> exc_state" where
  "set_state st x = x\<lparr>catchers := (hd (catchers x))\<lparr>c_state := st\<rparr> # tl (catchers x)\<rparr>"

definition exceptions_state_mc :: "catcher_action \<Rightarrow> exc_state \<Rightarrow> (bool \<times> exc_state) run" where
  "exceptions_state_mc action x =
    bindR (assert_that (catchers x \<noteq> [])) (\<lambda>_.
      case c_state (hd (catchers x)) of
        CATCHER_INIT \<Rightarrow>
          (case action of CATCH_ITER_0 \<Rightarrow> Ok (True, set_state CATCHER_EXEC_BODY x) | _ \<Rightarrow> Stop Fatal)
      | CATCHER_EXEC_BODY \<Rightarrow>
          (case action of
            CATCH_ITER_0 \<Rightarrow> Ok (False, set_state CATCHER_WAIT_FINALLY x)
          | CATCH_THROW \<Rightarrow> Ok (False, set_state CATCHER_THROWN x)
          | CATCH_FINALLY \<Rightarrow> bindR (pop_catcher x) (\<lambda>x. Ok (True, x)))
      | CATCHER_WAIT_FINALLY \<Rightarrow>
          (case action of CATCH_FINALLY \<Rightarrow> bindR (pop_catcher x) (\<lambda>x. Ok (True, x)) | _ \<Rightarrow> Stop Fatal)
      | CATCHER_THROWN \<Rightarrow>
          (case action of CATCH_ITER_0 \<Rightarrow> Ok (False, set_state CATCHER_WAIT_FINALLY x) | _ \<Rightarrow> Stop Fatal))"

text \<open>\<^verbatim>\<open>print_exception\<close> prints, which is not modelled, and clears \<^verbatim>\<open>errno\<close>.\<close>

definition print_exception :: "exc_state \<Rightarrow> exc_state" where
  "print_exception x = x\<lparr>errno := 0\<rparr>"

text \<open>\<open>msg\<close> is the formatted message; \<^verbatim>\<open>vsnprintf\<close> stores what fits the array with its NUL.\<close>

definition make_exception :: "exception_type \<Rightarrow> u32 \<Rightarrow> exception_level \<Rightarrow> string \<Rightarrow> u32 \<Rightarrow> exception_t" where
  "make_exception type val level msg err =
    \<lparr>exp_type = (if level = EXP_LV_UNCATCHABLE then EXP_UNCATCHABLE else type),
     exp_msg = take (EXCEPTION_MSG_LEN_MAX - 1) msg, exp_val = val, throw_time_errno = err, exp_level = level\<rparr>"

text \<open>The result is the buffer of the \<^verbatim>\<open>longjmp\<close> that ends the function.\<close>

definition throw_exception :: "exception_type \<Rightarrow> u32 \<Rightarrow> exception_level \<Rightarrow> string \<Rightarrow> exc_state \<Rightarrow> (nat \<times> exc_state) run" where
  "throw_exception type val level msg x =
    (let ex = make_exception type val level msg (errno x)
     in if catchers x = [] then Stop Fatal
        else let x = x\<lparr>exps := (exps x)(curr_exp (hd (catchers x)) := ex)\<rparr>
          in bindR (exceptions_state_mc CATCH_THROW x) (\<lambda>(_, x). Ok (c_buf (hd (catchers x)), x)))"

subsection \<open>Programs that use the macros\<close>

text \<open>
  A program over its own data \<open>'s\<close>: \<open>Act\<close> is code that neither throws nor leaves, \<open>Break\<close> a
  \<^verbatim>\<open>break\<close> out of the loop that \<^verbatim>\<open>TRY\<close> expands to; the numbers name exception
  objects.
\<close>

datatype 's stmt =
    Skip
  | Act "u32 \<times> 's \<Rightarrow> u32 \<times> 's"
  | Seq "'s stmt" "'s stmt"
  | Cond "'s \<Rightarrow> bool" "'s stmt" "'s stmt"
  | Break
  | THROW_EXCEPTION exception_type "'s \<Rightarrow> u32" exception_level "'s \<Rightarrow> string"
  | RETHROW nat
  | EAT_SMALL_EXP nat
  | TRY nat "'s stmt" "'s stmt" "'s stmt"

datatype outcome = Normal | Broke | Jump nat

type_synonym 's config = "exc_state \<times> 's"
type_synonym 's ran = "(outcome \<times> 's config) run option"

definition then_run :: "'a run option \<Rightarrow> ('a \<Rightarrow> 'b run option) \<Rightarrow> 'b run option" where
  "then_run m f = Option.bind m (\<lambda>r. case r of Inl e \<Rightarrow> Some (Stop e) | Inr a \<Rightarrow> f a)"

lemma then_run_simps [simp]:
  "then_run (Some (Ok a)) f = f a" "then_run (Some (Stop e)) f = Some (Stop e)" "then_run None f = None"
  by (simp_all add: then_run_def)

text \<open>The loop of \<^verbatim>\<open>TRY\<close>: a jump to its own buffer resumes at the loop condition.\<close>

partial_function (option) try_loop :: "('s config \<Rightarrow> 's ran) \<Rightarrow> nat \<Rightarrow> 's config \<Rightarrow> 's ran" where
  "try_loop body buf c =
    (case exceptions_state_mc CATCH_ITER_0 (fst c) of
      Inl e \<Rightarrow> Some (Stop e)
    | Inr (go, x) \<Rightarrow>
       if \<not> go then Some (Ok (Normal, x, snd c))
       else Option.bind (body (x, snd c)) (\<lambda>r.
         case r of
           Inl e \<Rightarrow> Some (Stop e)
         | Inr (Normal, c) \<Rightarrow> try_loop body buf c
         | Inr (Broke, c) \<Rightarrow> Some (Ok (Normal, c))
         | Inr (Jump b, c) \<Rightarrow> if b = buf then try_loop body buf c else Some (Ok (Jump b, c))))"

definition jumping :: "'s \<Rightarrow> (nat \<times> exc_state) run \<Rightarrow> 's ran" where
  "jumping d r = Some (bindR r (\<lambda>(b, x). Ok (Jump b, x, d)))"

text \<open>\<^verbatim>\<open>RETHROW\<close> formats the message of the exception with \<^verbatim>\<open>"%s"\<close>.\<close>

definition rethrow :: "nat \<Rightarrow> exc_state \<Rightarrow> (nat \<times> exc_state) run" where
  "rethrow e x = (let ex = exps x e
    in throw_exception (exp_type ex) (exp_val ex) (exp_level ex) (exp_msg ex) (x\<lparr>errno := throw_time_errno ex\<rparr>))"

definition next_if_normal :: "('s config \<Rightarrow> 's ran) \<Rightarrow> outcome \<times> 's config \<Rightarrow> 's ran" where
  "next_if_normal f = (\<lambda>(r, c). if r = Normal then f c else Some (Ok (r, c)))"

primrec exec :: "'s stmt \<Rightarrow> 's config \<Rightarrow> 's ran" where
  "exec Skip = (\<lambda>c. Some (Ok (Normal, c)))"
| "exec (Act f) = (\<lambda>(x, d). let (err, d) = f (errno x, d) in Some (Ok (Normal, x\<lparr>errno := err\<rparr>, d)))"
| "exec (Seq p q) = (\<lambda>c. then_run (exec p c) (next_if_normal (exec q)))"
| "exec (Cond b p q) = (\<lambda>(x, d). if b d then exec p (x, d) else exec q (x, d))"
| "exec Break = (\<lambda>c. Some (Ok (Broke, c)))"
| "exec (THROW_EXCEPTION t v l msg) = (\<lambda>(x, d). jumping d (throw_exception t (v d) l (msg d) x))"
| "exec (RETHROW e) = (\<lambda>(x, d). jumping d (rethrow e x))"
| "exec (EAT_SMALL_EXP e) = (\<lambda>(x, d).
    case exp_level (exps x e) of
      EXP_LV_LOWEST \<Rightarrow> Some (Ok (Normal, x, d))
    | EXP_LV_TAINTED \<Rightarrow> Some (Ok (Normal, x, d))
    | _ \<Rightarrow> jumping d (rethrow e (print_exception x)))"
| "exec (TRY e body fin handler) = (\<lambda>(x, d).
    let (buf, x) = exceptions_state_mc_init e x
    in then_run (try_loop (exec body) buf (x, d)) (next_if_normal (\<lambda>(x, d).
       then_run (Some (exceptions_state_mc CATCH_FINALLY x)) (\<lambda>(_, x).
       then_run (exec fin (x, d)) (next_if_normal (\<lambda>(x, d).
         if exp_type (exps x e) \<noteq> EXP_NO_EXCEPTION then exec handler (x, d) else Some (Ok (Normal, x, d))))))))"

definition NOTHROW :: "nat \<Rightarrow> 's stmt \<Rightarrow> 's stmt" where
  "NOTHROW e fn = TRY e fn Skip (EAT_SMALL_EXP e)"

subsection \<open>Structured exceptions\<close>

text \<open>What the macros are meant to do: no stack, no states, no jumps.\<close>

datatype result = Done | Left_loop | Raised exception_t

definition and_then :: "result \<times> 'c \<Rightarrow> ('c \<Rightarrow> result \<times> 'c) \<Rightarrow> result \<times> 'c" where
  "and_then rc f = (case rc of (Done, c) \<Rightarrow> f c | (Left_loop, c) \<Rightarrow> (Left_loop, c) | (Raised ex, c) \<Rightarrow> (Raised ex, c))"

primrec sem :: "'s stmt \<Rightarrow> (nat \<Rightarrow> exception_t) \<Rightarrow> u32 \<times> 's \<Rightarrow> result \<times> u32 \<times> 's" where
  "sem Skip env = (\<lambda>c. (Done, c))"
| "sem (Act f) env = (\<lambda>c. (Done, f c))"
| "sem (Seq p q) env = (\<lambda>c. and_then (sem p env c) (sem q env))"
| "sem (Cond b p q) env = (\<lambda>c. if b (snd c) then sem p env c else sem q env c)"
| "sem Break env = (\<lambda>c. (Left_loop, c))"
| "sem (THROW_EXCEPTION t v l msg) env = (\<lambda>(err, d). (Raised (make_exception t (v d) l (msg d) err), err, d))"
| "sem (RETHROW e) env = (\<lambda>(err, d). (Raised (env e), throw_time_errno (env e), d))"
| "sem (EAT_SMALL_EXP e) env = (\<lambda>(err, d).
    if exp_level (env e) \<in> {EXP_LV_LOWEST, EXP_LV_TAINTED} then (Done, err, d)
    else (Raised (env e), throw_time_errno (env e), d))"
| "sem (TRY e body fin handler) env = (\<lambda>c.
    case sem body env c of
      (Raised ex, c) \<Rightarrow> and_then (sem fin env c) (sem handler (env(e := ex)))
    | (_, c) \<Rightarrow> sem fin env c)"

text \<open>
  The rules of use.  An exception object is not used again inside the \<^verbatim>\<open>TRY\<close> that has it;
  \<^verbatim>\<open>RETHROW\<close> and \<^verbatim>\<open>EAT_SMALL_EXP\<close> stand in the handler of their object;
  \<^verbatim>\<open>break\<close> stands in the body of a \<^verbatim>\<open>TRY\<close>; \<open>EXP_NO_EXCEPTION\<close> is not thrown.
\<close>

primrec well_scoped :: "'s stmt \<Rightarrow> nat set \<Rightarrow> nat set \<Rightarrow> bool \<Rightarrow> bool" where
  "well_scoped Skip = (\<lambda>used caught loop. True)"
| "well_scoped (Act f) = (\<lambda>used caught loop. True)"
| "well_scoped (Seq p q) = (\<lambda>used caught loop. well_scoped p used caught loop \<and> well_scoped q used caught loop)"
| "well_scoped (Cond b p q) = (\<lambda>used caught loop. well_scoped p used caught loop \<and> well_scoped q used caught loop)"
| "well_scoped Break = (\<lambda>used caught loop. loop)"
| "well_scoped (THROW_EXCEPTION t v l msg) = (\<lambda>used caught loop. t \<noteq> EXP_NO_EXCEPTION)"
| "well_scoped (RETHROW e) = (\<lambda>used caught loop. e \<in> caught)"
| "well_scoped (EAT_SMALL_EXP e) = (\<lambda>used caught loop. e \<in> caught)"
| "well_scoped (TRY e body fin handler) = (\<lambda>used caught loop. e \<notin> used
    \<and> well_scoped body (insert e used) caught True
    \<and> well_scoped fin (insert e used) caught loop
    \<and> well_scoped handler (insert e used) (insert e caught) loop)"

subsection \<open>The macros implement structured exceptions\<close>

text \<open>An exception as \<^verbatim>\<open>throw_exception\<close> makes it: throwing its fields again yields the same exception.\<close>

definition thrown :: "exception_t \<Rightarrow> bool" where
  "thrown ex \<longleftrightarrow> exp_type ex \<noteq> EXP_NO_EXCEPTION \<and>
    make_exception (exp_type ex) (exp_val ex) (exp_level ex) (exp_msg ex) (throw_time_errno ex) = ex"

lemma thrown_make: "t \<noteq> EXP_NO_EXCEPTION \<Longrightarrow> thrown (make_exception t v l msg err)"
  by (simp add: thrown_def make_exception_def)

definition ready :: "exc_state \<Rightarrow> bool" where
  "ready x \<longleftrightarrow> catchers x = [] \<or> c_state (hd (catchers x)) = CATCHER_EXEC_BODY"

definition keeps :: "nat set \<Rightarrow> exc_state \<Rightarrow> exc_state \<Rightarrow> bool" where
  "keeps used x x' \<longleftrightarrow> catchers x' = catchers x \<and> (\<forall>e\<in>used. exps x' e = exps x e)"

definition caught :: "nat set \<Rightarrow> exception_t \<Rightarrow> exc_state \<Rightarrow> exc_state \<Rightarrow> bool" where
  "caught used ex x x' \<longleftrightarrow> (let c = hd (catchers x) in
    catchers x' = c\<lparr>c_state := CATCHER_THROWN\<rparr> # tl (catchers x) \<and> exps x' (curr_exp c) = ex
    \<and> (\<forall>e\<in>used - {curr_exp c}. exps x' e = exps x e))"

fun agrees :: "nat set \<Rightarrow> exc_state \<Rightarrow> 's ran \<Rightarrow> result \<times> u32 \<times> 's \<Rightarrow> bool" where
  "agrees used x r (Done, err, d) \<longleftrightarrow> (\<exists>x'. r = Some (Ok (Normal, x', d)) \<and> keeps used x x' \<and> errno x' = err)"
| "agrees used x r (Left_loop, err, d) \<longleftrightarrow> (\<exists>x'. r = Some (Ok (Broke, x', d)) \<and> keeps used x x' \<and> errno x' = err)"
| "agrees used x r (Raised ex, err, d) \<longleftrightarrow> thrown ex \<and>
    (if catchers x = [] then r = Some (Stop Fatal)
     else \<exists>x'. r = Some (Ok (Jump (c_buf (hd (catchers x))), x', d)) \<and> caught used ex x x' \<and> errno x' = err)"

lemma keeps_refl: "keeps used x x"
  by (simp add: keeps_def)

lemma keeps_errno [simp]: "keeps used x (x'\<lparr>errno := err\<rparr>) = keeps used x x'"
  by (simp add: keeps_def)

lemma keeps_ready: "keeps used x x' \<Longrightarrow> ready x' = ready x"
  by (simp add: keeps_def ready_def)

lemma agrees_kept:
  assumes "keeps used x x'" "agrees used x' r s"
  shows "agrees used x r s"
proof -
  have "keeps used x' y \<Longrightarrow> keeps used x y" and "caught used ex x' y \<Longrightarrow> caught used ex x y" for y ex
    using assms(1) by (simp_all add: keeps_def caught_def Let_def)
  moreover have "catchers x' = catchers x" using assms(1) by (simp add: keeps_def)
  ultimately show ?thesis using assms(2)
    by (cases "(used, x', r, s)" rule: agrees.cases) (auto split: if_splits)
qed

lemma agrees_then:
  assumes "agrees used x r s"
    and "\<And>x' d. keeps used x x' \<Longrightarrow> agrees used x' (f (x', d)) (g (errno x', d))"
  shows "agrees used x (then_run r (next_if_normal f)) (and_then s g)"
  using assms(1)
proof (cases "(used, x, r, s)" rule: agrees.cases)
  case (1 used' x0 r0 err d)
  then obtain x' where x': "r = Some (Ok (Normal, x', d))" "keeps used x x'" "errno x' = err" using assms(1) by auto
  have "agrees used x (f (x', d)) (g (err, d))" using agrees_kept [OF x'(2) assms(2) [OF x'(2)], of d] x'(3) by simp
  moreover have "s = (Done, err, d)" using 1 by simp
  ultimately show ?thesis unfolding x'(1) by (simp add: next_if_normal_def and_then_def)
qed (auto simp: next_if_normal_def and_then_def split: if_splits)

lemma throw_exception_Ok:
  assumes "ready x" "catchers x \<noteq> []"
  shows "\<exists>x'. throw_exception t v l msg x = Ok (c_buf (hd (catchers x)), x') \<and>
    caught used (make_exception t v l msg (errno x)) x x' \<and> errno x' = errno x"
  using assms by (cases "catchers x")
    (simp_all add: throw_exception_def exceptions_state_mc_def ready_def set_state_def caught_def Let_def)

lemma agrees_throw:
  assumes "ready x" "t \<noteq> EXP_NO_EXCEPTION"
  shows "agrees used x (jumping d (throw_exception t v l msg x)) (Raised (make_exception t v l msg (errno x)), errno x, d)"
proof (cases "catchers x = []")
  case False
  from throw_exception_Ok [OF assms(1) this, of t v l msg used] show ?thesis
    using assms(2) False by (auto simp: jumping_def thrown_make)
qed (use assms(2) in \<open>simp add: throw_exception_def jumping_def thrown_make Let_def\<close>)

lemma agrees_rethrow:
  assumes "ready x" "exps x e = ex" "thrown ex"
  shows "agrees used x (jumping d (rethrow e x)) (Raised ex, throw_time_errno ex, d)"
proof -
  let ?x = "x\<lparr>errno := throw_time_errno ex\<rparr>"
  have "agrees used ?x (jumping d (rethrow e x)) (Raised ex, throw_time_errno ex, d)"
  proof -
    have ex: "make_exception (exp_type ex) (exp_val ex) (exp_level ex) (exp_msg ex) (throw_time_errno ex) = ex"
      "exp_type ex \<noteq> EXP_NO_EXCEPTION" using assms(3) by (simp_all add: thrown_def)
    have "rethrow e x = throw_exception (exp_type ex) (exp_val ex) (exp_level ex) (exp_msg ex) ?x"
      by (simp add: rethrow_def assms(2) Let_def)
    moreover have "ready ?x" "errno ?x = throw_time_errno ex" using assms(1) by (simp_all add: ready_def)
    ultimately show ?thesis
      using agrees_throw [of ?x "exp_type ex" used d "exp_val ex" "exp_level ex" "exp_msg ex"] ex by metis
  qed
  then show ?thesis by (rule agrees_kept [rotated]) (simp add: keeps_refl)
qed

text \<open>The loop of \<^verbatim>\<open>TRY\<close> runs the body once and ends waiting for \<^verbatim>\<open>FINALLY\<close>, whatever the body does.\<close>

definition caught_as :: "result \<Rightarrow> exception_t" where
  "caught_as r = (case r of Raised ex \<Rightarrow> ex | _ \<Rightarrow> no_exception)"

lemma try_loop_once:
  fixes x :: exc_state and e :: nat
  defines "x1 \<equiv> set_state CATCHER_EXEC_BODY (snd (exceptions_state_mc_init e x))"
  assumes body: "agrees (insert e used) x1 (body (x1, d)) (res, err, d')" and e: "e \<notin> used"
  shows "\<exists>x2 x3. try_loop body (fst (exceptions_state_mc_init e x)) (snd (exceptions_state_mc_init e x), d) = Some (Ok (Normal, x2, d'))
    \<and> exceptions_state_mc CATCH_FINALLY x2 = Ok (True, x3)
    \<and> keeps used x x3 \<and> exps x3 e = caught_as res \<and> errno x3 = err \<and> (case res of Raised ex \<Rightarrow> thrown ex | _ \<Rightarrow> True)"
proof -
  let ?x0 = "snd (exceptions_state_mc_init e x)" and ?buf = "fst (exceptions_state_mc_init e x)"
  note init = exceptions_state_mc_init_def init_set_exception_def push_catcher_def set_state_def Let_def
  have c1: "catchers x1 = \<lparr>c_buf = ?buf, c_state = CATCHER_EXEC_BODY, curr_exp = e\<rparr> # catchers x"
    "exps x1 = (exps x)(e := no_exception)" by (simp_all add: x1_def init)
  have it: "exceptions_state_mc CATCH_ITER_0 ?x0 = Ok (True, x1)" by (simp add: x1_def exceptions_state_mc_def init)
  note loop = try_loop.simps [of body ?buf] and mc = exceptions_state_mc_def pop_catcher_def set_state_def
  have again: "try_loop body ?buf (x', d') = Some (Ok (Normal, set_state CATCHER_WAIT_FINALLY x', d'))"
    if "catchers x' = c # cs" "c_state c \<in> {CATCHER_EXEC_BODY, CATCHER_THROWN}" for x' c cs
    using that by (subst loop) (auto simp: exceptions_state_mc_def)
  show ?thesis
  proof (cases res)
    case Done
    then obtain x' where x': "body (x1, d) = Some (Ok (Normal, x', d'))" "keeps (insert e used) x1 x'" "errno x' = err" using body by auto
    have "try_loop body ?buf (?x0, d) = Some (Ok (Normal, set_state CATCHER_WAIT_FINALLY x', d'))"
      using again [of x'] x'(2) c1 by (subst loop) (simp add: it x'(1) keeps_def)
    then show ?thesis using x' c1 e by (auto simp: Done mc keeps_def caught_as_def)
  next
    case Left_loop
    then obtain x' where x': "body (x1, d) = Some (Ok (Broke, x', d'))" "keeps (insert e used) x1 x'" "errno x' = err" using body by auto
    have "try_loop body ?buf (?x0, d) = Some (Ok (Normal, x', d'))" by (subst loop) (simp add: it x'(1))
    then show ?thesis using x' c1 e by (auto simp: Left_loop mc keeps_def caught_as_def)
  next
    case (Raised ex)
    then obtain x' where x': "body (x1, d) = Some (Ok (Jump ?buf, x', d'))" "caught (insert e used) ex x1 x'" "errno x' = err" "thrown ex"
      using body c1 by auto
    have "try_loop body ?buf (?x0, d) = Some (Ok (Normal, set_state CATCHER_WAIT_FINALLY x', d'))"
      using again [of x'] x'(2) c1 by (subst loop) (simp add: it x'(1) caught_def)
    then show ?thesis using x' c1 e by (auto simp: Raised mc keeps_def caught_def caught_as_def)
  qed
qed

definition bound :: "nat set \<Rightarrow> (nat \<Rightarrow> exception_t) \<Rightarrow> exc_state \<Rightarrow> bool" where
  "bound hs env x \<longleftrightarrow> (\<forall>e\<in>hs. exps x e = env e \<and> thrown (env e))"

lemma bound_kept: "keeps used x x' \<Longrightarrow> hs \<subseteq> used \<Longrightarrow> bound hs env x \<Longrightarrow> bound hs env x'"
  by (auto simp: bound_def keeps_def subset_iff)

lemma agrees_less_used: "agrees (insert e used) x r s \<Longrightarrow> agrees used x r s"
  by (cases "(used, x, r, s)" rule: agrees.cases) (auto simp: keeps_def caught_def Let_def)

text \<open>The part of \<^verbatim>\<open>TRY\<close> after its loop: \<^verbatim>\<open>FINALLY\<close>, then the handler if an exception was caught.\<close>

lemma try_tail_agrees:
  assumes fin: "agrees (insert e used) x (exec fin (x, d)) (sem fin env (errno x, d))"
    and handler: "\<And>ex x' d. res = Raised ex \<Longrightarrow> keeps (insert e used) x x' \<Longrightarrow>
      agrees (insert e used) x' (exec handler (x', d)) (sem handler (env(e := ex)) (errno x', d))"
    and e: "exps x e = caught_as res" "case res of Raised ex \<Rightarrow> thrown ex | _ \<Rightarrow> True"
  shows "agrees (insert e used) x
    (then_run (exec fin (x, d)) (next_if_normal (\<lambda>(x, d).
      if exp_type (exps x e) \<noteq> EXP_NO_EXCEPTION then exec handler (x, d) else Some (Ok (Normal, x, d)))))
    (and_then (sem fin env (errno x, d)) (\<lambda>c. case res of Raised ex \<Rightarrow> sem handler (env(e := ex)) c | _ \<Rightarrow> (Done, c)))"
proof (rule agrees_then [OF fin])
  fix x' d assume k: "keeps (insert e used) x x'"
  then have "exps x' e = caught_as res" using e(1) by (simp add: keeps_def)
  then show "agrees (insert e used) x'
      (case (x', d) of (x, d) \<Rightarrow> if exp_type (exps x e) \<noteq> EXP_NO_EXCEPTION then exec handler (x, d) else Some (Ok (Normal, x, d)))
      (case res of Raised ex \<Rightarrow> sem handler (env(e := ex)) (errno x', d) | _ \<Rightarrow> (Done, errno x', d))"
    using handler [OF _ k] e(2) by (cases res) (auto simp: caught_as_def thrown_def no_exception_def keeps_refl)
qed

lemma try_agrees:
  assumes scope: "e \<notin> used" "hs \<subseteq> used" "ready x" "bound hs env x"
    and body: "\<And>x d. ready x \<Longrightarrow> bound hs env x \<Longrightarrow> agrees (insert e used) x (exec body (x, d)) (sem body env (errno x, d))"
    and fin: "\<And>x d. ready x \<Longrightarrow> bound hs env x \<Longrightarrow> agrees (insert e used) x (exec fin (x, d)) (sem fin env (errno x, d))"
    and handler: "\<And>x d ex. ready x \<Longrightarrow> bound (insert e hs) (env(e := ex)) x \<Longrightarrow>
      agrees (insert e used) x (exec handler (x, d)) (sem handler (env(e := ex)) (errno x, d))"
  shows "agrees used x (exec (TRY e body fin handler) (x, d)) (sem (TRY e body fin handler) env (errno x, d))"
proof -
  let ?x0 = "snd (exceptions_state_mc_init e x)"
  let ?x1 = "set_state CATCHER_EXEC_BODY ?x0"
  obtain res err d' where b: "sem body env (errno x, d) = (res, err, d')" by (cases "sem body env (errno x, d)")
  have "errno ?x1 = errno x" "ready ?x1" "bound hs env ?x1"
    using scope by (auto simp: exceptions_state_mc_init_def init_set_exception_def push_catcher_def set_state_def ready_def bound_def Let_def)
  then have "agrees (insert e used) ?x1 (exec body (?x1, d)) (res, err, d')" using body [of ?x1 d] b by simp
  from try_loop_once [of e used x "exec body", OF this scope(1)] obtain x2 x3 where
    loop: "try_loop (exec body) (fst (exceptions_state_mc_init e x)) (?x0, d) = Some (Ok (Normal, x2, d'))"
    "exceptions_state_mc CATCH_FINALLY x2 = Ok (True, x3)" and x3: "keeps used x x3" "exps x3 e = caught_as res" "errno x3 = err"
    "case res of Raised ex \<Rightarrow> thrown ex | _ \<Rightarrow> True" by blast
  note k3 = keeps_ready [OF x3(1)] bound_kept [OF x3(1) scope(2,4)]
  have h: "agrees (insert e used) x' (exec handler (x', d)) (sem handler (env(e := ex)) (errno x', d))"
    if "res = Raised ex" "keeps (insert e used) x3 x'" for ex x' d
  proof (rule handler)
    show "ready x'" using keeps_ready [OF that(2)] k3(1) scope(3) by simp
    have "bound hs env x'" using bound_kept [OF that(2) _ k3(2)] scope(2) by blast
    then show "bound (insert e hs) (env(e := ex)) x'"
      using that x3(2,4) scope(1,2) by (auto simp: bound_def keeps_def caught_as_def)
  qed
  have run: "exec (TRY e body fin handler) (x, d) = then_run (exec fin (x3, d')) (next_if_normal (\<lambda>(x, d).
      if exp_type (exps x e) \<noteq> EXP_NO_EXCEPTION then exec handler (x, d) else Some (Ok (Normal, x, d))))"
    using loop by (simp add: split_def Let_def next_if_normal_def)
  have spec: "sem (TRY e body fin handler) env (errno x, d) =
      and_then (sem fin env (errno x3, d')) (\<lambda>c. case res of Raised ex \<Rightarrow> sem handler (env(e := ex)) c | _ \<Rightarrow> (Done, c))"
    by (cases res) (auto simp: b x3(3) and_then_def split: prod.splits result.splits)
  have fin3: "agrees (insert e used) x3 (exec fin (x3, d')) (sem fin env (errno x3, d'))"
    using fin k3 scope(3) by blast
  show ?thesis
    unfolding run spec by (rule agrees_kept [OF x3(1) agrees_less_used [OF try_tail_agrees [OF fin3 h x3(2,4)]]])
qed

lemma exec_agrees:
  assumes "well_scoped p used hs loop" "hs \<subseteq> used" "ready x" "bound hs env x"
  shows "agrees used x (exec p (x, d)) (sem p env (errno x, d))"
  using assms
proof (induction p arbitrary: used hs loop x d env)
  case (Act f)
  then show ?case by (cases "f (errno x, d)") (auto simp: keeps_refl)
next
  case (Seq p q)
  have "agrees used x' (exec q (x', d)) (sem q env (errno x', d))" if "keeps used x x'" for x' d
    using Seq.IH(2) [of used hs loop x' env d] Seq.prems keeps_ready [OF that] bound_kept [OF that] by auto
  then show ?case using agrees_then [OF Seq.IH(1) [of used hs loop x env d]] Seq.prems by auto
next
  case (THROW_EXCEPTION t v l msg)
  then show ?case using agrees_throw [of x t used d "v d" l "msg d"] by simp
next
  case (RETHROW e)
  then show ?case using agrees_rethrow [of x e "env e" used d] by (auto simp: bound_def)
next
  case (EAT_SMALL_EXP e)
  have e: "exps x e = env e" "thrown (env e)" using EAT_SMALL_EXP.prems by (auto simp: bound_def)
  have "agrees used x (jumping d (rethrow e (print_exception x))) (Raised (env e), throw_time_errno (env e), d)"
    by (rule agrees_kept [of used x "print_exception x"], simp add: print_exception_def keeps_refl, rule agrees_rethrow)
      (use EAT_SMALL_EXP.prems e in \<open>simp_all add: print_exception_def ready_def\<close>)
  then show ?case using e by (cases "exp_level (env e)") (auto simp: keeps_refl)
next
  case (TRY e body fin handler)
  then show ?case
    by (intro try_agrees [of e used hs]) (auto intro: TRY.IH)
qed (auto simp: keeps_refl)

lemma and_then_no_break: "fst s \<noteq> Left_loop \<Longrightarrow> (\<And>c. fst (g c) \<noteq> Left_loop) \<Longrightarrow> fst (and_then s g) \<noteq> Left_loop"
  by (cases s; cases "fst s") (auto simp: and_then_def)

lemma sem_no_break: "well_scoped p used hs False \<Longrightarrow> fst (sem p env c) \<noteq> Left_loop"
proof (induction p arbitrary: used hs env c)
  case (Seq p q)
  then show ?case unfolding sem.simps well_scoped.simps by (intro and_then_no_break) blast+
next
  case (TRY e body fin handler)
  then have f: "\<And>c. fst (sem fin env c) \<noteq> Left_loop" and h: "\<And>env c. fst (sem handler env c) \<noteq> Left_loop"
    unfolding well_scoped.simps by blast+
  obtain res err d where "sem body env c = (res, err, d)" by (cases "sem body env c")
  then show ?case by (cases res) (simp_all add: f h and_then_no_break)
qed (auto split: prod.splits)

text \<open>
  C9.  The macros implement structured exceptions.  A program that follows the rules of use runs
  to its end under the state machine, the catcher stack and \<^verbatim>\<open>longjmp\<close>: if the structured
  semantics completes normally, so does the run, with the same data and \<^verbatim>\<open>errno\<close> and with
  no catcher left; if it raises, the run ends with the fatal error of an exception thrown from the
  outermost scope.  In particular the state machine never meets an action it has no transition
  for, every jump goes to the innermost active \<^verbatim>\<open>TRY\<close>, and every body runs once.
\<close>

theorem exceptions_structured:
  assumes "well_scoped p {} {} False" "catchers x = []"
  shows "case sem p env (errno x, d) of
      (Done, err, d') \<Rightarrow> \<exists>x'. exec p (x, d) = Some (Ok (Normal, x', d')) \<and> catchers x' = [] \<and> errno x' = err
    | (Raised ex, err, d') \<Rightarrow> exec p (x, d) = Some (Stop Fatal)
    | (Left_loop, err, d') \<Rightarrow> False"
proof -
  have "agrees {} x (exec p (x, d)) (sem p env (errno x, d))"
    by (rule exec_agrees [OF assms(1)]) (simp_all add: ready_def bound_def assms(2))
  with sem_no_break [OF assms(1), of env "(errno x, d)"] assms(2) show ?thesis
    by (cases "({} :: nat set, x, exec p (x, d), sem p env (errno x, d))" rule: agrees.cases) (auto simp: keeps_def)
qed

text \<open>A body that throws, in a \<^verbatim>\<open>TRY\<close> with cleanup, whose handler throws again to an outer one.\<close>

definition demo_stmt :: "nat stmt" where
  "demo_stmt = TRY 0
    (TRY 1 (Seq (Act (\<lambda>(err, n). (9, n + 1))) (THROW_EXCEPTION EXP_IO (\<lambda>n. 5) EXP_LV_LOWEST (\<lambda>n. ''io'')))
      (Act (\<lambda>(err, n). (err, n + 10))) (RETHROW 1))
    Skip (Act (\<lambda>(err, n). (err, n + 100)))"

definition demo_exc :: exc_state where
  "demo_exc = \<lparr>catchers = [], exps = (\<lambda>_. no_exception), errno = 0\<rparr>"

theorem exceptions_structured_witness:
  "\<exists>x'. exec demo_stmt (demo_exc, 0) = Some (Ok (Normal, x', 111)) \<and> catchers x' = [] \<and> errno x' = 9"
proof -
  have "well_scoped demo_stmt {} {} False" "catchers demo_exc = []" by (simp_all add: demo_stmt_def demo_exc_def)
  from exceptions_structured [OF this, where env = "\<lambda>_. no_exception" and d = 0] show ?thesis
    by (simp add: demo_stmt_def demo_exc_def and_then_def make_exception_def)
qed

end
