(* ===== verification/Env_Conf.thy ===== *)
theory Env_Conf
  imports Strtox
begin

text \<open>
  The configuration (\<^verbatim>\<open>src/core/loader/env_conf.c\<close>, \<^verbatim>\<open>env_conf_entries.h\<close>) and the
  decision that rests on it (\<^verbatim>\<open>sampling\<close> of \<^verbatim>\<open>interp_main.c\<close>).  Four environment
  variables set four options; every string of the environment is compared with the four names.  An
  environment string is the list of its characters; the time stamp \<^verbatim>\<open>random32\<close> reads is a
  parameter.
\<close>

fun atoi_loop :: "byte list \<Rightarrow> u32 \<Rightarrow> u32" where
  "atoi_loop [] s = s"
| "atoi_loop (c # x) s = (if c \<le> chr CHR ''9'' \<and> c \<ge> chr CHR ''0'' then atoi_loop x (s * 10 + ucast (c - chr CHR ''0'')) else s)"

definition atoi :: "byte list \<Rightarrow> u32" where
  "atoi x = atoi_loop x 0"

record env_conf =
  trace_fork :: bool
  untrace_clone :: bool
  use_rebranch :: bool
  conf_sampling :: u32

definition env_conf_default :: env_conf where
  "env_conf_default = \<lparr>trace_fork = False, untrace_clone = False, use_rebranch = True, conf_sampling = - 1\<rparr>"

text \<open>\<^verbatim>\<open>strncmp\<close> on two strings, placed one after the other in memory.\<close>

definition two_strings :: "byte list \<Rightarrow> byte list \<Rightarrow> mem" where
  "two_strings s t i = ch (s @ 0 # t) i"

definition strncmp_lit :: "byte list \<Rightarrow> byte list \<Rightarrow> nat \<Rightarrow> int" where
  "strncmp_lit s t n = strncmp (two_strings s t) 0 (length s + 1) n"

definition cmp_get :: "string \<Rightarrow> byte list \<Rightarrow> byte list option" where
  "cmp_get key str = (let k = lit key @ lit ''='' in
    if strncmp_lit k str (length k) = 0 then Some (drop (length k) str) else None)"

definition bool_conf :: "string \<Rightarrow> byte list \<Rightarrow> (bool \<Rightarrow> env_conf \<Rightarrow> env_conf) \<Rightarrow> env_conf \<Rightarrow> env_conf" where
  "bool_conf key entry upd c =
    (case cmp_get key entry of None \<Rightarrow> c | Some val \<Rightarrow> if strncmp_lit val (lit ''0'') 2 = 0 then upd False c else upd True c)"

definition int_conf :: "string \<Rightarrow> byte list \<Rightarrow> (u32 \<Rightarrow> env_conf \<Rightarrow> env_conf) \<Rightarrow> env_conf \<Rightarrow> env_conf" where
  "int_conf key entry upd c = (case cmp_get key entry of None \<Rightarrow> c | Some val \<Rightarrow> upd (atoi val) c)"

definition check_var :: "byte list \<Rightarrow> env_conf \<Rightarrow> env_conf" where
  "check_var entry c =
    (let c = bool_conf ''SNITCHASER_TRACE_FORK'' entry (\<lambda>b. trace_fork_update (\<lambda>_. b)) c;
         c = bool_conf ''SNITCHASER_UNTRACE_CLONE'' entry (\<lambda>b. untrace_clone_update (\<lambda>_. b)) c;
         c = bool_conf ''SNITCHASER_USE'' entry (\<lambda>b. use_rebranch_update (\<lambda>_. b)) c
     in int_conf ''SNITCHASER_SAMPLING'' entry (\<lambda>i. conf_sampling_update (\<lambda>_. i)) c)"

fun read_env_conf :: "byte list list \<Rightarrow> env_conf \<Rightarrow> env_conf" where
  "read_env_conf [] c = c"
| "read_env_conf (e # es) c = read_env_conf es (check_var e c)"

definition INTERP_RET_UNSELECTED :: u32 where "INTERP_RET_UNSELECTED = 0"
definition INTERP_RET_SNITCHASER :: u32 where "INTERP_RET_SNITCHASER = 1"

definition sampling :: "env_conf \<Rightarrow> u32 \<Rightarrow> u32" where
  "sampling conf random32 =
    (let selection = random32 mod 1000;
         selected = (if sint (conf_sampling conf) < 0 then True else if sint selection < sint (conf_sampling conf) then True else False)
     in if \<not> selected then INTERP_RET_UNSELECTED
        else if use_rebranch conf then INTERP_RET_SNITCHASER
        else INTERP_RET_UNSELECTED)"

subsection \<open>What the variables mean\<close>

text \<open>The value of the last setting of a variable in the environment.\<close>

definition setting :: "string \<Rightarrow> byte list \<Rightarrow> byte list option" where
  "setting key e = (if take (length key + 1) e = lit key @ lit ''='' then Some (drop (length key + 1) e) else None)"

fun last_setting :: "string \<Rightarrow> byte list list \<Rightarrow> byte list option" where
  "last_setting key [] = None"
| "last_setting key (e # es) = (case last_setting key es of None \<Rightarrow> setting key e | Some v \<Rightarrow> Some v)"

definition c_strings :: "byte list list \<Rightarrow> bool" where
  "c_strings es \<longleftrightarrow> (\<forall>e\<in>set es. 0 \<notin> set e)"

definition digits_value :: "byte list \<Rightarrow> u32" where
  "digits_value v = word_of_nat (num_of 10 (takeWhile isdigit v))"

lemma strncmp_lit_zero: "0 \<notin> set s \<Longrightarrow> 0 \<notin> set t \<Longrightarrow> strncmp_lit s t n = 0 \<longleftrightarrow> take n s = take n t"
proof -
  assume s: "0 \<notin> set s" and t: "0 \<notin> set t"
  have "cstr (two_strings s t) 0 s" "cstr (two_strings s t) (length s + 1) t"
    using s t by (auto simp: cstr_def two_strings_def ch_def nth_append)
  from strncmp_cstr [OF this, of n] show ?thesis by (auto simp: strncmp_lit_def)
qed

lemma cmp_get_setting:
  assumes "0 \<notin> set e" "0 \<notin> set (lit key)"
  shows "cmp_get key e = setting key e"
proof -
  have l: "length (lit key) = length key" by (simp add: lit_def)
  have "0 \<notin> set (lit key @ lit ''='')" using assms(2) by simp
  from strncmp_lit_zero [OF this assms(1), of "length key + 1"] show ?thesis
    by (auto simp: cmp_get_def setting_def Let_def l)
qed

lemma atoi_loop_digits:
  "atoi_loop v (word_of_nat n) = word_of_nat (foldl (\<lambda>n c. n * 10 + digit_of c) n (takeWhile isdigit v))"
proof (induction v arbitrary: n)
  case (Cons c v)
  show ?case
  proof (cases "isdigit c")
    case True
    then have c: "48 \<le> unat c" "unat c \<le> 57" by (simp_all add: isdigit_codes)
    then have "digit_of c = unat (c - 48)" by (simp add: digit_of_def unat_sub word_le_nat_alt)
    then have "(word_of_nat n * 10 + ucast (c - 48) :: u32) = word_of_nat (n * 10 + digit_of c)"
      using ucast_of_unat [of "c - 48"] by simp
    then show ?thesis using c True Cons.IH [of "n * 10 + digit_of c"] by (simp add: word_le_nat_alt)
  next
    case False
    then show ?thesis by (auto simp: isdigit_codes word_le_nat_alt)
  qed
qed simp

lemma atoi_digits: "atoi v = digits_value v"
  using atoi_loop_digits [of v 0] by (simp add: atoi_def digits_value_def num_of_def)

lemma nonzero_names:
  "0 \<notin> set (lit ''SNITCHASER_TRACE_FORK'')" "0 \<notin> set (lit ''SNITCHASER_UNTRACE_CLONE'')"
  "0 \<notin> set (lit ''SNITCHASER_USE'')" "0 \<notin> set (lit ''SNITCHASER_SAMPLING'')" "0 \<notin> set (lit ''0'')"
  by simp_all

definition is_on :: "byte list \<Rightarrow> bool" where
  "is_on v \<longleftrightarrow> v \<noteq> lit ''0''"

lemma bool_conf_setting:
  assumes "0 \<notin> set e" "0 \<notin> set (lit key)"
  shows "bool_conf key e upd c = (case setting key e of None \<Rightarrow> c | Some v \<Rightarrow> upd (is_on v) c)"
proof (cases "setting key e")
  case (Some v)
  then have "0 \<notin> set v" using assms(1) by (auto simp: setting_def split: if_splits dest: in_set_dropD)
  moreover have "take 2 v = take 2 (lit ''0'') \<longleftrightarrow> v = lit ''0''"
    by (cases v; cases "tl v") auto
  ultimately show ?thesis
    using Some by (auto simp: bool_conf_def cmp_get_setting [OF assms] strncmp_lit_zero is_on_def)
qed (simp add: bool_conf_def cmp_get_setting [OF assms])

text \<open>The options the environment asks for, each by the last setting of its variable.\<close>

definition overridden :: "byte list list \<Rightarrow> env_conf \<Rightarrow> env_conf" where
  "overridden es c =
    (let on = \<lambda>key d. case last_setting key es of None \<Rightarrow> d | Some v \<Rightarrow> is_on v
     in \<lparr>trace_fork = on ''SNITCHASER_TRACE_FORK'' (trace_fork c),
         untrace_clone = on ''SNITCHASER_UNTRACE_CLONE'' (untrace_clone c),
         use_rebranch = on ''SNITCHASER_USE'' (use_rebranch c),
         conf_sampling = (case last_setting ''SNITCHASER_SAMPLING'' es of None \<Rightarrow> conf_sampling c | Some v \<Rightarrow> digits_value v)\<rparr>)"

lemma check_var_setting:
  assumes "0 \<notin> set e"
  shows "check_var e c = overridden [e] c"
  by (cases c) (auto simp: check_var_def bool_conf_setting [OF assms] int_conf_def cmp_get_setting [OF assms] nonzero_names
    overridden_def atoi_digits Let_def split: option.splits)

text \<open>
  C34.  The configuration.  From any environment of C strings, \<^verbatim>\<open>read_env_conf\<close> sets each option
  by the last setting of its variable and leaves the default where there is none: a switch is off
  exactly for the value ``0'', and the sampling rate is the value of the leading decimal digits
  modulo $2^{32}$.
\<close>

theorem read_env_conf_last:
  assumes "c_strings es"
  shows "read_env_conf es c = overridden es c"
  using assms
proof (induction es arbitrary: c)
  case Nil
  then show ?case by (simp add: overridden_def Let_def)
next
  case (Cons e es)
  then have "read_env_conf (e # es) c = overridden es (overridden [e] c)"
    by (simp add: c_strings_def check_var_setting)
  also have "\<dots> = overridden (e # es) c" by (auto simp: overridden_def Let_def split: option.splits)
  finally show ?case .
qed

theorem read_env_conf_last_witness:
  "read_env_conf [lit ''PATH=/bin'', lit ''SNITCHASER_USE=0'', lit ''SNITCHASER_SAMPLING=250'', lit ''SNITCHASER_USE=1''] env_conf_default =
    \<lparr>trace_fork = False, untrace_clone = False, use_rebranch = True, conf_sampling = 250\<rparr>"
  using read_env_conf_last [of "[lit ''PATH=/bin'', lit ''SNITCHASER_USE=0'', lit ''SNITCHASER_SAMPLING=250'', lit ''SNITCHASER_USE=1'']" env_conf_default]
  by (simp add: c_strings_def overridden_def env_conf_default_def setting_def is_on_def digits_value_def num_of_def digit_of_def isdigit_codes)

lemma sint_mod_1000: "sint (r mod 1000 :: u32) = int (unat r mod 1000)"
proof -
  have "r mod 1000 = (word_of_nat (unat r mod 1000) :: u32)" by (simp add: word_unat_eq_iff unat_mod unat_word_of_nat_32)
  moreover have "unat r mod 1000 < 1000" by simp
  then have "signed_take_bit 31 (int (unat r mod 1000)) = int (unat r mod 1000)"
    by (intro signed_take_bit_int_eq_self) simp_all
  ultimately show ?thesis by (simp add: signed_of_nat)
qed

text \<open>
  The default rate is -1, which selects every run; the parser has no sign, so setting the
  variable to -1 yields 0, which selects none.
\<close>

lemma negative_sampling_setting:
  "sampling (read_env_conf [] env_conf_default) r = INTERP_RET_SNITCHASER"
  "sampling (read_env_conf [lit ''SNITCHASER_SAMPLING=-1''] env_conf_default) r = INTERP_RET_UNSELECTED"
  by (simp_all add: sampling_def sint_mod_1000 env_conf_default_def check_var_setting overridden_def setting_def digits_value_def
      isdigit_codes num_of_def)

end
