(* ===== verification/Elf_Relocate.thy ===== *)
theory Elf_Relocate
  imports Proc_Maps "HOL-Library.Signed_Division"
begin

text \<open>
  Self-relocation (\<^verbatim>\<open>relocate_interp\<close> of \<^verbatim>\<open>src/core/loader/elf.c\<close>).  The loader is a
  shared object that no other linker has prepared: before anything else it walks its own dynamic
  section, finds the relocation and symbol tables, and adds the difference between its load address
  and its link address to the words they name.  The memory is the byte-addressed one of the string
  functions; the addresses of \<^verbatim>\<open>_DYNAMIC\<close> and of \<^verbatim>\<open>_GLOBAL_OFFSET_TABLE_\<close> are
  parameters.  The walk over the dynamic section does not end without \<^verbatim>\<open>DT_NULL\<close>: it is
  partial.
\<close>

subsection \<open>The code\<close>

definition DT_NULL :: u32 where "DT_NULL = 0"
definition DT_SYMTAB :: u32 where "DT_SYMTAB = 6"
definition DT_RELA :: u32 where "DT_RELA = 7"
definition DT_REL :: u32 where "DT_REL = 17"
definition DT_RELSZ :: u32 where "DT_RELSZ = 18"
definition DT_RELENT :: u32 where "DT_RELENT = 19"

lemmas dt_defs = DT_NULL_def DT_SYMTAB_def DT_RELA_def DT_REL_def DT_RELSZ_def DT_RELENT_def

definition R_386_GLOB_DAT :: u32 where "R_386_GLOB_DAT = 6"
definition R_386_RELATIVE :: u32 where "R_386_RELATIVE = 8"

definition ELF32_R_SYM :: "u32 \<Rightarrow> u32" where "ELF32_R_SYM x = drop_bit 8 x"
definition ELF32_R_TYPE :: "u32 \<Rightarrow> u32" where "ELF32_R_TYPE x = x AND 0xff"

definition assert_noprint :: "bool \<Rightarrow> unit run" where
  "assert_noprint b = (if b then Ok () else Stop Trap)"

record dyn_info =
  d_reltab :: u32
  d_symtab :: u32
  d_relsz :: u32
  d_relent :: u32

definition dyn_entry :: "u32 \<Rightarrow> u32 \<Rightarrow> u32 \<Rightarrow> dyn_info \<Rightarrow> dyn_info run" where
  "dyn_entry load_bias tag d_un i =
    (if tag = DT_RELSZ then Ok (i\<lparr>d_relsz := d_un\<rparr>)
     else if tag = DT_REL then Ok (i\<lparr>d_reltab := d_un + load_bias\<rparr>)
     else if tag = DT_RELENT then Ok (i\<lparr>d_relent := d_un\<rparr>)
     else if tag = DT_SYMTAB then Ok (i\<lparr>d_symtab := d_un + load_bias\<rparr>)
     else if tag = DT_RELA then Stop Trap
     else Ok i)"

partial_function (option) dyn_loop :: "mem \<Rightarrow> u32 \<Rightarrow> nat \<Rightarrow> dyn_info \<Rightarrow> dyn_info run option" where
  "dyn_loop m load_bias dyn i =
    (if load32 m dyn \<noteq> DT_NULL then
       case dyn_entry load_bias (load32 m dyn) (load32 m (dyn + 4)) i of
         Inl e \<Rightarrow> Some (Stop e)
       | Inr i \<Rightarrow> dyn_loop m load_bias (dyn + 8) i
     else Some (Ok i))"

definition real_val :: "u32 \<Rightarrow> u32 \<Rightarrow> u32 \<Rightarrow> u32 \<Rightarrow> mem \<Rightarrow> u32 run" where
  "real_val load_bias symtab address info m =
    (if ELF32_R_TYPE info = R_386_RELATIVE then Ok (load32 m (unat address) + load_bias)
     else if ELF32_R_TYPE info = R_386_GLOB_DAT then
       bindR (assert_noprint (symtab \<noteq> 0)) (\<lambda>_.
         let nsym = ELF32_R_SYM info in Ok (load32 m (unat (symtab + 16 * nsym + 4)) + load_bias))
     else Stop (Exited (- 1)))"

primrec rel_loop :: "nat \<Rightarrow> u32 \<Rightarrow> u32 \<Rightarrow> nat \<Rightarrow> mem \<Rightarrow> mem run" where
  "rel_loop 0 load_bias symtab rel m = Ok m"
| "rel_loop (Suc n) load_bias symtab rel m =
    (let address = load32 m rel + load_bias; info = load32 m (rel + 4)
     in bindR (real_val load_bias symtab address info m) (\<lambda>v.
          rel_loop n load_bias symtab (rel + 8) (store32 m (unat address) v)))"

definition relocate_interp :: "u32 \<Rightarrow> u32 \<Rightarrow> mem \<Rightarrow> mem run option" where
  "relocate_interp DYNAMIC GLOBAL_OFFSET_TABLE m =
    (let load_bias = DYNAMIC - load32 m (unat GLOBAL_OFFSET_TABLE)
     in Option.bind (dyn_loop m load_bias (unat DYNAMIC) \<lparr>d_reltab = 0, d_symtab = 0, d_relsz = 0, d_relent = 0\<rparr>) (\<lambda>r.
        case r of Inl e \<Rightarrow> Some (Stop e)
        | Inr i \<Rightarrow> Some
          (if d_reltab i = 0 then Ok m
           else bindR (assert_noprint (d_relsz i \<noteq> 0)) (\<lambda>_. bindR (assert_noprint (d_relent i \<noteq> 0)) (\<lambda>_.
             let nr_rels = sint (d_relsz i) sdiv sint (d_relent i)
             in rel_loop (nat nr_rels) load_bias (d_symtab i) (unat (d_reltab i)) m)))))"

subsection \<open>Images\<close>

text \<open>A relocation as the table has it, and the word it is to set.\<close>

type_synonym rel = "u32 \<times> u32" \<comment> \<open>\<^verbatim>\<open>r_offset\<close>, \<^verbatim>\<open>r_info\<close>\<close>

fun table_at :: "mem \<Rightarrow> nat \<Rightarrow> (u32 \<times> u32) list \<Rightarrow> bool" where
  "table_at m p [] = True"
| "table_at m p ((a, b) # xs) = (load32 m p = a \<and> load32 m (p + 4) = b \<and> table_at m (p + 8) xs)"

definition rel_target :: "u32 \<Rightarrow> rel \<Rightarrow> nat" where
  "rel_target bias r = unat (fst r + bias)"

definition rel_source :: "u32 \<Rightarrow> u32 \<Rightarrow> rel \<Rightarrow> nat" where
  "rel_source bias symtab r =
    (if ELF32_R_TYPE (snd r) = R_386_RELATIVE then rel_target bias r else unat (symtab + 16 * ELF32_R_SYM (snd r) + 4))"

definition apart :: "nat \<Rightarrow> nat \<Rightarrow> bool" where
  "apart a b \<longleftrightarrow> a + 4 \<le> b \<or> b + 4 \<le> a"

definition hits :: "u32 \<Rightarrow> rel list \<Rightarrow> nat \<Rightarrow> bool" where
  "hits bias rs x \<longleftrightarrow> (\<exists>r\<in>set rs. rel_target bias r \<le> x \<and> x < rel_target bias r + 4)"

text \<open>
  The relocations are of the two supported kinds; no two set overlapping words; none overwrites the
  relocation table at \<open>p\<close> or a symbol that another one reads.
\<close>

fun rels_ok :: "u32 \<Rightarrow> u32 \<Rightarrow> nat \<Rightarrow> rel list \<Rightarrow> bool" where
  "rels_ok bias symtab p [] = True"
| "rels_ok bias symtab p (r # rs) =
    ((ELF32_R_TYPE (snd r) = R_386_RELATIVE \<or> ELF32_R_TYPE (snd r) = R_386_GLOB_DAT \<and> symtab \<noteq> 0)
     \<and> list_all (\<lambda>r'. apart (rel_target bias r) (rel_target bias r') \<and> apart (rel_target bias r) (rel_source bias symtab r')) rs
     \<and> (rel_target bias r + 4 \<le> p + 8 \<or> p + 8 + 8 * length rs \<le> rel_target bias r)
     \<and> rels_ok bias symtab (p + 8) rs)"

lemma load32_other: "apart a b \<Longrightarrow> load32 (store32 m a v) b = load32 m b"
  by (rule load_store32_other) (auto simp: apart_def)

lemma store32_other: "\<not> (a \<le> x \<and> x < a + 4) \<Longrightarrow> store32 m a v x = m x"
  by (auto simp: store32_def)

lemma table_at_store:
  "table_at m p rs \<Longrightarrow> a + 4 \<le> p \<or> p + 8 * length rs \<le> a \<Longrightarrow> table_at (store32 m a v) p rs"
  by (induction m p rs rule: table_at.induct) (auto simp: load_store32_other)

lemma load32_unhit:
  assumes "\<And>x. \<not> hits bias rs x \<Longrightarrow> m' x = m x" "list_all (\<lambda>r'. apart t (rel_target bias r')) rs"
  shows "load32 m' t = load32 m t"
proof -
  have "m' (t + i) = m (t + i)" if "i < 4" for i
    using assms(1) [of "t + i"] assms(2) that unfolding hits_def list_all_iff apart_def by force
  from this [of 0] this [of 1] this [of 2] this [of 3] show ?thesis by (simp add: load32_def)
qed

lemma rel_loop_correct:
  assumes "table_at m p rs" "rels_ok bias symtab p rs"
  shows "\<exists>m'. rel_loop (length rs) bias symtab p m = Ok m' \<and>
    (\<forall>r\<in>set rs. load32 m' (rel_target bias r) = load32 m (rel_source bias symtab r) + bias) \<and>
    (\<forall>x. \<not> hits bias rs x \<longrightarrow> m' x = m x)"
  using assms
proof (induction rs arbitrary: m p)
  case (Cons r rs)
  let ?t = "rel_target bias r" and ?v = "load32 m (rel_source bias symtab r) + bias"
  let ?m = "store32 m ?t ?v"
  obtain off info where r: "r = (off, info)" by (cases r)
  have w: "load32 m p = off" "load32 m (p + 4) = info" "table_at m (p + 8) rs" using Cons.prems(1) by (simp_all add: r)
  have v: "real_val bias symtab (off + bias) info m = Ok ?v"
    using Cons.prems(2) by (auto simp: r real_val_def rel_source_def rel_target_def assert_noprint_def R_386_GLOB_DAT_def R_386_RELATIVE_def)
  have "table_at ?m (p + 8) rs" using w(3) Cons.prems(2) by (intro table_at_store) auto
  from Cons.IH [OF this] Cons.prems(2) obtain m' where m': "rel_loop (length rs) bias symtab (p + 8) ?m = Ok m'"
    "\<And>r'. r' \<in> set rs \<Longrightarrow> load32 m' (rel_target bias r') = load32 ?m (rel_source bias symtab r') + bias"
    "\<And>x. \<not> hits bias rs x \<Longrightarrow> m' x = ?m x" by auto
  have run: "rel_loop (length (r # rs)) bias symtab p m = Ok m'"
    using m'(1) v w by (simp add: Let_def rel_target_def r)
  have first: "load32 m' ?t = ?v"
    using load32_unhit [where t = ?t, OF m'(3)] Cons.prems(2) load_store32 [of m ?t ?v] by (simp add: list_all_iff)
  have rest: "load32 m' (rel_target bias r') = load32 m (rel_source bias symtab r') + bias" if "r' \<in> set rs" for r'
    using m'(2) [OF that] load32_other [of ?t "rel_source bias symtab r'" m ?v] Cons.prems(2) that by (simp add: list_all_iff)
  have "m' x = m x" if "\<not> hits bias (r # rs) x" for x
    using m'(3) [of x] store32_other [of ?t x m ?v] that by (auto simp: hits_def)
  then show ?case using run first rest by auto
qed (simp add: hits_def)

subsection \<open>The dynamic section\<close>

definition tag_value :: "(u32 \<times> u32) list \<Rightarrow> u32 \<Rightarrow> u32 option" where
  "tag_value ds t = map_of (rev ds) t"

definition dyn_result :: "u32 \<Rightarrow> (u32 \<times> u32) list \<Rightarrow> dyn_info \<Rightarrow> dyn_info" where
  "dyn_result bias ds i =
    \<lparr>d_reltab = (case tag_value ds DT_REL of None \<Rightarrow> d_reltab i | Some v \<Rightarrow> v + bias),
     d_symtab = (case tag_value ds DT_SYMTAB of None \<Rightarrow> d_symtab i | Some v \<Rightarrow> v + bias),
     d_relsz = (case tag_value ds DT_RELSZ of None \<Rightarrow> d_relsz i | Some v \<Rightarrow> v),
     d_relent = (case tag_value ds DT_RELENT of None \<Rightarrow> d_relent i | Some v \<Rightarrow> v)\<rparr>"

lemma tag_value_Cons: "tag_value ((t, v) # ds) t' = (case tag_value ds t' of None \<Rightarrow> if t = t' then Some v else None | Some w \<Rightarrow> Some w)"
  by (simp add: tag_value_def map_add_def split: option.splits)

lemma dyn_loop_result:
  assumes "table_at m p ds" "load32 m (p + 8 * length ds) = DT_NULL" "DT_NULL \<notin> fst ` set ds" "DT_RELA \<notin> fst ` set ds"
  shows "dyn_loop m bias p i = Some (Ok (dyn_result bias ds i))"
  using assms
proof (induction ds arbitrary: p i)
  case Nil
  then show ?case by (subst dyn_loop.simps) (simp add: dyn_result_def tag_value_def)
next
  case (Cons d ds)
  obtain t v where d: "d = (t, v)" by (cases d)
  have t: "load32 m p = t" "load32 m (p + 4) = v" "t \<noteq> DT_NULL" "t \<noteq> DT_RELA" using Cons.prems by (auto simp: d)
  define j where "j = \<lparr>d_reltab = (if t = DT_REL then v + bias else d_reltab i), d_symtab = (if t = DT_SYMTAB then v + bias else d_symtab i),
    d_relsz = (if t = DT_RELSZ then v else d_relsz i), d_relent = (if t = DT_RELENT then v else d_relent i)\<rparr>"
  have j: "dyn_entry bias t v i = Ok j" "dyn_result bias ds j = dyn_result bias (d # ds) i"
    using t(4) by (cases i, simp add: j_def dyn_entry_def dt_defs)
      (simp add: j_def dyn_result_def tag_value_Cons d dt_defs split: option.splits)
  have "dyn_loop m bias (p + 8) j = Some (Ok (dyn_result bias ds j))"
    using Cons.prems by (intro Cons.IH) (auto simp: d add.assoc)
  then show ?case using t j by (subst dyn_loop.simps) simp
qed

text \<open>
  C35.  Self-relocation.  The dynamic section names a relocation table of \<open>n > 0\<close> entries of eight
  bytes, in the addresses the object was linked for; the relocations are of the two supported kinds
  and set disjoint words outside the table and the symbols they read.  Then
  \<^verbatim>\<open>relocate_interp\<close> returns, every relocated word holds its former value, or the value of its
  symbol, plus the difference between load and link address, and no other byte of memory changes.
\<close>

theorem relocate_interp_correct:
  fixes m :: mem and DYNAMIC GOT :: u32
  defines "bias \<equiv> DYNAMIC - load32 m (unat GOT)"
  assumes dyn: "table_at m (unat DYNAMIC) ds" "load32 m (unat DYNAMIC + 8 * length ds) = DT_NULL"
      "DT_NULL \<notin> fst ` set ds" "DT_RELA \<notin> fst ` set ds"
    and tags: "tag_value ds DT_REL = Some rel" "tag_value ds DT_RELSZ = Some (word_of_nat (8 * length rs))"
      "tag_value ds DT_RELENT = Some 8" "tag_value ds DT_SYMTAB = Some sy"
    and rels: "table_at m (unat (rel + bias)) rs" "rels_ok bias (sy + bias) (unat (rel + bias)) rs"
      "rel + bias \<noteq> 0" "rs \<noteq> []" "8 * length rs < 2 ^ 31"
  shows "\<exists>m'. relocate_interp DYNAMIC GOT m = Some (Ok m') \<and>
    (\<forall>r\<in>set rs. load32 m' (rel_target bias r) = load32 m (rel_source bias (sy + bias) r) + bias) \<and>
    (\<forall>x. \<not> hits bias rs x \<longrightarrow> m' x = m x)"
proof -
  define i where "i = dyn_result bias ds \<lparr>d_reltab = 0, d_symtab = 0, d_relsz = 0, d_relent = 0\<rparr>"
  have i: "d_reltab i = rel + bias" "d_symtab i = sy + bias" "d_relsz i = word_of_nat (8 * length rs)" "d_relent i = 8"
    by (simp_all add: i_def dyn_result_def tags)
  have s: "sint (d_relsz i) = int (8 * length rs)" unfolding i(3)
    using rels(5) by (subst signed_of_nat) (simp add: signed_take_bit_int_eq_self)
  then have ne: "d_relsz i \<noteq> 0" using rels(4) by auto
  have nr: "nat (sint (d_relsz i) sdiv sint (d_relent i)) = length rs"
    unfolding s i(4) using rels(4) by (simp add: signed_divide_int_def)
  have "relocate_interp DYNAMIC GOT m = Some (rel_loop (length rs) bias (sy + bias) (unat (rel + bias)) m)"
    using dyn_loop_result [OF dyn, of bias] rels(3) ne nr
    by (simp add: relocate_interp_def bias_def [symmetric] i_def [symmetric] i(1,2,4) assert_noprint_def)
  then show ?thesis using rel_loop_correct [OF rels(1,2)] by auto
qed

text \<open>An image linked at 0 and loaded at 0x10000 with one relocation of each kind.\<close>

definition demo_words :: "(nat \<times> u32) list" where
  "demo_words = [(0x10000, 0x100), (0x10100, 17), (0x10104, 0x200), (0x10108, 18), (0x1010c, 16), (0x10110, 19), (0x10114, 8),
    (0x10118, 6), (0x1011c, 0x300), (0x10200, 0x400), (0x10204, 8), (0x10208, 0x404), (0x1020c, 0x106),
    (0x10314, 0x1234), (0x10400, 0x500)]"

definition demo_image_mem :: mem where
  "demo_image_mem = foldl (\<lambda>m (a, w). store32 m a w) (\<lambda>_. 0) demo_words"

theorem relocate_interp_correct_witness:
  "\<exists>m'. relocate_interp 0x10100 0x10000 demo_image_mem = Some (Ok m') \<and>
    load32 m' 0x10400 = 0x10500 \<and> load32 m' 0x10404 = 0x11234 \<and> load32 m' 0x10314 = 0x1234"
proof -
  define ds :: "(u32 \<times> u32) list" where "ds = [(17, 0x200), (18, 16), (19, 8), (6, 0x300)]"
  define rs :: "rel list" where "rs = [(0x400, 8), (0x404, 0x106)]"
  have l: "load32 demo_image_mem 0x10000 = 0x100" "table_at demo_image_mem 0x10100 ds" "load32 demo_image_mem 0x10120 = 0"
    "table_at demo_image_mem 0x10200 rs" "load32 demo_image_mem 0x10314 = 0x1234" "load32 demo_image_mem 0x10400 = 0x500"
    by (simp_all add: demo_image_mem_def demo_words_def ds_def rs_def load32_def store32_def)
  note rel_defs = rel_target_def rel_source_def ELF32_R_TYPE_def ELF32_R_SYM_def R_386_RELATIVE_def R_386_GLOB_DAT_def
  from relocate_interp_correct [where m = demo_image_mem and DYNAMIC = "0x10100" and GOT = "0x10000"
      and ds = ds and rel = "0x200" and rs = rs and sy = "0x300"] l
  have "\<exists>m'. relocate_interp 0x10100 0x10000 demo_image_mem = Some (Ok m') \<and>
      (\<forall>r\<in>set rs. load32 m' (rel_target 0x10000 r) = load32 demo_image_mem (rel_source 0x10000 0x10300 r) + 0x10000) \<and>
      (\<forall>x. \<not> hits 0x10000 rs x \<longrightarrow> m' x = demo_image_mem x)"
    by (simp add: ds_def rs_def dt_defs tag_value_def rel_defs apart_def)
  then obtain m' where m': "relocate_interp 0x10100 0x10000 demo_image_mem = Some (Ok m')"
    "\<forall>r\<in>set rs. load32 m' (rel_target 0x10000 r) = load32 demo_image_mem (rel_source 0x10000 0x10300 r) + 0x10000"
    "\<forall>x. \<not> hits 0x10000 rs x \<longrightarrow> m' x = demo_image_mem x" by blast
  have "load32 m' 0x10314 = load32 demo_image_mem 0x10314"
    using m'(3) by (simp add: load32_def hits_def rs_def rel_target_def)
  then show ?thesis using m'(1,2) l(5,6) by (simp add: rs_def rel_defs)
qed

end
