(* ===== verification/Elf_Load.thy ===== *)
theory Elf_Load
  imports Printf_Pointer Mm
begin

text \<open>
  Loading an executable (\<^verbatim>\<open>load_elf\<close> of \<^verbatim>\<open>src/core/loader/elf.c\<close>): the header and the
  program headers are read from the file, the segments are mapped, and what lies behind the file
  contents of a segment is cleared.

  The address space gives for every address the byte and its protection; an address without one
  faults.  The kernel is a parameter; what is known of it is \<open>elf_kernel\<close> below.  Reading is
  from a position of the file, as \<^verbatim>\<open>open\<close> and \<^verbatim>\<open>lseek\<close> have set it.
\<close>

subsection \<open>The file format\<close>

text \<open>Of the two structures, the fields that the loader reads.\<close>

record elfhdr =
  e_ident :: "byte list"
  e_type :: u16
  e_machine :: u16
  e_entry :: u32
  e_phoff :: u32
  e_phnum :: u16

record elf_phdr =
  p_type :: u32
  p_offset :: u32
  p_vaddr :: u32
  p_filesz :: u32
  p_memsz :: u32
  p_flags :: u32
  p_align :: u32

definition half_at :: "byte list \<Rightarrow> nat \<Rightarrow> u16" where
  "half_at bs i = ucast (ch bs i) OR push_bit 8 (ucast (ch bs (i + 1)))"

definition word_at :: "byte list \<Rightarrow> nat \<Rightarrow> u32" where
  "word_at bs i = load32 (ch bs) i"

text \<open>The structures at their offsets in the 52 and 32 bytes they have on i386.\<close>

definition sizeof_elfhdr :: nat where "sizeof_elfhdr = 52"
definition sizeof_elf_phdr :: nat where "sizeof_elf_phdr = 32"

definition hdr_of :: "byte list \<Rightarrow> elfhdr" where
  "hdr_of bs = \<lparr>e_ident = take 16 bs, e_type = half_at bs 16, e_machine = half_at bs 18, e_entry = word_at bs 24,
    e_phoff = word_at bs 28, e_phnum = half_at bs 44\<rparr>"

definition phdr_of :: "byte list \<Rightarrow> elf_phdr" where
  "phdr_of bs = \<lparr>p_type = word_at bs 0, p_offset = word_at bs 4, p_vaddr = word_at bs 8, p_filesz = word_at bs 16,
    p_memsz = word_at bs 20, p_flags = word_at bs 24, p_align = word_at bs 28\<rparr>"

fun phdrs_of :: "nat \<Rightarrow> byte list \<Rightarrow> elf_phdr list" where
  "phdrs_of 0 bs = []"
| "phdrs_of (Suc n) bs = phdr_of bs # phdrs_of n (drop sizeof_elf_phdr bs)"

definition PT_LOAD :: u32 where "PT_LOAD = 1"
definition PT_INTERP :: u32 where "PT_INTERP = 3"
definition ET_EXEC :: u16 where "ET_EXEC = 2"
definition ET_DYN :: u16 where "ET_DYN = 3"
definition EM_386 :: u16 where "EM_386 = 3"
definition ELFMAG :: "byte list" where "ELFMAG = [0x7f, chr CHR ''E'', chr CHR ''L'', chr CHR ''F'']"
definition PF_R :: u32 where "PF_R = 4"
definition PF_W :: u32 where "PF_W = 2"
definition PF_X :: u32 where "PF_X = 1"
definition MAP_PRIVATE :: u32 where "MAP_PRIVATE = 0x02"
definition MAP_FIXED :: u32 where "MAP_FIXED = 0x10"
definition MAP_ANONYMOUS :: u32 where "MAP_ANONYMOUS = 0x20"
definition MAP_DENYWRITE :: u32 where "MAP_DENYWRITE = 0x0800"

subsection \<open>The address space\<close>

type_synonym space = "nat \<Rightarrow> (byte \<times> u32) option"

record elf_calls =
  ek_open :: "byte list \<Rightarrow> int"
  ek_read :: "int \<Rightarrow> nat \<Rightarrow> nat \<Rightarrow> int \<times> byte list"
  ek_lseek :: "int \<Rightarrow> u32 \<Rightarrow> int"
  ek_mmap2 :: "u32 \<Rightarrow> u32 \<Rightarrow> u32 \<Rightarrow> u32 \<Rightarrow> int \<Rightarrow> u32 \<Rightarrow> space \<Rightarrow> u32 \<times> space"
  ek_munmap :: "u32 \<Rightarrow> u32 \<Rightarrow> space \<Rightarrow> space"

definition sys_uniform_mmap :: "elf_calls \<Rightarrow> u32 \<Rightarrow> u32 \<Rightarrow> u32 \<Rightarrow> u32 \<Rightarrow> int \<Rightarrow> u32 \<Rightarrow> space \<Rightarrow> u32 \<times> space" where
  "sys_uniform_mmap k addr len prot flags fd off sp = ek_mmap2 k addr len prot flags fd (drop_bit 12 off) sp"

definition writable_at :: "space \<Rightarrow> nat \<Rightarrow> bool" where
  "writable_at sp x \<longleftrightarrow> (case sp x of None \<Rightarrow> False | Some (b, p) \<Rightarrow> p AND PROT_WRITE \<noteq> 0)"

definition clear :: "u32 \<Rightarrow> u32 \<Rightarrow> space \<Rightarrow> space run" where
  "clear a n sp =
    (if list_all (writable_at sp) [unat a..<unat a + unat n]
     then Ok (\<lambda>x. if unat a \<le> x \<and> x < unat a + unat n then map_option (\<lambda>(b, p). (0, p)) (sp x) else sp x)
     else Stop Segv)"

subsection \<open>The functions of elf.c\<close>

definition open_elf_file :: "elf_calls \<Rightarrow> byte list \<Rightarrow> (int \<times> elfhdr) run" where
  "open_elf_file k fn =
    (let fd = ek_open k fn
     in bindR (CASSERT (fd \<ge> 0)) (\<lambda>_.
        let (err, bs) = ek_read k fd 0 sizeof_elfhdr; hdr = hdr_of bs
        in bindR (CASSERT (err = int sizeof_elfhdr)) (\<lambda>_.
           bindR (CASSERT (take 4 (e_ident hdr) = ELFMAG)) (\<lambda>_.
           bindR (CASSERT (e_type hdr = ET_DYN \<or> e_type hdr = ET_EXEC)) (\<lambda>_.
           bindR (CASSERT (e_machine hdr = EM_386)) (\<lambda>_. Ok (fd, hdr)))))))"

definition load_phdrs :: "elf_calls \<Rightarrow> int \<Rightarrow> elfhdr \<Rightarrow> elf_phdr list run" where
  "load_phdrs k fd h =
    bindR (assert_that (ek_lseek k fd (e_phoff h) \<ge> 0)) (\<lambda>_.
      let n = unat (e_phnum h); (err, bs) = ek_read k fd (unat (e_phoff h)) (sizeof_elf_phdr * n)
      in bindR (assert_that (err = int (sizeof_elf_phdr * n))) (\<lambda>_. Ok (phdrs_of n bs)))"

text \<open>A division by the alignment 0 traps.\<close>

fun map_extent :: "nat \<Rightarrow> elf_phdr list \<Rightarrow> u32 \<times> u32 \<times> nat \<Rightarrow> (u32 \<times> u32 \<times> nat) run" where
  "map_extent i [] (start, fin, first) = Ok (start, fin, first)"
| "map_extent i (p # ps) (start, fin, first) =
    (if p_type p \<noteq> PT_LOAD then map_extent (i + 1) ps (start, fin, first)
     else
       let (start, first) = (if start > p_vaddr p then (p_vaddr p, i) else (start, first));
           p_end = p_vaddr p + p_memsz p;
           fin = (if fin < p_end then p_end else fin)
       in if p_align p = 0 then Stop Trap
          else bindR (assert_that ((p_vaddr p - p_offset p) mod p_align p = 0)) (\<lambda>_.
            map_extent (i + 1) ps (start, fin, first)))"

definition get_total_map_sz :: "elf_phdr list \<Rightarrow> (u32 \<times> nat) run" where
  "get_total_map_sz phdrs =
    bindR (map_extent 0 phdrs (- 1, 0, 0)) (\<lambda>(start, fin, first).
      let start = ALIGN_DOWN start 0x1000; fin = ALIGN_UP fin 0x1000
      in bindR (assert_that (fin - start > 0)) (\<lambda>_. Ok (fin - start, first)))"

definition get_map_prot :: "u32 \<Rightarrow> u32" where
  "get_map_prot f =
    (if f AND PF_R \<noteq> 0 then PROT_READ else 0) OR (if f AND PF_W \<noteq> 0 then PROT_WRITE else 0)
    OR (if f AND PF_X \<noteq> 0 then PROT_EXEC else 0)"

definition map_first :: "elf_calls \<Rightarrow> int \<Rightarrow> elf_phdr \<Rightarrow> u32 \<Rightarrow> bool \<Rightarrow> space \<Rightarrow> (u32 \<times> u32 \<times> space) run" where
  "map_first k fd ph total_map_sz fixed sp =
    (let start_addr = ALIGN_DOWN (p_vaddr ph) 0x1000;
         end_addr = ALIGN_UP (p_vaddr ph + total_map_sz) 0x1000;
         total_map_sz = end_addr - start_addr;
         map_type = (if fixed then MAP_PRIVATE OR MAP_FIXED else MAP_PRIVATE)
     in bindR (assert_that (p_offset ph = 0)) (\<lambda>_.
        let prot = get_map_prot (p_flags ph);
            (map_addr, sp) = sys_uniform_mmap k (if fixed then start_addr else 0) total_map_sz prot map_type fd (p_offset ph) sp;
            load_bias = (if fixed then 0 else map_addr - p_vaddr ph);
            start_addr = (if \<not> fixed then load_bias + start_addr else start_addr);
            end_addr = (if \<not> fixed then load_bias + end_addr else end_addr);
            unmap_start = ALIGN_UP (start_addr + p_memsz ph) 4096;
            unmap_end = ALIGN_UP end_addr 4096;
            sp = (if unmap_end > unmap_start then ek_munmap k unmap_start (unmap_end - unmap_start) sp else sp)
        in bindR (if p_filesz ph < p_memsz ph \<and> p_flags ph AND PF_W \<noteq> 0
                  then clear (start_addr + p_filesz ph) (p_memsz ph - p_filesz ph) sp else Ok sp) (\<lambda>sp.
             Ok (start_addr, load_bias, sp))))"

definition map_region :: "elf_calls \<Rightarrow> int \<Rightarrow> elf_phdr \<Rightarrow> u32 \<Rightarrow> space \<Rightarrow> space run" where
  "map_region k fd ph load_bias sp =
    (let start = load_bias + p_vaddr ph;
         f_end = start + p_filesz ph;
         m_end = start + p_memsz ph;
         start_al = ALIGN_DOWN start 0x1000;
         f_end_al = ALIGN_UP f_end 0x1000;
         m_end_al = ALIGN_UP m_end 0x1000;
         port = get_map_prot (p_flags ph);
         (addr, sp) = sys_uniform_mmap k start_al (f_end_al - start_al) port (MAP_PRIVATE OR MAP_FIXED) fd (p_offset ph) sp
     in bindR (assert_that (addr = start_al)) (\<lambda>_.
        bindR (if m_end_al > f_end_al then
                 let (addr, sp) = sys_uniform_mmap k f_end_al (m_end_al - f_end_al) port
                       (MAP_PRIVATE OR MAP_ANONYMOUS OR MAP_DENYWRITE OR MAP_FIXED) 0 0 sp
                 in bindR (assert_that (addr = f_end_al)) (\<lambda>_. Ok sp)
               else Ok sp) (\<lambda>sp.
          clear f_end (m_end_al - f_end) sp)))"

fun map_others :: "elf_calls \<Rightarrow> int \<Rightarrow> nat \<Rightarrow> u32 \<Rightarrow> nat \<Rightarrow> elf_phdr list \<Rightarrow> bool \<times> space \<Rightarrow> (bool \<times> space) run" where
  "map_others k fd first load_bias i [] s = Ok s"
| "map_others k fd first load_bias i (p # ps) (need_interp, sp) =
    (let need_interp = (if p_type p = PT_INTERP then True else need_interp)
     in if i = first \<or> p_type p \<noteq> PT_LOAD then map_others k fd first load_bias (i + 1) ps (need_interp, sp)
        else bindR (map_region k fd p load_bias sp) (\<lambda>sp. map_others k fd first load_bias (i + 1) ps (need_interp, sp)))"

record loaded =
  l_entry :: u32
  l_bias :: u32
  l_phdrs :: u32
  l_nr_phdrs :: nat
  l_need_interp :: bool

definition load_elf :: "elf_calls \<Rightarrow> byte list \<Rightarrow> space \<Rightarrow> (loaded \<times> space) run" where
  "load_elf k fn sp =
    bindR (open_elf_file k fn) (\<lambda>(fd, hdr).
    bindR (load_phdrs k fd hdr) (\<lambda>phdrs.
    bindR (get_total_map_sz phdrs) (\<lambda>(total_map_sz, first).
    if first \<ge> length phdrs then Stop Segv
    else bindR (map_first k fd (phdrs ! first) total_map_sz (e_type hdr = ET_EXEC) sp) (\<lambda>(map_addr, load_bias, sp).
    bindR (map_others k fd first load_bias 0 phdrs (False, sp)) (\<lambda>(need_interp, sp).
      Ok (\<lparr>l_entry = load_bias + e_entry hdr, l_bias = load_bias, l_phdrs = map_addr + e_phoff hdr,
           l_nr_phdrs = unat (e_phnum hdr), l_need_interp = need_interp\<rparr>, sp))))))"

subsection \<open>The kernel\<close>

definition pdown :: "nat \<Rightarrow> nat" where "pdown x = x - x mod 4096"
definition pup :: "nat \<Rightarrow> nat" where "pup x = (x + 4095) div 4096 * 4096"

text \<open>
  A mapping of a file: a page that begins behind the end of the file faults, the rest of the last
  page is zero.  A private mapping never changes the file.
\<close>

definition mapped :: "byte list option \<Rightarrow> nat \<Rightarrow> nat \<Rightarrow> u32 \<Rightarrow> nat \<Rightarrow> space \<Rightarrow> space" where
  "mapped file a len prot off sp = (\<lambda>x.
    if a \<le> x \<and> x < a + len then
      case file of None \<Rightarrow> Some (0, prot)
      | Some f \<Rightarrow> if x - a + off < pup (length f) then Some (ch f (x - a + off), prot) else None
    else sp x)"

definition unmapped :: "nat \<Rightarrow> nat \<Rightarrow> space \<Rightarrow> space" where
  "unmapped a len sp = (\<lambda>x. if a \<le> x \<and> x < a + len then None else sp x)"

definition page_range :: "u32 \<Rightarrow> u32 \<Rightarrow> bool" where
  "page_range a len \<longleftrightarrow> unat a mod 4096 = 0 \<and> unat len mod 4096 = 0 \<and> 0 < len \<and> unat a + unat len + 4096 \<le> 2 ^ 32"

definition elf_kernel :: "elf_calls \<Rightarrow> byte list \<Rightarrow> byte list \<Rightarrow> bool" where
  "elf_kernel k fn file \<longleftrightarrow>
    ek_open k fn \<ge> 0 \<and>
    (\<forall>pos n. ek_read k (ek_open k fn) pos n = (int (length (take n (drop pos file))), take n (drop pos file))) \<and>
    (\<forall>off. unat off \<le> length file \<longrightarrow> ek_lseek k (ek_open k fn) off \<ge> 0) \<and>
    (\<forall>a len prot pg sp. page_range a len \<longrightarrow>
      ek_mmap2 k a len prot (MAP_PRIVATE OR MAP_FIXED) (ek_open k fn) pg sp = (a, mapped (Some file) (unat a) (unat len) prot (unat pg * 4096) sp)) \<and>
    (\<forall>a len prot fd pg sp. page_range a len \<longrightarrow>
      ek_mmap2 k a len prot (MAP_PRIVATE OR MAP_ANONYMOUS OR MAP_DENYWRITE OR MAP_FIXED) fd pg sp = (a, mapped None (unat a) (unat len) prot 0 sp)) \<and>
    (\<forall>len prot pg sp. unat len mod 4096 = 0 \<longrightarrow> 0 < len \<longrightarrow> unat len \<le> 2 ^ 31 \<longrightarrow>
      (\<exists>a. page_range a len \<and>
        ek_mmap2 k 0 len prot MAP_PRIVATE (ek_open k fn) pg sp = (a, mapped (Some file) (unat a) (unat len) prot (unat pg * 4096) sp))) \<and>
    (\<forall>a len sp. page_range a len \<longrightarrow> ek_munmap k a len sp = unmapped (unat a) (unat len) sp)"

lemma elf_kernelD:
  assumes "elf_kernel k fn file"
  shows "ek_open k fn \<ge> 0"
    "ek_read k (ek_open k fn) pos n = (int (length (take n (drop pos file))), take n (drop pos file))"
    "unat off \<le> length file \<Longrightarrow> ek_lseek k (ek_open k fn) off \<ge> 0"
    "page_range a len \<Longrightarrow> ek_mmap2 k a len prot (MAP_PRIVATE OR MAP_FIXED) (ek_open k fn) pg sp =
      (a, mapped (Some file) (unat a) (unat len) prot (unat pg * 4096) sp)"
    "page_range a len \<Longrightarrow> ek_mmap2 k a len prot (MAP_PRIVATE OR MAP_ANONYMOUS OR MAP_DENYWRITE OR MAP_FIXED) fd pg sp =
      (a, mapped None (unat a) (unat len) prot 0 sp)"
    "unat len mod 4096 = 0 \<Longrightarrow> 0 < len \<Longrightarrow> unat len \<le> 2 ^ 31 \<Longrightarrow> \<exists>a. page_range a len \<and>
      ek_mmap2 k 0 len prot MAP_PRIVATE (ek_open k fn) pg sp = (a, mapped (Some file) (unat a) (unat len) prot (unat pg * 4096) sp)"
    "page_range a len \<Longrightarrow> ek_munmap k a len sp = unmapped (unat a) (unat len) sp"
proof -
  note u = assms [unfolded elf_kernel_def]
  show "ek_open k fn \<ge> 0" using u by (rule conjunct1)
  note u = u [THEN conjunct2]
  show "ek_read k (ek_open k fn) pos n = (int (length (take n (drop pos file))), take n (drop pos file))"
    by (rule u [THEN conjunct1, rule_format])
  note u = u [THEN conjunct2]
  show "unat off \<le> length file \<Longrightarrow> ek_lseek k (ek_open k fn) off \<ge> 0"
    by (rule u [THEN conjunct1, rule_format])
  note u = u [THEN conjunct2]
  show "page_range a len \<Longrightarrow> ek_mmap2 k a len prot (MAP_PRIVATE OR MAP_FIXED) (ek_open k fn) pg sp =
      (a, mapped (Some file) (unat a) (unat len) prot (unat pg * 4096) sp)"
    by (rule u [THEN conjunct1, rule_format])
  note u = u [THEN conjunct2]
  show "page_range a len \<Longrightarrow> ek_mmap2 k a len prot (MAP_PRIVATE OR MAP_ANONYMOUS OR MAP_DENYWRITE OR MAP_FIXED) fd pg sp =
      (a, mapped None (unat a) (unat len) prot 0 sp)"
    by (rule u [THEN conjunct1, rule_format])
  note u = u [THEN conjunct2]
  show "unat len mod 4096 = 0 \<Longrightarrow> 0 < len \<Longrightarrow> unat len \<le> 2 ^ 31 \<Longrightarrow> \<exists>a. page_range a len \<and>
      ek_mmap2 k 0 len prot MAP_PRIVATE (ek_open k fn) pg sp = (a, mapped (Some file) (unat a) (unat len) prot (unat pg * 4096) sp)"
    by (rule u [THEN conjunct1, rule_format])
  show "page_range a len \<Longrightarrow> ek_munmap k a len sp = unmapped (unat a) (unat len) sp"
    by (rule u [THEN conjunct2, rule_format])
qed

subsection \<open>Pages\<close>

lemma pup_mod [simp]: "pup x mod 4096 = 0" and pdown_mod [simp]: "pdown x mod 4096 = 0"
  by (simp_all add: pup_def pdown_def minus_mod_eq_mult_div)

lemma page_diff: "a mod 4096 = 0 \<Longrightarrow> b mod 4096 = 0 \<Longrightarrow> (a - b) mod (4096 :: nat) = 0"
  by (auto simp flip: diff_mult_distrib2)

lemma page_sum: "a mod 4096 = 0 \<Longrightarrow> b mod 4096 = 0 \<Longrightarrow> (a + b) mod (4096 :: nat) = 0"
  by auto

lemma pup_eq: "pup x = x + 4095 - (x + 4095) mod 4096"
  by (simp add: pup_def minus_mod_eq_div_mult)

lemma pdown_le: "pdown x \<le> x" and pdown_gt: "x < pdown x + 4096"
  using mod_less_divisor [of 4096 x] by (simp_all add: pdown_def less_diff_conv)

lemma pup_ge: "x \<le> pup x" and pup_lt: "pup x < x + 4096"
  using mod_less_divisor [of 4096 "x + 4095"] by (simp_all add: pup_eq)

lemma pup_mono: "x \<le> y \<Longrightarrow> pup x \<le> pup y"
  by (simp add: pup_def div_le_mono)

lemma pup_aligned: "x mod 4096 = 0 \<Longrightarrow> pup x = x"
  by (auto simp: pup_def)

lemma pdown_aligned: "x mod 4096 = 0 \<Longrightarrow> pdown x = x"
  by (simp add: pdown_def)

lemma pup_least: "y mod 4096 = 0 \<Longrightarrow> x \<le> y \<Longrightarrow> pup x \<le> y"
  using pup_mono [of x y] by (simp add: pup_aligned)

lemma unat_page_down: "unat (ALIGN_DOWN v 0x1000) = pdown (unat v)"
  using unat_ALIGN_DOWN [of v 12] by (simp add: pdown_def)

lemma unat_page_up: "unat v + 4096 \<le> 2 ^ 32 \<Longrightarrow> unat (ALIGN_UP v 0x1000) = pup (unat v)"
  using unat_ALIGN_UP [where v = v and n = 12] by (simp add: pup_def)

lemma unat_drop12: "unat (drop_bit 12 (w :: u32)) * 4096 = pdown (unat w)"
  by (simp add: drop_bit_eq_div unat_div pdown_def minus_mod_eq_div_mult)

lemma prot_write: "get_map_prot f AND PROT_WRITE \<noteq> 0 \<longleftrightarrow> f AND PF_W \<noteq> 0"
  by (simp add: get_map_prot_def PROT_READ_def PROT_WRITE_def PROT_EXEC_def)

lemma clear_ok:
  assumes "\<And>x. unat a \<le> x \<Longrightarrow> x < unat a + unat n \<Longrightarrow> \<exists>b. sp x = Some (b, prot)" "n \<noteq> 0 \<Longrightarrow> prot AND PROT_WRITE \<noteq> 0"
  shows "clear a n sp = Ok (\<lambda>x. if unat a \<le> x \<and> x < unat a + unat n then Some (0, prot) else sp x)"
proof -
  have "writable_at sp x" if "unat a \<le> x" "x < unat a + unat n" for x
  proof -
    have "n \<noteq> 0" using that by auto
    then show ?thesis using assms(1) [OF that] assms(2) by (auto simp: writable_at_def)
  qed
  then have "list_all (writable_at sp) [unat a..<unat a + unat n]" by (simp add: list_all_iff)
  moreover have "map_option (\<lambda>(b, p). (0, p)) (sp x) = Some (0, prot)" if "unat a \<le> x" "x < unat a + unat n" for x
    using assms(1) [OF that] by auto
  ultimately show ?thesis by (auto simp: clear_def fun_eq_iff)
qed

lemma clear_faults: "x \<in> {unat a..<unat a + unat n} \<Longrightarrow> \<not> writable_at sp x \<Longrightarrow> clear a n sp = Stop Segv"
  by (auto simp: clear_def list_all_iff)

subsection \<open>One segment\<close>

definition seg_lo :: "u32 \<Rightarrow> elf_phdr \<Rightarrow> nat" where
  "seg_lo b p = unat (b + p_vaddr p)"

definition seg_file_end :: "u32 \<Rightarrow> elf_phdr \<Rightarrow> nat" where
  "seg_file_end b p = seg_lo b p + unat (p_filesz p)"

definition seg_end :: "u32 \<Rightarrow> elf_phdr \<Rightarrow> nat" where
  "seg_end b p = pup (seg_lo b p + unat (p_memsz p))"

text \<open>A segment with contents, inside the file and below the last page of the address space.\<close>

definition seg_ok :: "byte list \<Rightarrow> u32 \<Rightarrow> elf_phdr \<Rightarrow> bool" where
  "seg_ok file b p \<longleftrightarrow> 0 < p_filesz p \<and> p_filesz p \<le> p_memsz p \<and> unat (p_offset p) + unat (p_filesz p) \<le> length file \<and>
    seg_lo b p mod 4096 = unat (p_offset p) mod 4096 \<and> seg_end b p + 4096 \<le> 2 ^ 32"

text \<open>What is cleared is writable, or nothing is cleared.\<close>

definition tail_ok :: "u32 \<Rightarrow> elf_phdr \<Rightarrow> bool" where
  "tail_ok b p \<longleftrightarrow> p_flags p AND PF_W \<noteq> 0 \<or> seg_file_end b p = seg_end b p"

definition seg_image :: "byte list \<Rightarrow> u32 \<Rightarrow> elf_phdr \<Rightarrow> space \<Rightarrow> space" where
  "seg_image file b p sp = (\<lambda>x.
    if pdown (seg_lo b p) \<le> x \<and> x < seg_file_end b p
      then Some (ch file (x - pdown (seg_lo b p) + pdown (unat (p_offset p))), get_map_prot (p_flags p))
    else if seg_file_end b p \<le> x \<and> x < seg_end b p then Some (0, get_map_prot (p_flags p))
    else sp x)"

lemma pup_add_page: "y mod 4096 = 0 \<Longrightarrow> pup (y + m) = y + pup m"
proof -
  assume "y mod 4096 = 0"
  then obtain q where "y = 4096 * q" by auto
  then show ?thesis by (simp add: pup_def add.assoc distrib_right)
qed

lemma pup_shift:
  assumes "a mod 4096 = o' mod 4096"
  shows "pup (a + n) + pdown o' = pup (o' + n) + pdown a"
proof -
  have "a + n = pdown a + (a mod 4096 + n)" by (simp add: pdown_def)
  moreover have "o' + n = pdown o' + (a mod 4096 + n)" unfolding assms by (simp add: pdown_def)
  ultimately have "pup (a + n) = pdown a + pup (a mod 4096 + n)" "pup (o' + n) = pdown o' + pup (a mod 4096 + n)"
    by (simp_all only: pup_add_page pdown_mod)
  then show ?thesis by simp
qed

lemma mapped_file_at:
  assumes "a \<le> x" "x < a + len" "x - a + off < pup (length f)"
  shows "mapped (Some f) a len prot off sp x = Some (ch f (x - a + off), prot)"
  using assms by (simp add: mapped_def)

lemma seg_ends:
  assumes "seg_ok file b p"
  shows "pdown (seg_lo b p) \<le> seg_lo b p" "seg_lo b p < seg_file_end b p" "seg_file_end b p \<le> pup (seg_file_end b p)"
    "pup (seg_file_end b p) \<le> seg_end b p" "seg_end b p + 4096 \<le> 2 ^ 32" "seg_file_end b p \<le> seg_lo b p + unat (p_memsz p)"
    "seg_lo b p + unat (p_memsz p) \<le> seg_end b p" "seg_end b p < seg_lo b p + unat (p_memsz p) + 4096"
    "pup (seg_file_end b p) - pdown (seg_lo b p) + pdown (unat (p_offset p)) \<le> pup (length file)"
proof -
  have s: "0 < unat (p_filesz p)" "unat (p_filesz p) \<le> unat (p_memsz p)" "unat (p_offset p) + unat (p_filesz p) \<le> length file"
    "seg_lo b p mod 4096 = unat (p_offset p) mod 4096" "seg_end b p + 4096 \<le> 2 ^ 32"
    using assms by (simp_all add: seg_ok_def word_less_nat_alt word_le_nat_alt)
  show "pdown (seg_lo b p) \<le> seg_lo b p" "seg_file_end b p \<le> pup (seg_file_end b p)"
    by (rule pdown_le pup_ge)+
  show "seg_lo b p < seg_file_end b p" "seg_file_end b p \<le> seg_lo b p + unat (p_memsz p)" using s by (simp_all add: seg_file_end_def)
  show "pup (seg_file_end b p) \<le> seg_end b p" using s by (simp add: seg_file_end_def seg_end_def pup_mono)
  show "seg_lo b p + unat (p_memsz p) \<le> seg_end b p" unfolding seg_end_def by (rule pup_ge)
  show "seg_end b p < seg_lo b p + unat (p_memsz p) + 4096" unfolding seg_end_def by (rule pup_lt)
  show "seg_end b p + 4096 \<le> 2 ^ 32" by (rule s(5))
  have "pup (seg_file_end b p) + pdown (unat (p_offset p)) = pup (unat (p_offset p) + unat (p_filesz p)) + pdown (seg_lo b p)"
    unfolding seg_file_end_def by (rule pup_shift [OF s(4)])
  moreover have "pup (unat (p_offset p) + unat (p_filesz p)) \<le> pup (length file)" by (rule pup_mono [OF s(3)])
  moreover have "pdown (seg_lo b p) \<le> pup (seg_file_end b p)"
    using pdown_le [of "seg_lo b p"] pup_ge [of "seg_file_end b p"] by (simp add: seg_file_end_def)
  ultimately show "pup (seg_file_end b p) - pdown (seg_lo b p) + pdown (unat (p_offset p)) \<le> pup (length file)" by linarith
qed

lemma map_region_words:
  assumes "seg_ok file b p"
  defines "f_end \<equiv> b + p_vaddr p + p_filesz p" and "m_end \<equiv> b + p_vaddr p + p_memsz p"
  shows "unat f_end = seg_file_end b p" "unat m_end = seg_lo b p + unat (p_memsz p)"
    "unat (ALIGN_UP f_end 0x1000) = pup (seg_file_end b p)" "unat (ALIGN_UP m_end 0x1000) = seg_end b p"
    "unat (ALIGN_DOWN (b + p_vaddr p) 0x1000) = pdown (seg_lo b p)"
proof -
  note e = seg_ends [OF assms(1)]
  show f: "unat f_end = seg_file_end b p" and m: "unat m_end = seg_lo b p + unat (p_memsz p)"
    using e unfolding f_end_def m_end_def by (subst unat_add_lem [THEN iffD1]; simp add: seg_lo_def seg_file_end_def)+
  show "unat (ALIGN_UP f_end 0x1000) = pup (seg_file_end b p)" using unat_page_up [of f_end] e f by simp
  show "unat (ALIGN_UP m_end 0x1000) = seg_end b p" using unat_page_up [of m_end] e m by (simp add: seg_end_def)
  show "unat (ALIGN_DOWN (b + p_vaddr p) 0x1000) = pdown (seg_lo b p)" by (simp add: unat_page_down seg_lo_def)
qed

lemma file_pages_at:
  assumes "seg_ok file b p" "pdown (seg_lo b p) \<le> x" "x < pup (seg_file_end b p)"
  shows "mapped (Some file) (pdown (seg_lo b p)) (pup (seg_file_end b p) - pdown (seg_lo b p)) prot (pdown (unat (p_offset p))) sp x =
    Some (ch file (x - pdown (seg_lo b p) + pdown (unat (p_offset p))), prot)"
  by (rule mapped_file_at) (use seg_ends [OF assms(1)] assms(2,3) in linarith)+

lemma map_file_part:
  assumes k: "elf_kernel k fn file" and s: "seg_ok file b p"
  shows "sys_uniform_mmap k (ALIGN_DOWN (b + p_vaddr p) 0x1000)
      (ALIGN_UP (b + p_vaddr p + p_filesz p) 0x1000 - ALIGN_DOWN (b + p_vaddr p) 0x1000) prot (MAP_PRIVATE OR MAP_FIXED)
      (ek_open k fn) (p_offset p) sp =
    (ALIGN_DOWN (b + p_vaddr p) 0x1000,
      mapped (Some file) (pdown (seg_lo b p)) (pup (seg_file_end b p) - pdown (seg_lo b p)) prot (pdown (unat (p_offset p))) sp)"
proof -
  note w = map_region_words [OF s] and e = seg_ends [OF s]
  let ?a = "ALIGN_DOWN (b + p_vaddr p) 0x1000" and ?f = "ALIGN_UP (b + p_vaddr p + p_filesz p) 0x1000"
  have d: "unat (?f - ?a) = pup (seg_file_end b p) - pdown (seg_lo b p)"
    using e by (subst unat_sub_32) (simp_all add: w word_le_nat_alt)
  have m: "(pup (seg_file_end b p) - pdown (seg_lo b p)) mod 4096 = 0"
    by (rule page_diff) simp_all
  have "page_range ?a (?f - ?a)"
    using e m d w by (simp add: page_range_def word_less_nat_alt)
  from elf_kernelD(4) [OF k this] show ?thesis
    by (simp add: sys_uniform_mmap_def unat_drop12 d w)
qed

lemma map_anon_part:
  assumes k: "elf_kernel k fn file" and s: "seg_ok file b p" and lt: "pup (seg_file_end b p) < seg_end b p"
  defines "f \<equiv> ALIGN_UP (b + p_vaddr p + p_filesz p) 0x1000" and "m \<equiv> ALIGN_UP (b + p_vaddr p + p_memsz p) 0x1000"
  shows "sys_uniform_mmap k f (m - f) prot (MAP_PRIVATE OR MAP_ANONYMOUS OR MAP_DENYWRITE OR MAP_FIXED) 0 0 sp =
    (f, mapped None (pup (seg_file_end b p)) (seg_end b p - pup (seg_file_end b p)) prot 0 sp)"
proof -
  note w = map_region_words [OF s, folded f_def m_def] and e = seg_ends [OF s]
  have d: "unat (m - f) = seg_end b p - pup (seg_file_end b p)"
    using lt by (subst unat_sub_32) (simp_all add: w word_le_nat_alt)
  have "(seg_end b p - pup (seg_file_end b p)) mod 4096 = 0"
    unfolding seg_end_def by (rule page_diff) simp_all
  then have "page_range f (m - f)"
    using e lt d w by (simp add: page_range_def word_less_nat_alt)
  from elf_kernelD(5) [OF k this] show ?thesis by (simp add: sys_uniform_mmap_def d w)
qed

lemma map_region_maps:
  assumes k: "elf_kernel k fn file" and s: "seg_ok file b p"
  obtains sp2 where "map_region k (ek_open k fn) p b sp =
      clear (b + p_vaddr p + p_filesz p) (ALIGN_UP (b + p_vaddr p + p_memsz p) 0x1000 - (b + p_vaddr p + p_filesz p)) sp2"
    "\<And>x. pdown (seg_lo b p) \<le> x \<Longrightarrow> x < pup (seg_file_end b p) \<Longrightarrow>
      sp2 x = Some (ch file (x - pdown (seg_lo b p) + pdown (unat (p_offset p))), get_map_prot (p_flags p))"
    "\<And>x. pup (seg_file_end b p) \<le> x \<Longrightarrow> x < seg_end b p \<Longrightarrow> sp2 x = Some (0, get_map_prot (p_flags p))"
    "\<And>x. x < pdown (seg_lo b p) \<or> seg_end b p \<le> x \<Longrightarrow> sp2 x = sp x"
proof -
  note w = map_region_words [OF s] and e = seg_ends [OF s]
  let ?prot = "get_map_prot (p_flags p)" and ?f = "ALIGN_UP (b + p_vaddr p + p_filesz p) 0x1000"
    and ?m = "ALIGN_UP (b + p_vaddr p + p_memsz p) 0x1000"
  define sp1 where "sp1 = mapped (Some file) (pdown (seg_lo b p)) (pup (seg_file_end b p) - pdown (seg_lo b p)) ?prot (pdown (unat (p_offset p))) sp"
  define sp2 where "sp2 = (if pup (seg_file_end b p) < seg_end b p
    then mapped None (pup (seg_file_end b p)) (seg_end b p - pup (seg_file_end b p)) ?prot 0 sp1 else sp1)"
  have lt: "?m > ?f \<longleftrightarrow> pup (seg_file_end b p) < seg_end b p" by (simp add: word_less_nat_alt w)
  show ?thesis
  proof (rule that [of sp2])
    show "map_region k (ek_open k fn) p b sp = clear (b + p_vaddr p + p_filesz p) (?m - (b + p_vaddr p + p_filesz p)) sp2"
      unfolding map_region_def Let_def map_file_part [OF k s] split_conv sp1_def [symmetric] lt
      using map_anon_part [OF k s, of ?prot sp1]
      by (cases "pup (seg_file_end b p) < seg_end b p") (simp_all add: sp2_def)
    show "sp2 x = Some (ch file (x - pdown (seg_lo b p) + pdown (unat (p_offset p))), ?prot)"
      if "pdown (seg_lo b p) \<le> x" "x < pup (seg_file_end b p)" for x
      using file_pages_at [OF s that, of ?prot sp] that by (simp add: sp2_def mapped_def sp1_def)
    show "sp2 x = Some (0, ?prot)" if "pup (seg_file_end b p) \<le> x" "x < seg_end b p" for x
      using that by (simp add: sp2_def mapped_def)
    show "sp2 x = sp x" if "x < pdown (seg_lo b p) \<or> seg_end b p \<le> x" for x
      using that e by (auto simp: sp2_def sp1_def mapped_def)
  qed
qed

lemma cleared_length:
  "seg_ok file b p \<Longrightarrow> unat (ALIGN_UP (b + p_vaddr p + p_memsz p) 0x1000 - (b + p_vaddr p + p_filesz p)) = seg_end b p - seg_file_end b p"
  using seg_ends [of "file" b p] map_region_words [of "file" b p] by (subst unat_sub_32) (simp_all add: word_le_nat_alt)

lemma map_region_image:
  assumes k: "elf_kernel k fn file" and s: "seg_ok file b p" and t: "tail_ok b p"
  shows "map_region k (ek_open k fn) p b sp = Ok (seg_image file b p sp)"
proof -
  note w = map_region_words [OF s] and e = seg_ends [OF s] and d = cleared_length [OF s]
  let ?prot = "get_map_prot (p_flags p)" and ?f = "b + p_vaddr p + p_filesz p" and ?m = "ALIGN_UP (b + p_vaddr p + p_memsz p) 0x1000"
  obtain sp2 where run: "map_region k (ek_open k fn) p b sp = clear ?f (?m - ?f) sp2"
    and sp2: "\<And>x. pdown (seg_lo b p) \<le> x \<Longrightarrow> x < pup (seg_file_end b p) \<Longrightarrow>
      sp2 x = Some (ch file (x - pdown (seg_lo b p) + pdown (unat (p_offset p))), ?prot)"
    "\<And>x. pup (seg_file_end b p) \<le> x \<Longrightarrow> x < seg_end b p \<Longrightarrow> sp2 x = Some (0, ?prot)"
    "\<And>x. x < pdown (seg_lo b p) \<or> seg_end b p \<le> x \<Longrightarrow> sp2 x = sp x"
    by (rule map_region_maps [OF k s, of sp]) blast
  have "clear ?f (?m - ?f) sp2 = Ok (\<lambda>x. if seg_file_end b p \<le> x \<and> x < seg_end b p then Some (0, ?prot) else sp2 x)"
  proof (subst clear_ok [where prot = ?prot])
    fix x assume "unat ?f \<le> x" "x < unat ?f + unat (?m - ?f)"
    then have x: "seg_file_end b p \<le> x" "x < seg_end b p" using e by (simp_all add: w d)
    then have "pdown (seg_lo b p) \<le> x" using e by linarith
    with x show "\<exists>c. sp2 x = Some (c, ?prot)" using sp2 by (cases "x < pup (seg_file_end b p)") simp_all
  next
    assume "?m - ?f \<noteq> 0"
    then have "seg_file_end b p \<noteq> seg_end b p" using d by (metis diff_self_eq_0 unat_eq_0)
    then show "?prot AND PROT_WRITE \<noteq> 0" using t prot_write by (simp add: tail_ok_def)
  qed (use e in \<open>simp_all add: w d\<close>)
  also have "(\<lambda>x. if seg_file_end b p \<le> x \<and> x < seg_end b p then Some (0, ?prot) else sp2 x) = seg_image file b p sp"
  proof
    fix x show "(if seg_file_end b p \<le> x \<and> x < seg_end b p then Some (0, ?prot) else sp2 x) = seg_image file b p sp x"
      using e sp2(1,3) [of x] by (cases "x < seg_file_end b p") (auto simp: seg_image_def)
  qed
  finally show ?thesis using run by simp
qed

subsection \<open>All segments\<close>

definition loads :: "elf_phdr list \<Rightarrow> elf_phdr list" where
  "loads = filter (\<lambda>p. p_type p = PT_LOAD)"

lemma loads_simps [simp]: "loads [] = []" "loads (p # ps) = (if p_type p = PT_LOAD then p # loads ps else loads ps)"
  "loads (ps @ qs) = loads ps @ loads qs"
  by (simp_all add: loads_def)

lemma loads_split:
  assumes "loads ps = f # qs"
  obtains pre post where "ps = pre @ f # post" "loads pre = []" "loads post = qs" "p_type f = PT_LOAD"
  using assms unfolding loads_def by (auto simp: filter_eq_Cons_iff filter_empty_conv)

lemma map_others_skip:
  "loads ps = [] \<Longrightarrow> map_others k fd first b i (ps @ qs) (ni, sp) =
    map_others k fd first b (i + length ps) qs (ni \<or> (\<exists>p\<in>set ps. p_type p = PT_INTERP), sp)"
  by (induction ps arbitrary: i ni) (auto simp: Let_def split: if_splits)

lemma map_others_image:
  assumes "elf_kernel k fn file" "first < i" "\<forall>p\<in>set (loads ps). seg_ok file b p \<and> tail_ok b p"
  shows "map_others k (ek_open k fn) first b i ps (ni, sp) =
    Ok (ni \<or> (\<exists>p\<in>set ps. p_type p = PT_INTERP), fold (seg_image file b) (loads ps) sp)"
  using assms(2,3)
proof (induction ps arbitrary: i ni sp)
  case (Cons p ps)
  show ?case
  proof (cases "p_type p = PT_LOAD")
    case True
    with Cons.prems have "map_region k (ek_open k fn) p b sp = Ok (seg_image file b p sp)"
      by (intro map_region_image [OF assms(1)]) simp_all
    moreover have "p_type p \<noteq> PT_INTERP" using True by (simp add: PT_LOAD_def PT_INTERP_def)
    ultimately show ?thesis using Cons True by simp
  next
    case False
    then show ?thesis using Cons by (auto simp: Let_def)
  qed
qed simp

definition apart_pages :: "u32 \<Rightarrow> elf_phdr \<Rightarrow> elf_phdr \<Rightarrow> bool" where
  "apart_pages b p q \<longleftrightarrow> seg_end b p \<le> pdown (seg_lo b q)"

definition seg_byte :: "byte list \<Rightarrow> elf_phdr \<Rightarrow> nat \<Rightarrow> byte \<times> u32" where
  "seg_byte file p i = (if i < unat (p_filesz p) then file ! (unat (p_offset p) + i) else 0, get_map_prot (p_flags p))"

lemma seg_image_at:
  assumes "seg_ok file b p" "i < unat (p_memsz p)"
  shows "seg_image file b p sp (seg_lo b p + i) = Some (seg_byte file p i)"
proof -
  note e = seg_ends [OF assms(1)]
  have m: "seg_lo b p mod 4096 = unat (p_offset p) mod 4096" and l: "unat (p_offset p) + unat (p_filesz p) \<le> length file"
    using assms(1) by (simp_all add: seg_ok_def)
  have "seg_lo b p - pdown (seg_lo b p) = unat (p_offset p) - pdown (unat (p_offset p))"
    using m by (simp add: pdown_def)
  then have "seg_lo b p + i - pdown (seg_lo b p) + pdown (unat (p_offset p)) = unat (p_offset p) + i"
    using pdown_le [of "seg_lo b p"] pdown_le [of "unat (p_offset p)"] by simp
  then show ?thesis using e assms(2) l by (auto simp: seg_image_def seg_byte_def ch_def seg_file_end_def)
qed

lemma seg_image_outside: "x < pdown (seg_lo b p) \<or> seg_end b p \<le> x \<Longrightarrow> seg_ok file b p \<Longrightarrow> seg_image file b p sp x = sp x"
  using seg_ends [of "file" b p] by (auto simp: seg_image_def)

lemma fold_outside:
  "\<forall>p\<in>set ps. seg_ok file b p \<and> (x < pdown (seg_lo b p) \<or> seg_end b p \<le> x) \<Longrightarrow> fold (seg_image file b) ps sp x = sp x"
  by (induction ps arbitrary: sp) (simp_all add: seg_image_outside)

lemma fold_at:
  assumes "\<forall>p\<in>set ps. seg_ok file b p" "sorted_wrt (apart_pages b) ps" "p \<in> set ps" "i < unat (p_memsz p)"
  shows "fold (seg_image file b) ps sp (seg_lo b p + i) = Some (seg_byte file p i)"
  using assms(1-3)
proof (induction ps arbitrary: sp)
  case (Cons q qs)
  show ?case
  proof (cases "p \<in> set qs")
    case False
    then have "p = q" using Cons.prems by simp
    have "seg_lo b p + i < seg_end b p" using seg_ends(7) [of "file" b p] Cons.prems \<open>p = q\<close> assms(4) by simp
    then have "\<forall>r\<in>set qs. seg_ok file b r \<and> (seg_lo b p + i < pdown (seg_lo b r) \<or> seg_end b r \<le> seg_lo b p + i)"
      using Cons.prems \<open>p = q\<close> by (auto simp: apart_pages_def)
    from fold_outside [OF this] show ?thesis using seg_image_at assms(4) Cons.prems \<open>p = q\<close> by simp
  qed (use Cons in simp)
qed simp

subsection \<open>The extent of the image\<close>

definition aligned_ok :: "elf_phdr \<Rightarrow> bool" where
  "aligned_ok p \<longleftrightarrow> p_align p \<noteq> 0 \<and> (p_vaddr p - p_offset p) mod p_align p = 0"

lemma map_extent_skip:
  "loads ps = [] \<Longrightarrow> map_extent i (ps @ qs) s = map_extent (i + length ps) qs s"
  by (induction ps arbitrary: i s) (auto split: if_splits)

lemma unat_vaddr_memsz:
  assumes "seg_ok file 0 p"
  shows "unat (p_vaddr p + p_memsz p) = seg_lo 0 p + unat (p_memsz p)"
  using map_region_words(2) [OF assms] by simp

lemma map_extent_sorted:
  assumes "\<forall>p\<in>set (loads ps). seg_ok file 0 p \<and> aligned_ok p \<and> start \<le> p_vaddr p \<and> fin \<le> p_vaddr p"
    "sorted_wrt (apart_pages 0) (loads ps)"
  shows "map_extent i ps (start, fin, j) =
    Ok (start, if loads ps = [] then fin else p_vaddr (last (loads ps)) + p_memsz (last (loads ps)), j)"
  using assms
proof (induction ps arbitrary: i fin)
  case (Cons p ps)
  show ?case
  proof (cases "p_type p = PT_LOAD")
    case True
    let ?e = "p_vaddr p + p_memsz p"
    have p: "seg_ok file 0 p" "aligned_ok p" "start \<le> p_vaddr p" "fin \<le> p_vaddr p" using Cons.prems(1) True by simp_all
    have e: "unat ?e = seg_lo 0 p + unat (p_memsz p)" by (rule unat_vaddr_memsz [OF p(1)])
    have lo: "unat (p_vaddr q) = seg_lo 0 q" for q by (simp add: seg_lo_def)
    have fe: "(if fin < ?e then ?e else fin) = ?e"
    proof -
      have "0 < unat (p_memsz p)" using p(1) unfolding seg_ok_def word_less_nat_alt word_le_nat_alt by linarith
      then have "fin < ?e" using p(4) e lo [of p] by (simp add: word_less_nat_alt word_le_nat_alt)
      then show ?thesis by simp
    qed
    have "?e \<le> p_vaddr q" if "q \<in> set (loads ps)" for q
    proof -
      have "apart_pages 0 p q" using Cons.prems(2) True that by simp
      then show ?thesis using seg_ends(7) [OF p(1)] pdown_le [of "seg_lo 0 q"] e lo [of q]
        by (simp add: apart_pages_def word_le_nat_alt)
    qed
    then have "map_extent (i + 1) ps (start, ?e, j) =
      Ok (start, if loads ps = [] then ?e else p_vaddr (last (loads ps)) + p_memsz (last (loads ps)), j)"
      using Cons.prems True by (intro Cons.IH) simp_all
    then show ?thesis using True p fe by (auto simp: aligned_ok_def Let_def)
  next
    case False
    with Cons show ?thesis by simp
  qed
qed simp

text \<open>The part of the file behind the contents of the first segment is cleared only if the segment is writable.\<close>

definition first_ok :: "byte list \<Rightarrow> elf_phdr \<Rightarrow> bool" where
  "first_ok file p \<longleftrightarrow> p_filesz p = p_memsz p \<or> p_flags p AND PF_W \<noteq> 0 \<and> unat (p_memsz p) \<le> pup (length file)"

definition extent :: "elf_phdr list \<Rightarrow> nat" where
  "extent ps = seg_end 0 (last (loads ps)) - seg_lo 0 (hd (loads ps))"

definition image_ok :: "byte list \<Rightarrow> elf_phdr list \<Rightarrow> bool" where
  "image_ok file ps \<longleftrightarrow> loads ps \<noteq> [] \<and> list_all (\<lambda>p. seg_ok file 0 p \<and> aligned_ok p) (loads ps) \<and> sorted_wrt (apart_pages 0) (loads ps) \<and>
    p_offset (hd (loads ps)) = 0 \<and> first_ok file (hd (loads ps)) \<and> list_all (tail_ok 0) (tl (loads ps)) \<and> extent ps \<le> 2 ^ 31"

lemma last_seg_end:
  assumes "\<forall>p\<in>set ps. seg_ok file 0 p" "sorted_wrt (apart_pages 0) ps" "p \<in> set ps"
  shows "seg_end 0 p \<le> seg_end 0 (last ps)"
  using assms
proof (induction ps)
  case (Cons q qs)
  show ?case
  proof (cases "qs = []")
    case False
    then have l: "last qs \<in> set qs" by simp
    then have "apart_pages 0 q (last qs)" and "seg_ok file 0 (last qs)" using Cons.prems by simp_all
    then have "seg_end 0 q \<le> seg_end 0 (last qs)" using seg_ends [of "file" 0 "last qs"] by (simp add: apart_pages_def)
    then show ?thesis using Cons False by auto
  qed (use Cons in simp)
qed simp

lemma get_total_map_sz_image:
  assumes ok: "image_ok file ps" and ps: "ps = pre @ f # post" "loads pre = []" "p_type f = PT_LOAD"
  obtains T where "get_total_map_sz ps = Ok (T, length pre)" "unat T = extent ps" "unat T mod 4096 = 0"
    "seg_lo 0 f + unat T = seg_end 0 (last (loads ps))"
proof -
  let ?l = "last (loads ps)"
  have lps: "loads ps = f # loads post" using ps by simp
  then have l_in: "f \<in> set (loads ps)" "?l \<in> set (loads ps)" and hd: "hd (loads ps) = f" by simp_all
  have segs: "\<forall>p\<in>set (loads ps). seg_ok file 0 p \<and> aligned_ok p" and srt: "sorted_wrt (apart_pages 0) (loads ps)"
    and off: "p_offset f = 0"
    using ok hd unfolding image_ok_def list_all_iff by blast+
  have f: "seg_ok file 0 f" "aligned_ok f" and l: "seg_ok file 0 ?l" using segs l_in by blast+
  have lo: "unat (p_vaddr q) = seg_lo 0 q" for q by (simp add: seg_lo_def)
  have m0: "seg_lo 0 f mod 4096 = 0" using f(1) off by (simp add: seg_ok_def)
  have fm: "0 < unat (p_memsz f)" using f(1) unfolding seg_ok_def word_less_nat_alt word_le_nat_alt by linarith
  have e: "unat (p_vaddr f + p_memsz f) = seg_lo 0 f + unat (p_memsz f)" by (rule unat_vaddr_memsz [OF f(1)])
  have start: "p_vaddr f < - 1" using seg_ends(5,7) [OF f(1)] lo [of f] by (simp add: word_less_nat_alt unsigned_minus_1_eq_mask mask_eq_exp_minus_1)
  have fin: "0 < p_vaddr f + p_memsz f" using e fm by (simp add: word_less_nat_alt)
  have after: "p_vaddr f \<le> p_vaddr q \<and> p_vaddr f + p_memsz f \<le> p_vaddr q" if "q \<in> set (loads post)" for q
  proof -
    have "apart_pages 0 f q" using srt that unfolding lps by simp
    then show ?thesis using seg_ends(7) [OF f(1)] pdown_le [of "seg_lo 0 q"] e lo [of q] lo [of f]
      by (simp add: apart_pages_def word_le_nat_alt)
  qed
  have segp: "seg_ok file 0 q \<and> aligned_ok q" if "q \<in> set (loads post)" for q using segs that unfolding lps by simp
  have srtp: "sorted_wrt (apart_pages 0) (loads post)" using srt unfolding lps by simp
  have "map_extent (length pre + 1) post (p_vaddr f, p_vaddr f + p_memsz f, length pre) =
    Ok (p_vaddr f, if loads post = [] then p_vaddr f + p_memsz f else p_vaddr (last (loads post)) + p_memsz (last (loads post)), length pre)"
    by (rule map_extent_sorted [OF ballI [of _ "\<lambda>p. seg_ok file 0 p \<and> aligned_ok p \<and> p_vaddr f \<le> p_vaddr p \<and> p_vaddr f + p_memsz f \<le> p_vaddr p"] srtp])
      (simp add: segp after)
  also have "(if loads post = [] then p_vaddr f + p_memsz f else p_vaddr (last (loads post)) + p_memsz (last (loads post))) =
    p_vaddr ?l + p_memsz ?l" by (simp add: lps)
  finally have "map_extent (length pre) (f # post) (- 1, 0, 0) = Ok (p_vaddr f, p_vaddr ?l + p_memsz ?l, length pre)"
    using f(2) start fin ps(3) by (simp add: aligned_ok_def)
  then have ext: "map_extent 0 ps (- 1, 0, 0) = Ok (p_vaddr f, p_vaddr ?l + p_memsz ?l, length pre)"
    using map_extent_skip [OF ps(2), of 0 "f # post"] by (simp only: ps(1) add_0)
  have down: "ALIGN_DOWN (p_vaddr f) 0x1000 = p_vaddr f"
    by (simp add: word_unat_eq_iff unat_page_down lo pdown_aligned [OF m0])
  define T where "T = ALIGN_UP (p_vaddr ?l + p_memsz ?l) 0x1000 - p_vaddr f"
  have up: "unat (ALIGN_UP (p_vaddr ?l + p_memsz ?l) 0x1000) = seg_end 0 ?l"
    using map_region_words(4) [OF l] by simp
  have le: "seg_end 0 f \<le> seg_end 0 ?l" by (rule last_seg_end [OF _ srt l_in(1)]) (use segs in blast)
  have T: "unat T = seg_end 0 ?l - seg_lo 0 f" unfolding T_def using le seg_ends(7) [OF f(1)]
    by (subst unat_sub_32) (simp_all add: up lo word_le_nat_alt)
  then have pos: "0 < T" using le seg_ends(7) [OF f(1)] fm by (simp add: word_less_nat_alt)
  show ?thesis
  proof (rule that)
    show "get_total_map_sz ps = Ok (T, length pre)" using pos unfolding get_total_map_sz_def ext T_def by (simp add: down)
    show "unat T mod 4096 = 0" unfolding T seg_end_def by (rule page_diff [OF pup_mod m0])
    show "unat T = extent ps" using T hd by (simp add: extent_def)
    show "seg_lo 0 f + unat T = seg_end 0 ?l" using T le seg_ends(7) [OF f(1)] by simp
  qed
qed

subsection \<open>The first segment\<close>

lemma page_words:
  assumes "page_range a T"
  shows "unat (a + T) = unat a + unat T" "ALIGN_UP (a + T) 0x1000 = a + T" "ALIGN_DOWN a 0x1000 = a"
proof -
  have p: "unat a mod 4096 = 0" "unat T mod 4096 = 0" "unat a + unat T + 4096 \<le> 2 ^ 32" using assms by (simp_all add: page_range_def)
  show u: "unat (a + T) = unat a + unat T" using p by (subst unat_add_lem [THEN iffD1]) simp_all
  have "(unat a + unat T) mod 4096 = 0" using p by auto
  then show "ALIGN_UP (a + T) 0x1000 = a + T"
    using unat_page_up [of "a + T"] p u by (simp add: word_unat_eq_iff pup_aligned)
  show "ALIGN_DOWN a 0x1000 = a" by (simp add: word_unat_eq_iff unat_page_down pdown_aligned p)
qed

lemma trim_first:
  assumes k: "elf_kernel k fn file" and a: "page_range a T" and m: "pup (unat m) \<le> unat T"
  defines "u \<equiv> ALIGN_UP (a + m) 4096"
  shows "(if a + T > u then ek_munmap k u (a + T - u) sp else sp) = unmapped (unat a + pup (unat m)) (unat T - pup (unat m)) sp"
proof -
  have p: "unat a mod 4096 = 0" "unat T mod 4096 = 0" "unat a + unat T + 4096 \<le> 2 ^ 32" using a by (simp_all add: page_range_def)
  have am: "unat (a + m) = unat a + unat m" using p m pup_ge [of "unat m"] by (subst unat_add_lem [THEN iffD1]) simp_all
  have u: "unat u = unat a + pup (unat m)"
    unfolding u_def using unat_page_up [of "a + m"] p m pup_ge [of "unat m"] am by (simp add: pup_add_page)
  note w = page_words(1) [OF a]
  show ?thesis
  proof (cases "pup (unat m) < unat T")
    case True
    have d: "unat (a + T - u) = unat T - pup (unat m)" using True by (subst unat_sub_32) (simp_all add: w u word_le_nat_alt)
    have "(unat a + pup (unat m)) mod 4096 = 0" by (rule page_sum [OF p(1) pup_mod])
    then have "page_range u (a + T - u)" using True p d u page_diff [OF p(2) pup_mod, of "unat m"]
      by (simp add: page_range_def word_less_nat_alt)
    then show ?thesis using True elf_kernelD(7) [OF k] by (simp add: word_less_nat_alt w u d)
  next
    case False
    then show ?thesis by (auto simp: word_less_nat_alt w u unmapped_def fun_eq_iff)
  qed
qed

lemma clear_first:
  fixes sp :: space and f :: elf_phdr and a T :: u32
  assumes s: "seg_ok file 0 f" and o: "p_offset f = 0" and fst: "first_ok file f" and a: "page_range a T"
    and m: "pup (unat (p_memsz f)) \<le> unat T"
  defines "sp2 \<equiv> unmapped (unat a + pup (unat (p_memsz f))) (unat T - pup (unat (p_memsz f)))
    (mapped (Some file) (unat a) (unat T) (get_map_prot (p_flags f)) 0 sp)"
  obtains sp' where
    "(if p_filesz f < p_memsz f \<and> p_flags f AND PF_W \<noteq> 0 then clear (a + p_filesz f) (p_memsz f - p_filesz f) sp2 else Ok sp2) = Ok sp'"
    "\<And>i. i < unat (p_memsz f) \<Longrightarrow> sp' (unat a + i) = Some (seg_byte file f i)"
    "\<And>x. x < unat a \<or> unat a + unat T \<le> x \<Longrightarrow> sp' x = sp x"
    "\<And>x. unat a + pup (unat (p_memsz f)) \<le> x \<Longrightarrow> x < unat a + unat T \<Longrightarrow> sp' x = None"
proof -
  let ?prot = "get_map_prot (p_flags f)" and ?M = "pup (unat (p_memsz f))"
  have ff: "unat (p_filesz f) \<le> unat (p_memsz f)" and fl: "unat (p_filesz f) \<le> length file"
    using s o by (simp_all add: seg_ok_def word_le_nat_alt)
  have p: "unat a + unat T + 4096 \<le> 2 ^ 32" using a by (simp add: page_range_def)
  have mm: "unat (p_memsz f) \<le> ?M" by (rule pup_ge)
  have ml: "unat (p_memsz f) \<le> pup (length file)"
    using fst fl pup_ge [of "length file"] by (auto simp: first_ok_def)
  have low: "sp2 (unat a + i) = Some (ch file i, ?prot)" if "i < unat (p_memsz f)" for i
    using that mm m ml by (simp add: sp2_def unmapped_def mapped_def)
  have out: "sp2 x = sp x" if "x < unat a \<or> unat a + unat T \<le> x" for x
    using that m by (auto simp: sp2_def unmapped_def mapped_def)
  have gap: "sp2 x = None" if "unat a + ?M \<le> x" "x < unat a + unat T" for x
    using that m by (simp add: sp2_def unmapped_def)
  show ?thesis
  proof (cases "p_filesz f < p_memsz f")
    case False
    then have "p_filesz f = p_memsz f" using ff by (simp add: word_less_nat_alt word_unat_eq_iff)
    then show ?thesis using False low out gap fl o
      by (intro that [of sp2]) (simp_all add: seg_byte_def ch_def)
  next
    case True
    then have w: "p_flags f AND PF_W \<noteq> 0" using fst by (auto simp: first_ok_def)
    have af: "unat (a + p_filesz f) = unat a + unat (p_filesz f)" using p ff mm m by (subst unat_add_lem [THEN iffD1]) simp_all
    have d: "unat (p_memsz f - p_filesz f) = unat (p_memsz f) - unat (p_filesz f)" using ff by (simp add: unat_sub_32 word_le_nat_alt)
    let ?sp = "\<lambda>x. if unat a + unat (p_filesz f) \<le> x \<and> x < unat a + unat (p_memsz f) then Some (0, ?prot) else sp2 x"
    have c: "clear (a + p_filesz f) (p_memsz f - p_filesz f) sp2 = Ok ?sp"
    proof (subst clear_ok [where prot = ?prot])
      fix x assume "unat (a + p_filesz f) \<le> x" "x < unat (a + p_filesz f) + unat (p_memsz f - p_filesz f)"
      then have "x = unat a + (x - unat a)" "x - unat a < unat (p_memsz f)" using ff by (simp_all add: af d)
      then show "\<exists>b. sp2 x = Some (b, ?prot)" using low [of "x - unat a"] by simp
    qed (use ff w prot_write in \<open>simp_all add: af d\<close>)
    show ?thesis
    proof (rule that [of ?sp])
      show "(if p_filesz f < p_memsz f \<and> p_flags f AND PF_W \<noteq> 0 then clear (a + p_filesz f) (p_memsz f - p_filesz f) sp2 else Ok sp2) = Ok ?sp"
        using True w c by simp
      show "?sp (unat a + i) = Some (seg_byte file f i)" if "i < unat (p_memsz f)" for i
        using that low [OF that] fl o by (simp add: seg_byte_def ch_def)
      show "?sp x = sp x" if "x < unat a \<or> unat a + unat T \<le> x" for x using that out [OF that] mm m by auto
      show "?sp x = None" if "unat a + ?M \<le> x" "x < unat a + unat T" for x using that gap [OF that] mm by auto
    qed
  qed
qed

lemma map_first_image:
  assumes k: "elf_kernel k fn file" and s: "seg_ok file 0 f" and o: "p_offset f = 0" and fst: "first_ok file f"
    and T: "page_range (p_vaddr f) T" "\<not> fixed \<Longrightarrow> unat T \<le> 2 ^ 31" and m: "pup (unat (p_memsz f)) \<le> unat T"
  obtains a sp' where "map_first k (ek_open k fn) f T fixed sp = Ok (a, a - p_vaddr f, sp')" "page_range a T" "fixed \<Longrightarrow> a = p_vaddr f"
    "\<And>i. i < unat (p_memsz f) \<Longrightarrow> sp' (unat a + i) = Some (seg_byte file f i)"
    "\<And>x. x < unat a \<or> unat a + unat T \<le> x \<Longrightarrow> sp' x = sp x"
    "\<And>x. unat a + pup (unat (p_memsz f)) \<le> x \<Longrightarrow> x < unat a + unat T \<Longrightarrow> sp' x = None"
proof -
  let ?prot = "get_map_prot (p_flags f)" and ?ty = "if fixed then MAP_PRIVATE OR MAP_FIXED else MAP_PRIVATE"
  note w = page_words [OF T(1)]
  have T': "unat T mod 4096 = 0" "0 < T" using T(1) by (simp_all add: page_range_def)
  obtain a where a: "page_range a T" "fixed \<Longrightarrow> a = p_vaddr f"
    "sys_uniform_mmap k (if fixed then p_vaddr f else 0) T ?prot ?ty (ek_open k fn) 0 sp = (a, mapped (Some file) (unat a) (unat T) ?prot 0 sp)"
  proof (cases fixed)
    case True
    show ?thesis by (rule that [of "p_vaddr f"]) (use True T(1) elf_kernelD(4) [OF k T(1)] in \<open>simp_all add: sys_uniform_mmap_def\<close>)
  next
    case False
    from elf_kernelD(6) [OF k T' T(2) [OF False], of ?prot 0 sp] obtain a where "page_range a T"
      "ek_mmap2 k 0 T ?prot MAP_PRIVATE (ek_open k fn) 0 sp = (a, mapped (Some file) (unat a) (unat T) ?prot 0 sp)" by auto
    then show ?thesis by (intro that [of a]) (use False in \<open>simp_all add: sys_uniform_mmap_def\<close>)
  qed
  obtain sp' where sp': "(if p_filesz f < p_memsz f \<and> p_flags f AND PF_W \<noteq> 0 then clear (a + p_filesz f) (p_memsz f - p_filesz f)
      (unmapped (unat a + pup (unat (p_memsz f))) (unat T - pup (unat (p_memsz f))) (mapped (Some file) (unat a) (unat T) ?prot 0 sp))
      else Ok (unmapped (unat a + pup (unat (p_memsz f))) (unat T - pup (unat (p_memsz f))) (mapped (Some file) (unat a) (unat T) ?prot 0 sp))) = Ok sp'"
    and post: "\<And>i. i < unat (p_memsz f) \<Longrightarrow> sp' (unat a + i) = Some (seg_byte file f i)"
    "\<And>x. x < unat a \<or> unat a + unat T \<le> x \<Longrightarrow> sp' x = sp x"
    "\<And>x. unat a + pup (unat (p_memsz f)) \<le> x \<Longrightarrow> x < unat a + unat T \<Longrightarrow> sp' x = None"
    by (rule clear_first [OF s o fst a(1) m, of sp]) blast
  have bias: "(if fixed then 0 else a - p_vaddr f) = a - p_vaddr f" "(if \<not> fixed then a - p_vaddr f + p_vaddr f else p_vaddr f) = a"
    "(if \<not> fixed then a - p_vaddr f + (p_vaddr f + T) else p_vaddr f + T) = a + T"
    using a(2) by auto
  have "map_first k (ek_open k fn) f T fixed sp = Ok (a, a - p_vaddr f, sp')"
    unfolding map_first_def Let_def w add_diff_cancel_left' o a(3) split_conv bias page_words(2) [OF a(1)]
      trim_first [OF k a(1) m] sp' by simp
  then show ?thesis by (rule that [OF _ a(1,2) post])
qed

subsection \<open>The image at its load address\<close>

lemma pdown_add_page: "y mod 4096 = 0 \<Longrightarrow> pdown (y + m) = y + pdown m"
  by (auto simp: pdown_def)

lemma biased_segment:
  assumes f: "seg_ok file 0 f" "p_offset f = 0" and p: "seg_ok file 0 p" "seg_lo 0 f \<le> seg_lo 0 p" "seg_end 0 p \<le> seg_lo 0 f + unat T"
    and a: "page_range a T"
  shows "seg_lo (a - p_vaddr f) p + seg_lo 0 f = unat a + seg_lo 0 p"
    "seg_end (a - p_vaddr f) p + seg_lo 0 f = unat a + seg_end 0 p"
    "pdown (seg_lo (a - p_vaddr f) p) + seg_lo 0 f = unat a + pdown (seg_lo 0 p)"
    "seg_ok file (a - p_vaddr f) p" "tail_ok 0 p \<Longrightarrow> tail_ok (a - p_vaddr f) p"
proof -
  let ?b = "a - p_vaddr f"
  have m: "seg_lo 0 f mod 4096 = 0" "unat a mod 4096 = 0" and aT: "unat a + unat T + 4096 \<le> 2 ^ 32"
    using f a by (simp_all add: seg_ok_def page_range_def)
  have lo: "unat (p_vaddr q) = seg_lo 0 q" for q by (simp add: seg_lo_def)
  have d: "unat (p_vaddr p - p_vaddr f) = seg_lo 0 p - seg_lo 0 f" using p by (subst unat_sub_32) (simp_all add: lo word_le_nat_alt)
  have "unat (a + (p_vaddr p - p_vaddr f)) = unat a + (seg_lo 0 p - seg_lo 0 f)"
    using p seg_ends(2,6,7) [OF p(1)] aT by (subst unat_add_lem [THEN iffD1]) (simp_all add: d)
  then have "seg_lo ?b p = unat a + (seg_lo 0 p - seg_lo 0 f)" by (simp add: seg_lo_def algebra_simps)
  then show 1: "seg_lo ?b p + seg_lo 0 f = unat a + seg_lo 0 p" using p by simp
  have "pup (seg_lo 0 f + (seg_lo ?b p + unat (p_memsz p))) = pup (unat a + (seg_lo 0 p + unat (p_memsz p)))"
    using 1 by (simp add: add.assoc [symmetric] add.commute [of "seg_lo 0 f"])
  then show 2: "seg_end ?b p + seg_lo 0 f = unat a + seg_end 0 p" using m by (simp add: pup_add_page seg_end_def)
  have "pdown (seg_lo 0 f + seg_lo ?b p) = pdown (unat a + seg_lo 0 p)" using 1 by (simp add: ac_simps)
  then show "pdown (seg_lo ?b p) + seg_lo 0 f = unat a + pdown (seg_lo 0 p)" using m by (simp add: pdown_add_page)
  have "seg_lo ?b p mod 4096 = (seg_lo 0 f + seg_lo ?b p) mod 4096" using m(1) by (metis add_0 mod_add_left_eq)
  also have "\<dots> = (unat a + seg_lo 0 p) mod 4096" using 1 by (simp add: ac_simps)
  also have "\<dots> = seg_lo 0 p mod 4096" using m(2) by (metis add_0 mod_add_left_eq)
  finally show "seg_ok file ?b p" using p 2 aT by (simp add: seg_ok_def)
  show "tail_ok ?b p" if "tail_ok 0 p" using that 1 2 by (auto simp: tail_ok_def seg_file_end_def)
qed

definition file_hdr :: "byte list \<Rightarrow> elfhdr" where
  "file_hdr file = hdr_of (take sizeof_elfhdr file)"

definition file_phdrs :: "byte list \<Rightarrow> elf_phdr list" where
  "file_phdrs file = (let h = file_hdr file; n = unat (e_phnum h)
    in phdrs_of n (take (sizeof_elf_phdr * n) (drop (unat (e_phoff h)) file)))"

definition elf_file_ok :: "byte list \<Rightarrow> bool" where
  "elf_file_ok file \<longleftrightarrow> (let h = file_hdr file in
    sizeof_elfhdr \<le> length file \<and> take 4 (e_ident h) = ELFMAG \<and> (e_type h = ET_DYN \<or> e_type h = ET_EXEC) \<and> e_machine h = EM_386 \<and>
    unat (e_phoff h) + sizeof_elf_phdr * unat (e_phnum h) \<le> length file \<and> image_ok file (file_phdrs file))"

lemma read_headers:
  assumes "elf_kernel k fn file" "elf_file_ok file"
  shows "open_elf_file k fn = Ok (ek_open k fn, file_hdr file)"
    "load_phdrs k (ek_open k fn) (file_hdr file) = Ok (file_phdrs file)"
proof -
  note k = elf_kernelD(1-3) [OF assms(1)]
  have ok: "sizeof_elfhdr \<le> length file" "unat (e_phoff (file_hdr file)) + sizeof_elf_phdr * unat (e_phnum (file_hdr file)) \<le> length file"
    using assms(2) by (simp_all add: elf_file_ok_def Let_def)
  from ok(1) show "open_elf_file k fn = Ok (ek_open k fn, file_hdr file)"
    using assms(2) k by (simp add: open_elf_file_def elf_file_ok_def file_hdr_def Let_def)
  have l: "length (take (sizeof_elf_phdr * unat (e_phnum (file_hdr file))) (drop (unat (e_phoff (file_hdr file))) file)) =
    sizeof_elf_phdr * unat (e_phnum (file_hdr file))" using ok(2) by simp
  show "load_phdrs k (ek_open k fn) (file_hdr file) = Ok (file_phdrs file)"
    unfolding load_phdrs_def k(2) Let_def split_conv l using k(3) [of "e_phoff (file_hdr file)"] ok(2) by (simp add: file_phdrs_def Let_def)
qed

text \<open>The segments behind the first one, mapped at the bias.\<close>

lemma placed_segments:
  assumes f: "seg_ok file 0 f" "p_offset f = 0" and srt: "sorted_wrt (apart_pages 0) (f # qs)"
    and qs: "\<And>q. q \<in> set qs \<Longrightarrow> seg_ok file 0 q" and le: "\<And>q. q \<in> set (f # qs) \<Longrightarrow> seg_end 0 q \<le> seg_lo 0 f + unat T"
    and a: "page_range a T" and b: "b = a - p_vaddr f"
  shows "q \<in> set qs \<Longrightarrow> seg_ok file b q" "q \<in> set qs \<Longrightarrow> tail_ok 0 q \<Longrightarrow> tail_ok b q" "sorted_wrt (apart_pages b) qs"
    "q \<in> set qs \<Longrightarrow> unat a + pup (unat (p_memsz f)) \<le> pdown (seg_lo b q)" "q \<in> set qs \<Longrightarrow> seg_end b q \<le> unat a + unat T"
proof -
  have lo: "seg_lo 0 f \<le> seg_lo 0 q" and after: "seg_end 0 f \<le> pdown (seg_lo 0 q)" if "q \<in> set qs" for q
    using srt that seg_ends(2,6,7) [OF f(1)] pdown_le [of "seg_lo 0 q"] by (force simp: apart_pages_def)+
  have biased: "seg_end b q + seg_lo 0 f = unat a + seg_end 0 q" "pdown (seg_lo b q) + seg_lo 0 f = unat a + pdown (seg_lo 0 q)"
    "seg_ok file b q" "tail_ok 0 q \<Longrightarrow> tail_ok b q" if "q \<in> set qs" for q
  proof -
    have l: "seg_end 0 q \<le> seg_lo 0 f + unat T" using le that by simp
    show "seg_end b q + seg_lo 0 f = unat a + seg_end 0 q" "pdown (seg_lo b q) + seg_lo 0 f = unat a + pdown (seg_lo 0 q)"
      "seg_ok file b q" "tail_ok 0 q \<Longrightarrow> tail_ok b q"
      unfolding b by (rule biased_segment [OF f qs [OF that] lo [OF that] l a], assumption?)+
  qed
  show "q \<in> set qs \<Longrightarrow> seg_ok file b q" "q \<in> set qs \<Longrightarrow> tail_ok 0 q \<Longrightarrow> tail_ok b q" using biased by blast+
  show "sorted_wrt (apart_pages b) qs"
  proof (rule sorted_wrt_mono_rel)
    show "sorted_wrt (apart_pages 0) qs" using srt by simp
    fix x y assume "x \<in> set qs" "y \<in> set qs" "apart_pages 0 x y"
    then show "apart_pages b x y" using biased(1) [of x] biased(2) [of y] by (simp add: apart_pages_def)
  qed
  have "seg_end 0 f = seg_lo 0 f + pup (unat (p_memsz f))" using f by (simp add: seg_end_def pup_add_page seg_ok_def)
  then show "q \<in> set qs \<Longrightarrow> unat a + pup (unat (p_memsz f)) \<le> pdown (seg_lo b q)" using biased(2) [of q] after [of q] by simp
  show "q \<in> set qs \<Longrightarrow> seg_end b q \<le> unat a + unat T" using biased(1) [of q] le [of q] by simp
qed

lemma placed_image:
  assumes seg: "\<And>q. q \<in> set qs \<Longrightarrow> seg_ok file b q" and srt: "sorted_wrt (apart_pages b) qs"
    and lo: "\<And>q. q \<in> set qs \<Longrightarrow> a + pup (unat (p_memsz f)) \<le> pdown (seg_lo b q)" and hi: "\<And>q. q \<in> set qs \<Longrightarrow> seg_end b q \<le> a + T"
    and f: "a = seg_lo b f" "\<And>i. i < unat (p_memsz f) \<Longrightarrow> sp1 (a + i) = Some (seg_byte file f i)"
    and sp: "\<And>x. x < a \<or> a + T \<le> x \<Longrightarrow> sp1 x = sp x"
  shows "p \<in> set (f # qs) \<Longrightarrow> i < unat (p_memsz p) \<Longrightarrow> fold (seg_image file b) qs sp1 (seg_lo b p + i) = Some (seg_byte file p i)"
    "x < a \<or> a + T \<le> x \<Longrightarrow> fold (seg_image file b) qs sp1 x = sp x"
proof -
  show "fold (seg_image file b) qs sp1 (seg_lo b p + i) = Some (seg_byte file p i)" if "p \<in> set (f # qs)" "i < unat (p_memsz p)"
  proof (cases "p \<in> set qs")
    case True
    from fold_at [OF _ srt True that(2)] seg show ?thesis by blast
  next
    case False
    then have [simp]: "p = f" using that(1) by simp
    have "a + i < pdown (seg_lo b q)" if "q \<in> set qs" for q
      using lo [OF that] \<open>i < unat (p_memsz p)\<close> pup_ge [of "unat (p_memsz f)"] by simp
    then have "fold (seg_image file b) qs sp1 (a + i) = sp1 (a + i)" using seg by (intro fold_outside) auto
    then show ?thesis using f that(2) by simp
  qed
  show "fold (seg_image file b) qs sp1 x = sp x" if x: "x < a \<or> a + T \<le> x"
  proof -
    have "x < pdown (seg_lo b q) \<or> seg_end b q \<le> x" if "q \<in> set qs" for q
      using lo [OF that] hi [OF that] x by auto
    then have "fold (seg_image file b) qs sp1 x = sp1 x" using seg by (intro fold_outside) auto
    then show ?thesis using sp [OF x] by simp
  qed
qed

text \<open>A well-formed image, taken apart.\<close>

lemma image_parts:
  assumes img: "image_ok file ps"
  obtains f qs pre post T where "ps = pre @ f # post" "loads pre = []" "loads post = qs" "p_type f = PT_LOAD" "loads ps = f # qs"
    "seg_ok file 0 f" "p_offset f = 0" "first_ok file f" "sorted_wrt (apart_pages 0) (f # qs)"
    "\<And>q. q \<in> set qs \<Longrightarrow> seg_ok file 0 q \<and> tail_ok 0 q"
    "get_total_map_sz ps = Ok (T, length pre)" "unat T = extent ps" "unat T \<le> 2 ^ 31" "page_range (p_vaddr f) T"
    "\<And>q. q \<in> set (f # qs) \<Longrightarrow> seg_end 0 q \<le> seg_lo 0 f + unat T" "pup (unat (p_memsz f)) \<le> unat T"
proof -
  have "loads ps \<noteq> []" using img by (simp add: image_ok_def)
  then obtain f qs where lps: "loads ps = f # qs" by (cases "loads ps") auto
  then obtain pre post where ps: "ps = pre @ f # post" "loads pre = []" "loads post = qs" "p_type f = PT_LOAD" by (rule loads_split)
  have f: "seg_ok file 0 f" "p_offset f = 0" "first_ok file f" and srt: "sorted_wrt (apart_pages 0) (f # qs)"
    and qs: "\<And>q. q \<in> set qs \<Longrightarrow> seg_ok file 0 q \<and> tail_ok 0 q" and ext: "extent ps \<le> 2 ^ 31"
    using img by (auto simp: image_ok_def list_all_iff lps)
  obtain T where T: "get_total_map_sz ps = Ok (T, length pre)" "unat T = extent ps" "unat T mod 4096 = 0"
    "seg_lo 0 f + unat T = seg_end 0 (last (loads ps))"
    by (rule get_total_map_sz_image [OF img ps(1,2,4)])
  have m0: "seg_lo 0 f mod 4096 = 0" using f by (simp add: seg_ok_def)
  have le: "seg_end 0 q \<le> seg_lo 0 f + unat T" if "q \<in> set (f # qs)" for q
    unfolding T(4) lps by (rule last_seg_end [OF _ srt that]) (use f qs in auto)
  have lst: "seg_ok file 0 (last (loads ps))" using f qs unfolding lps by auto
  have "0 < unat T" using le [of f] seg_ends(2,6,7) [OF f(1)] by simp
  then have pr: "page_range (p_vaddr f) T" using m0 T(3,4) seg_ends(5) [OF lst] by (simp add: page_range_def seg_lo_def word_less_nat_alt)
  have "seg_end 0 f = seg_lo 0 f + pup (unat (p_memsz f))" using m0 by (simp add: seg_end_def pup_add_page)
  then have mT: "pup (unat (p_memsz f)) \<le> unat T" using le [of f] by simp
  have ext': "unat T \<le> 2 ^ 31" using T(2) ext by simp
  show ?thesis by (rule that [OF ps lps f srt qs T(1,2) ext' pr le mT])
qed

lemma load_elf_image:
  assumes "elf_kernel k fn file" "elf_file_ok file"
  shows "\<exists>r sp'. load_elf k fn sp = Ok (r, sp') \<and>
    (\<forall>p\<in>set (loads (file_phdrs file)). \<forall>i<unat (p_memsz p). sp' (unat (l_bias r + p_vaddr p) + i) = Some (seg_byte file p i)) \<and>
    (\<forall>x. x < seg_lo (l_bias r) (hd (loads (file_phdrs file))) \<or>
      seg_lo (l_bias r) (hd (loads (file_phdrs file))) + extent (file_phdrs file) \<le> x \<longrightarrow> sp' x = sp x) \<and>
    (e_type (file_hdr file) = ET_EXEC \<longrightarrow> l_bias r = 0) \<and>
    l_entry r = l_bias r + e_entry (file_hdr file) \<and>
    l_phdrs r = l_bias r + p_vaddr (hd (loads (file_phdrs file))) + e_phoff (file_hdr file) \<and>
    l_nr_phdrs r = unat (e_phnum (file_hdr file)) \<and>
    (l_need_interp r \<longleftrightarrow> (\<exists>p\<in>set (file_phdrs file). p_type p = PT_INTERP))"
proof -
  let ?ps = "file_phdrs file" and ?h = "file_hdr file"
  have img: "image_ok file ?ps" using assms(2) by (simp add: elf_file_ok_def Let_def)
  obtain f qs pre post T where ps: "?ps = pre @ f # post" "loads pre = []" "loads post = qs" "p_type f = PT_LOAD" and lps: "loads ?ps = f # qs"
    and f: "seg_ok file 0 f" "p_offset f = 0" "first_ok file f" and srt: "sorted_wrt (apart_pages 0) (f # qs)"
    and qs: "\<And>q. q \<in> set qs \<Longrightarrow> seg_ok file 0 q \<and> tail_ok 0 q"
    and T: "get_total_map_sz ?ps = Ok (T, length pre)" "unat T = extent ?ps" "unat T \<le> 2 ^ 31" "page_range (p_vaddr f) T"
    "\<And>q. q \<in> set (f # qs) \<Longrightarrow> seg_end 0 q \<le> seg_lo 0 f + unat T" "pup (unat (p_memsz f)) \<le> unat T"
    by (rule image_parts [OF img]) blast
  obtain a sp1 where a: "map_first k (ek_open k fn) f T (e_type ?h = ET_EXEC) sp = Ok (a, a - p_vaddr f, sp1)" "page_range a T"
    "e_type ?h = ET_EXEC \<Longrightarrow> a = p_vaddr f"
    and sp1: "\<And>i. i < unat (p_memsz f) \<Longrightarrow> sp1 (unat a + i) = Some (seg_byte file f i)"
    "\<And>x. x < unat a \<or> unat a + unat T \<le> x \<Longrightarrow> sp1 x = sp x"
    by (rule map_first_image [OF assms(1) f T(4) T(3) T(6), of "e_type ?h = ET_EXEC" sp]) blast
  define b where "b = a - p_vaddr f"
  have bf: "unat a = seg_lo b f" by (simp add: seg_lo_def b_def)
  note seg = placed_segments [OF f(1,2) srt qs [THEN conjunct1] T(5) a(2) b_def]
  note img = placed_image [OF seg(1,3,4,5) bf sp1]
  let ?sp = "fold (seg_image file b) qs sp1"
  have others: "map_others k (ek_open k fn) (length pre) b 0 ?ps (False, sp1) = Ok (\<exists>p\<in>set ?ps. p_type p = PT_INTERP, ?sp)"
  proof -
    have "map_others k (ek_open k fn) (length pre) b (length pre + 1) post (ni, sp1) = Ok (ni \<or> (\<exists>p\<in>set post. p_type p = PT_INTERP), ?sp)" for ni
      using map_others_image [OF assms(1), of "length pre" "length pre + 1" post b ni sp1] seg(1,2) qs ps(3) by simp
    moreover have "p_type f \<noteq> PT_INTERP" using ps(4) by (simp add: PT_LOAD_def PT_INTERP_def)
    ultimately show ?thesis unfolding ps(1) by (simp add: map_others_skip [OF ps(2)] bex_Un)
  qed
  let ?r = "\<lparr>l_entry = b + e_entry ?h, l_bias = b, l_phdrs = a + e_phoff ?h,
      l_nr_phdrs = unat (e_phnum ?h), l_need_interp = \<exists>p\<in>set ?ps. p_type p = PT_INTERP\<rparr>"
  have "?ps ! length pre = f" "length pre < length ?ps" by (simp_all add: ps(1))
  then have run: "load_elf k fn sp = Ok (?r, ?sp)"
    using a(1) others by (simp add: load_elf_def read_headers [OF assms] T(1) b_def)
  have bytes: "\<forall>p\<in>set (loads ?ps). \<forall>i<unat (p_memsz p). ?sp (unat (b + p_vaddr p) + i) = Some (seg_byte file p i)"
    using img(1) unfolding lps seg_lo_def by blast
  have out: "\<forall>x. x < seg_lo b (hd (loads ?ps)) \<or> seg_lo b (hd (loads ?ps)) + extent ?ps \<le> x \<longrightarrow> ?sp x = sp x"
    using img(2) bf T(2) by (simp add: lps)
  show ?thesis
    by (rule exI [of _ ?r], rule exI [of _ ?sp]) (use run bytes out a(3) in \<open>simp add: lps b_def\<close>)
qed

text \<open>
  C4.  \<open>load_elf\<close> on a well-formed i386 executable or shared object whose loadable segments are in ascending order, on
  pages of their own and with a writable tail where one is cleared: it returns, the image is at the addresses of the file
  for an executable and moved by one bias for a shared object, every byte of every loadable segment has the contents
  of the file or zero and the protection of its segment, memory outside the image is unchanged, and the
  entry point, the address of the program headers and the need for an interpreter are reported.
\<close>

theorem load_elf_correct:
  assumes "elf_kernel k fn file" "elf_file_ok file"
  shows "\<exists>r sp'. load_elf k fn sp = Ok (r, sp') \<and>
    (\<forall>p\<in>set (loads (file_phdrs file)). \<forall>i<unat (p_memsz p). sp' (unat (l_bias r + p_vaddr p) + i) = Some (seg_byte file p i)) \<and>
    (\<forall>x. x < seg_lo (l_bias r) (hd (loads (file_phdrs file))) \<or>
      seg_lo (l_bias r) (hd (loads (file_phdrs file))) + extent (file_phdrs file) \<le> x \<longrightarrow> sp' x = sp x) \<and>
    (e_type (file_hdr file) = ET_EXEC \<longrightarrow> l_bias r = 0) \<and>
    l_entry r = l_bias r + e_entry (file_hdr file) \<and>
    l_phdrs r = l_bias r + p_vaddr (hd (loads (file_phdrs file))) + e_phoff (file_hdr file) \<and>
    l_nr_phdrs r = unat (e_phnum (file_hdr file)) \<and>
    (l_need_interp r \<longleftrightarrow> (\<exists>p\<in>set (file_phdrs file). p_type p = PT_INTERP))"
  by (rule load_elf_image [OF assms])

text \<open>An executable of two segments, and a kernel that maps shared objects at \<open>0x40000000\<close>.\<close>

definition demo_elf :: "byte list" where
  "demo_elf = [0x7f, 0x45, 0x4c, 0x46, 1, 1, 1, 0, 0, 0, 0, 0, 0, 0, 0, 0, 2, 0, 3, 0, 1, 0, 0, 0, 0x74, 0x80, 4, 8, 52, 0, 0, 0,
    0, 0, 0, 0, 0, 0, 0, 0, 52, 0, 32, 0, 2, 0, 0, 0, 0, 0, 0, 0,
    1, 0, 0, 0, 0, 0, 0, 0, 0, 0x80, 4, 8, 0, 0x80, 4, 8, 120, 0, 0, 0, 120, 0, 0, 0, 5, 0, 0, 0, 0, 0x10, 0, 0,
    1, 0, 0, 0, 116, 0, 0, 0, 0x74, 0x90, 4, 8, 0x74, 0x90, 4, 8, 4, 0, 0, 0, 8, 0, 0, 0, 6, 0, 0, 0, 0, 0x10, 0, 0,
    1, 2, 3, 4]"

definition demo_elf_calls :: "byte list \<Rightarrow> elf_calls" where
  "demo_elf_calls file = \<lparr>ek_open = \<lambda>fn. 3, ek_read = \<lambda>fd pos n. (int (length (take n (drop pos file))), take n (drop pos file)),
    ek_lseek = \<lambda>fd off. int (unat off),
    ek_mmap2 = \<lambda>a len prot flags fd pg sp.
      let a = (if flags AND MAP_FIXED \<noteq> 0 then a else 0x40000000)
      in (a, mapped (if flags AND MAP_ANONYMOUS \<noteq> 0 then None else Some file) (unat a) (unat len) prot
            (if flags AND MAP_ANONYMOUS \<noteq> 0 then 0 else unat pg * 4096) sp),
    ek_munmap = \<lambda>a len. unmapped (unat a) (unat len)\<rparr>"

lemma demo_elf_kernel: "elf_kernel (demo_elf_calls file) fn file"
  by (simp add: elf_kernel_def demo_elf_calls_def MAP_PRIVATE_def MAP_FIXED_def MAP_ANONYMOUS_def MAP_DENYWRITE_def page_range_def)

lemmas elf_format_defs = half_at_def word_at_def load32_def ch_def sizeof_elfhdr_def sizeof_elf_phdr_def

lemma demo_hdr: "file_hdr demo_elf = \<lparr>e_ident = [0x7f, 0x45, 0x4c, 0x46, 1, 1, 1, 0, 0, 0, 0, 0, 0, 0, 0, 0], e_type = 2, e_machine = 3,
    e_entry = 0x08048074, e_phoff = 52, e_phnum = 2\<rparr>"
  by (simp add: file_hdr_def demo_elf_def hdr_of_def elf_format_defs)

lemma phdrs_of_numeral: "phdrs_of (numeral v) bs = phdr_of bs # phdrs_of (pred_numeral v) (drop sizeof_elf_phdr bs)"
  by (simp add: numeral_eq_Suc)

lemma demo_table: "take 64 (drop 52 demo_elf) =
    [1, 0, 0, 0, 0, 0, 0, 0, 0, 0x80, 4, 8, 0, 0x80, 4, 8, 120, 0, 0, 0, 120, 0, 0, 0, 5, 0, 0, 0, 0, 0x10, 0, 0,
     1, 0, 0, 0, 116, 0, 0, 0, 0x74, 0x90, 4, 8, 0x74, 0x90, 4, 8, 4, 0, 0, 0, 8, 0, 0, 0, 6, 0, 0, 0, 0, 0x10, 0, 0]"
  by (simp add: demo_elf_def)

lemma demo_phdr:
  "phdr_of [t0, t1, t2, t3, o0, o1, o2, o3, v0, v1, v2, v3, a0, a1, a2, a3, f0, f1, f2, f3, m0, m1, m2, m3, g0, g1, g2, g3, l0, l1, l2, l3] =
    \<lparr>p_type = load32 ((!) [t0, t1, t2, t3]) 0, p_offset = load32 ((!) [o0, o1, o2, o3]) 0, p_vaddr = load32 ((!) [v0, v1, v2, v3]) 0,
     p_filesz = load32 ((!) [f0, f1, f2, f3]) 0, p_memsz = load32 ((!) [m0, m1, m2, m3]) 0, p_flags = load32 ((!) [g0, g1, g2, g3]) 0,
     p_align = load32 ((!) [l0, l1, l2, l3]) 0\<rparr>"
  by (simp add: phdr_of_def word_at_def load32_def ch_def)

lemma demo_phdrs: "file_phdrs demo_elf =
  [\<lparr>p_type = 1, p_offset = 0, p_vaddr = 0x08048000, p_filesz = 120, p_memsz = 120, p_flags = 5, p_align = 0x1000\<rparr>,
   \<lparr>p_type = 1, p_offset = 116, p_vaddr = 0x08049074, p_filesz = 4, p_memsz = 8, p_flags = 6, p_align = 0x1000\<rparr>]"
proof -
  have "file_phdrs demo_elf = phdrs_of 2 (take 64 (drop 52 demo_elf))"
    by (simp add: file_phdrs_def demo_hdr Let_def sizeof_elf_phdr_def)
  also have "\<dots> = [phdr_of (take 32 (take 64 (drop 52 demo_elf))), phdr_of (drop 32 (take 64 (drop 52 demo_elf)))]"
    unfolding demo_table by (simp add: phdrs_of_numeral sizeof_elf_phdr_def phdr_of_def word_at_def load32_def ch_def)
  finally show ?thesis unfolding demo_table by (simp add: demo_phdr load32_def)
qed

lemma demo_bytes: "length demo_elf = 120" "demo_elf ! 0 = 0x7f" "demo_elf ! 117 = 2"
  by (simp_all add: demo_elf_def)

lemma demo_elf_ok: "elf_file_ok demo_elf"
  by (simp add: elf_file_ok_def demo_hdr demo_phdrs Let_def image_ok_def PT_LOAD_def seg_ok_def aligned_ok_def apart_pages_def first_ok_def
      tail_ok_def extent_def seg_end_def seg_lo_def seg_file_end_def pup_def pdown_def PF_W_def ELFMAG_def ET_DYN_def ET_EXEC_def EM_386_def
      sizeof_elfhdr_def sizeof_elf_phdr_def demo_bytes word_mod_def)

theorem load_elf_correct_witness:
  "\<exists>r sp'. load_elf (demo_elf_calls demo_elf) [] (\<lambda>_. None) = Ok (r, sp') \<and> l_entry r = 0x08048074 \<and> \<not> l_need_interp r \<and>
    sp' 0x08049075 = Some (2, 3) \<and> sp' 0x08049079 = Some (0, 3) \<and> sp' 0x08048000 = Some (0x7f, 5) \<and> sp' 0x0804a000 = None"
proof -
  let ?ps = "file_phdrs demo_elf"
  obtain r sp' where run: "load_elf (demo_elf_calls demo_elf) [] (\<lambda>_. None) = Ok (r, sp')"
    and bytes: "\<forall>p\<in>set (loads ?ps). \<forall>i<unat (p_memsz p). sp' (unat (l_bias r + p_vaddr p) + i) = Some (seg_byte demo_elf p i)"
    and out: "\<forall>x. x < seg_lo (l_bias r) (hd (loads ?ps)) \<or> seg_lo (l_bias r) (hd (loads ?ps)) + extent ?ps \<le> x \<longrightarrow> sp' x = None"
    and r: "e_type (file_hdr demo_elf) = ET_EXEC \<longrightarrow> l_bias r = 0" "l_entry r = l_bias r + e_entry (file_hdr demo_elf)"
      "l_need_interp r \<longleftrightarrow> (\<exists>p\<in>set ?ps. p_type p = PT_INTERP)"
    using load_elf_correct [OF demo_elf_kernel [of demo_elf "[]"] demo_elf_ok, of "\<lambda>_. None"] by (elim exE conjE) (rule that)
  have bias: "l_bias r = 0" using r(1) by (simp add: demo_hdr ET_EXEC_def)
  let ?f = "file_phdrs demo_elf ! 0" and ?d = "file_phdrs demo_elf ! 1"
  have seg: "?f \<in> set (loads (file_phdrs demo_elf))" "?d \<in> set (loads (file_phdrs demo_elf))"
    "unat (p_memsz ?f) = 120" "unat (p_memsz ?d) = 8" "p_vaddr ?f = 0x08048000" "p_vaddr ?d = 0x08049074"
    "seg_byte demo_elf ?f 0 = (0x7f, 5)" "seg_byte demo_elf ?d 1 = (2, 3)" "seg_byte demo_elf ?d 5 = (0, 3)"
    by (simp_all add: demo_phdrs PT_LOAD_def seg_byte_def demo_bytes get_map_prot_def PF_R_def PF_W_def PF_X_def
        PROT_READ_def PROT_WRITE_def PROT_EXEC_def)
  have "sp' 0x0804a000 = None" using out [rule_format, of "0x0804a000"]
    by (simp add: bias demo_phdrs PT_LOAD_def seg_lo_def extent_def seg_end_def pup_def)
  moreover have "sp' 0x08048000 = Some (0x7f, 5)" "sp' 0x08049075 = Some (2, 3)" "sp' 0x08049079 = Some (0, 3)"
    using bytes [rule_format, OF seg(1), of 0] bytes [rule_format, OF seg(2), of 1] bytes [rule_format, OF seg(2), of 5]
    by (simp_all add: seg [unfolded One_nat_def] bias)
  moreover have "l_entry r = 0x08048074" "\<not> l_need_interp r" using r(2,3) by (simp_all add: bias demo_hdr demo_phdrs PT_INTERP_def)
  ultimately show ?thesis using run by blast
qed

text \<open>
  C36.  \<open>map_region\<close> always clears the rest of the last page of the file contents, for a segment that is not writable too.
  Such a segment that does not end with a page, as the code segment of an executable that is not its first, therefore
  faults while it is loaded.
\<close>

theorem readonly_tail_faults:
  assumes k: "elf_kernel k fn file" and s: "seg_ok file b p" and "p_flags p AND PF_W = 0" "seg_file_end b p mod 4096 \<noteq> 0"
  shows "map_region k (ek_open k fn) p b sp = Stop Segv"
proof -
  note w = map_region_words [OF s] and e = seg_ends [OF s] and d = cleared_length [OF s]
  let ?f = "b + p_vaddr p + p_filesz p" and ?m = "ALIGN_UP (b + p_vaddr p + p_memsz p) 0x1000"
  have lt: "seg_file_end b p < pup (seg_file_end b p)" using assms(4) e(3) pup_mod [of "seg_file_end b p"] by (metis le_neq_implies_less)
  obtain sp2 where run: "map_region k (ek_open k fn) p b sp = clear ?f (?m - ?f) sp2"
    and sp2: "\<And>x. pdown (seg_lo b p) \<le> x \<Longrightarrow> x < pup (seg_file_end b p) \<Longrightarrow>
      sp2 x = Some (ch file (x - pdown (seg_lo b p) + pdown (unat (p_offset p))), get_map_prot (p_flags p))"
    by (rule map_region_maps [OF k s, of sp]) blast
  have "\<not> writable_at sp2 (seg_file_end b p)"
    using sp2 [of "seg_file_end b p"] e lt prot_write [of "p_flags p"] assms(3) by (simp add: writable_at_def)
  then show ?thesis unfolding run by (rule clear_faults [rotated]) (use e lt in \<open>simp add: w d\<close>)
qed

theorem readonly_tail_faults_witness:
  "map_region (demo_elf_calls demo_elf) 3 \<lparr>p_type = 1, p_offset = 0, p_vaddr = 0x08048000, p_filesz = 120, p_memsz = 120, p_flags = 5, p_align = 0x1000\<rparr>
    0 (\<lambda>_. None) = Stop Segv"
  using readonly_tail_faults [OF demo_elf_kernel [of demo_elf "[]"], where b = 0 and sp = "\<lambda>_. None"
      and p = "\<lparr>p_type = 1, p_offset = 0, p_vaddr = 0x08048000, p_filesz = 120, p_memsz = 120, p_flags = 5, p_align = 0x1000\<rparr>"]
  by (simp add: seg_ok_def seg_lo_def seg_end_def seg_file_end_def pup_def demo_bytes PF_W_def) (simp add: demo_elf_calls_def)

end
