(* ===== verification/Arch_Checkpoint.thy ===== *)
theory Arch_Checkpoint
  imports Compression Strtox
begin

text \<open>
  The processor state in a checkpoint (\<^verbatim>\<open>src/core/loader/processor.c\<close>,
  \<^verbatim>\<open>arch_checkpoint.c\<close>): the registers, the floating point state and the thread area
  descriptors, stored in a buffer and taken out of it again.

  Of the processor, \<open>cpu_state\<close> has what the code reads and writes with inline assembly.  The
  instructions \<^verbatim>\<open>fxsave\<close> and \<^verbatim>\<open>fxrstor\<close> and the system calls
  \<^verbatim>\<open>get_thread_area\<close> and \<^verbatim>\<open>set_thread_area\<close> are parameters.  A structure
  in a buffer is its bytes; the twelve bytes of padding before the 16-byte aligned
  \<^verbatim>\<open>i387_fxsave_struct\<close> keep what the buffer had.
\<close>

subsection \<open>Registers\<close>

record pusha_regs =
  eflags :: u32
  edi :: u32
  esi :: u32
  ebp :: u32
  esp :: u32
  ebx :: u32
  edx :: u32
  ecx :: u32
  eax :: u32

record user_regs_struct =
  u_bx :: u32
  u_cx :: u32
  u_dx :: u32
  u_si :: u32
  u_di :: u32
  u_bp :: u32
  u_ax :: u32
  u_ds :: u32
  u_es :: u32
  u_fs :: u32
  u_gs :: u32
  u_orig_ax :: u32
  u_ip :: u32
  u_cs :: u32
  u_flags :: u32
  u_sp :: u32
  u_ss :: u32

record 'f cpu_state =
  seg_cs :: u16
  seg_ds :: u16
  seg_es :: u16
  seg_fs :: u16
  seg_gs :: u16
  seg_ss :: u16
  fpu :: 'f

definition save_reg_state :: "'f cpu_state \<Rightarrow> pusha_regs \<Rightarrow> u32 \<Rightarrow> user_regs_struct" where
  "save_reg_state c r eip =
    \<lparr>u_bx = ebx r, u_cx = ecx r, u_dx = edx r, u_si = esi r, u_di = edi r, u_bp = ebp r, u_ax = eax r,
     u_ds = ucast (seg_ds c), u_es = ucast (seg_es c), u_fs = ucast (seg_fs c), u_gs = ucast (seg_gs c),
     u_orig_ax = eax r, u_ip = eip, u_cs = ucast (seg_cs c), u_flags = eflags r, u_sp = esp r, u_ss = ucast (seg_ss c)\<rparr>"

definition restore_reg_state :: "user_regs_struct \<Rightarrow> 'f cpu_state \<Rightarrow> pusha_regs \<times> u32 \<times> 'f cpu_state" where
  "restore_reg_state u c =
    (\<lparr>eflags = u_flags u, edi = u_di u, esi = u_si u, ebp = u_bp u, esp = u_sp u, ebx = u_bx u, edx = u_dx u, ecx = u_cx u, eax = u_ax u\<rparr>,
     u_ip u, c\<lparr>seg_fs := ucast (u_fs u AND 0xffff), seg_gs := ucast (u_gs u AND 0xffff)\<rparr>)"

definition save_i387_state :: "('f \<Rightarrow> byte list) \<Rightarrow> 'f cpu_state \<Rightarrow> byte list" where
  "save_i387_state fxsave c = fxsave (fpu c)"

definition restore_i387_state :: "(byte list \<Rightarrow> 'f) \<Rightarrow> byte list \<Rightarrow> 'f cpu_state \<Rightarrow> 'f cpu_state" where
  "restore_i387_state fxrstor bs c = c\<lparr>fpu := fxrstor bs\<rparr>"

definition uregs_bytes :: "user_regs_struct \<Rightarrow> byte list" where
  "uregs_bytes u = concat (map le32 [u_bx u, u_cx u, u_dx u, u_si u, u_di u, u_bp u, u_ax u, u_ds u, u_es u, u_fs u, u_gs u, u_orig_ax u, u_ip u,
    u_cs u, u_flags u, u_sp u, u_ss u])"

definition uregs_of :: "byte list \<Rightarrow> user_regs_struct" where
  "uregs_of bs = (let w = (\<lambda>i. of_le32 (drop (4 * i) bs)) in
    \<lparr>u_bx = w 0, u_cx = w 1, u_dx = w 2, u_si = w 3, u_di = w 4, u_bp = w 5, u_ax = w 6, u_ds = w 7, u_es = w 8, u_fs = w 9, u_gs = w 10,
     u_orig_ax = w 11, u_ip = w 12, u_cs = w 13, u_flags = w 14, u_sp = w 15, u_ss = w 16\<rparr>)"

definition ARCH_CKPT_SECT_UREGS_MARK :: u32 where "ARCH_CKPT_SECT_UREGS_MARK = 0xffff"
definition ARCH_CKPT_SECT_FXREGS_MARK :: u32 where "ARCH_CKPT_SECT_FXREGS_MARK = 0xfffe"

definition sizeof_uregs :: nat where "sizeof_uregs = 68"
definition sizeof_fxsave :: nat where "sizeof_fxsave = 512"
definition sizeof_fxsz :: nat where "sizeof_fxsz = 4"
definition sizeof_cpuinfo :: nat where "sizeof_cpuinfo = 608"

text \<open>\<^verbatim>\<open>fxsz\<close> is the size of the field itself.\<close>

definition get_ckpt_cpuinfo :: "('f \<Rightarrow> byte list) \<Rightarrow> 'f cpu_state \<Rightarrow> byte list \<Rightarrow> nat \<Rightarrow> pusha_regs \<Rightarrow> u32 \<Rightarrow> (nat \<times> byte list) run" where
  "get_ckpt_cpuinfo fxsave c buffer sz regs eip =
    bindR (assert_that (sz \<ge> sizeof_cpuinfo)) (\<lambda>_.
      Ok (sizeof_cpuinfo,
        le32 ARCH_CKPT_SECT_UREGS_MARK @ le32 (word_of_nat sizeof_uregs) @ uregs_bytes (save_reg_state c regs eip) @
        le32 ARCH_CKPT_SECT_FXREGS_MARK @ le32 (word_of_nat sizeof_fxsz) @ take 12 (drop 84 buffer) @ save_i387_state fxsave c @
        drop sizeof_cpuinfo buffer))"

definition restore_ckpt_cpuinfo :: "(byte list \<Rightarrow> 'f) \<Rightarrow> byte list \<Rightarrow> nat \<Rightarrow> 'f cpu_state \<Rightarrow> (pusha_regs \<times> u32 \<times> 'f cpu_state) run" where
  "restore_ckpt_cpuinfo fxrstor buffer sz c =
    bindR (assert_that (sz = sizeof_cpuinfo)) (\<lambda>_.
    bindR (assert_that (of_le32 buffer = ARCH_CKPT_SECT_UREGS_MARK)) (\<lambda>_.
    bindR (assert_that (of_le32 (drop 4 buffer) = word_of_nat sizeof_uregs)) (\<lambda>_.
      let (regs, eip, c) = restore_reg_state (uregs_of (drop 8 buffer)) c
      in bindR (assert_that (of_le32 (drop 76 buffer) = ARCH_CKPT_SECT_FXREGS_MARK)) (\<lambda>_.
         bindR (assert_that (of_le32 (drop 80 buffer) = word_of_nat sizeof_fxsz)) (\<lambda>_.
           Ok (regs, eip, restore_i387_state fxrstor (take sizeof_fxsave (drop 96 buffer)) c))))))"

subsection \<open>Thread areas\<close>

text \<open>The bit fields of \<^verbatim>\<open>user_desc\<close> are one word.\<close>

record user_desc =
  entry_number :: u32
  base_addr :: u32
  limit :: u32
  desc_flags :: u32

definition GDT_ENTRY_TLS_ENTRIES :: nat where "GDT_ENTRY_TLS_ENTRIES = 3"

definition empty_desc :: user_desc where
  "empty_desc = \<lparr>entry_number = 0, base_addr = 0, limit = 0, desc_flags = 0\<rparr>"

text \<open>The loop; \<open>d\<close> is the descriptor as the last call left it.\<close>

function gdt_min_loop :: "(user_desc \<Rightarrow> int \<times> user_desc) \<Rightarrow> nat \<Rightarrow> user_desc \<Rightarrow> (nat \<times> user_desc) run" where
  "gdt_min_loop get_area gmin d =
    (if gmin < 64 - GDT_ENTRY_TLS_ENTRIES then
       let (err, d) = get_area (empty_desc\<lparr>entry_number := word_of_nat gmin\<rparr>)
       in if err = 0 then Ok (gmin, d)
          else if err \<noteq> - EINVAL then Stop Fatal
          else gdt_min_loop get_area (gmin + 1) d
     else Ok (gmin, d))"
  by pat_completeness auto

termination
  by (relation "measure (\<lambda>(get_area, gmin, d). 64 - gmin)") auto

declare gdt_min_loop.simps [simp del]

definition check_arch_gdt_min :: "(user_desc \<Rightarrow> int \<times> user_desc) \<Rightarrow> (nat \<times> user_desc) run" where
  "check_arch_gdt_min get_area =
    bindR (gdt_min_loop get_area 0 empty_desc) (\<lambda>(gmin, d). if gmin \<ge> 64 then Stop Fatal else Ok (gmin, d))"

definition desc_bytes :: "user_desc \<Rightarrow> byte list" where
  "desc_bytes d = le32 (entry_number d) @ le32 (base_addr d) @ le32 (limit d) @ le32 (desc_flags d)"

definition desc_of :: "byte list \<Rightarrow> user_desc" where
  "desc_of bs = \<lparr>entry_number = of_le32 bs, base_addr = of_le32 (drop 4 bs), limit = of_le32 (drop 8 bs), desc_flags = of_le32 (drop 12 bs)\<rparr>"

definition TLS_INFO_SZ :: nat where "TLS_INFO_SZ = 16 * GDT_ENTRY_TLS_ENTRIES"

text \<open>\<^verbatim>\<open>u_info[i]\<close> for \<open>i\<close> from 1 on.\<close>

fun get_areas :: "(user_desc \<Rightarrow> int \<times> user_desc) \<Rightarrow> nat \<Rightarrow> nat list \<Rightarrow> byte list \<Rightarrow> user_desc list run" where
  "get_areas get_area gmin [] buffer = Ok []"
| "get_areas get_area gmin (i # is) buffer =
    (let (err, d) = get_area ((desc_of (drop (16 * i) buffer))\<lparr>entry_number := word_of_nat (gmin + i)\<rparr>)
     in bindR (assert_that (err = 0)) (\<lambda>_. bindR (get_areas get_area gmin is buffer) (\<lambda>ds. Ok (d # ds))))"

definition get_tls_info :: "(user_desc \<Rightarrow> int \<times> user_desc) \<Rightarrow> byte list \<Rightarrow> nat \<Rightarrow> (nat \<times> byte list) run" where
  "get_tls_info get_area buffer sz =
    bindR (assert_that (sz \<ge> TLS_INFO_SZ)) (\<lambda>_.
    bindR (check_arch_gdt_min get_area) (\<lambda>(gmin, d).
    bindR (get_areas get_area gmin [1..<GDT_ENTRY_TLS_ENTRIES] buffer) (\<lambda>ds.
      Ok (TLS_INFO_SZ, concat (map desc_bytes (d # ds)) @ drop TLS_INFO_SZ buffer))))"

fun set_areas :: "(user_desc \<Rightarrow> 'g \<Rightarrow> int \<times> 'g) \<Rightarrow> nat \<Rightarrow> nat list \<Rightarrow> byte list \<Rightarrow> 'g \<Rightarrow> 'g run" where
  "set_areas put_area gmin [] buffer g = Ok g"
| "set_areas put_area gmin (i # is) buffer g =
    (let d = desc_of (drop (16 * i) buffer)
     in bindR (assert_that (entry_number d = word_of_nat (gmin + i))) (\<lambda>_.
        let (err, g) = put_area d g
        in bindR (assert_that (err = 0)) (\<lambda>_. set_areas put_area gmin is buffer g)))"

definition restore_tls_info :: "('g \<Rightarrow> user_desc \<Rightarrow> int \<times> user_desc) \<Rightarrow> (user_desc \<Rightarrow> 'g \<Rightarrow> int \<times> 'g) \<Rightarrow> byte list \<Rightarrow> nat \<Rightarrow> 'g \<Rightarrow> 'g run" where
  "restore_tls_info get_area put_area buffer sz g =
    bindR (assert_that (sz = TLS_INFO_SZ)) (\<lambda>_.
    bindR (check_arch_gdt_min (get_area g)) (\<lambda>(gmin, d).
      set_areas put_area gmin [0..<GDT_ENTRY_TLS_ENTRIES] buffer g))"

subsection \<open>Round trips\<close>

lemma length_uregs_bytes [simp]: "length (uregs_bytes u) = 68"
  by (simp add: uregs_bytes_def)

lemma uregs_of_bytes: "uregs_of (uregs_bytes u @ bs) = u"
  by (cases u) (simp add: uregs_of_def uregs_bytes_def Let_def)

lemma ucast_seg: "ucast ((ucast (w :: u16) :: u32) AND 0xffff) = w"
proof -
  have m: "(0xffff :: u32) = mask 16" by (simp add: mask_eq_exp_minus_1)
  have "(ucast w :: u32) AND mask 16 = ucast w"
    by (rule bit_word_eqI) (use bit_imp_le_length [of w] in \<open>auto simp: bit_simps\<close>)
  then have "(ucast w :: u32) AND 0xffff = ucast w" unfolding m .
  moreover have "ucast (ucast w :: u32) = w" by (rule bit_word_eqI) (auto simp: bit_simps)
  ultimately show ?thesis by simp
qed

lemma desc_of_bytes: "desc_of (desc_bytes d @ bs) = d"
  by (cases d) (simp add: desc_of_def desc_bytes_def)

lemma length_desc_bytes [simp]: "length (desc_bytes d) = 16"
  by (simp add: desc_bytes_def)

definition cpuinfo_image :: "('f \<Rightarrow> byte list) \<Rightarrow> 'f cpu_state \<Rightarrow> byte list \<Rightarrow> pusha_regs \<Rightarrow> u32 \<Rightarrow> byte list" where
  "cpuinfo_image fxsave c pad regs eip =
    le32 ARCH_CKPT_SECT_UREGS_MARK @ le32 (word_of_nat sizeof_uregs) @ uregs_bytes (save_reg_state c regs eip) @
    le32 ARCH_CKPT_SECT_FXREGS_MARK @ le32 (word_of_nat sizeof_fxsz) @ pad @ fxsave (fpu c)"

lemma length_cpuinfo_image:
  "length pad = 12 \<Longrightarrow> length (fxsave (fpu c)) = sizeof_fxsave \<Longrightarrow> length (cpuinfo_image fxsave c pad regs eip) = sizeof_cpuinfo"
  by (simp add: cpuinfo_image_def sizeof_cpuinfo_def sizeof_fxsave_def)

lemma get_cpuinfo_image:
  "sizeof_cpuinfo \<le> sz \<Longrightarrow> get_ckpt_cpuinfo fxsave c buffer sz regs eip =
    Ok (sizeof_cpuinfo, cpuinfo_image fxsave c (take 12 (drop 84 buffer)) regs eip @ drop sizeof_cpuinfo buffer)"
  by (simp add: get_ckpt_cpuinfo_def cpuinfo_image_def save_i387_state_def)

lemma restore_cpuinfo_image:
  assumes "length pad = 12" "length (fxsave (fpu c)) = sizeof_fxsave" "fxrstor (fxsave (fpu c)) = fpu c"
  shows "restore_ckpt_cpuinfo fxrstor (cpuinfo_image fxsave c pad regs eip) sizeof_cpuinfo c' =
    Ok (regs, eip, c'\<lparr>seg_fs := seg_fs c, seg_gs := seg_gs c, fpu := fpu c\<rparr>)"
proof -
  have "restore_reg_state (save_reg_state c regs eip) c' = (regs, eip, c'\<lparr>seg_fs := seg_fs c, seg_gs := seg_gs c\<rparr>)"
    by (cases regs) (simp add: restore_reg_state_def save_reg_state_def ucast_seg)
  then show ?thesis using assms
    by (simp add: restore_ckpt_cpuinfo_def cpuinfo_image_def uregs_of_bytes restore_i387_state_def)
qed

text \<open>
  C37.  What \<open>get_ckpt_cpuinfo\<close> stores, \<open>restore_ckpt_cpuinfo\<close> accepts and turns back into the same registers,
  instruction pointer, \<^verbatim>\<open>fs\<close>, \<^verbatim>\<open>gs\<close> and floating point state, whatever the processor has
  in them by then, provided that \<^verbatim>\<open>fxrstor\<close> undoes \<^verbatim>\<open>fxsave\<close>.
\<close>

theorem cpuinfo_roundtrip:
  assumes "\<And>f. length (fxsave f) = sizeof_fxsave" "\<And>f. fxrstor (fxsave f) = f" "length buffer = sz" "sizeof_cpuinfo \<le> sz"
  shows "\<exists>n buf. get_ckpt_cpuinfo fxsave c buffer sz regs eip = Ok (n, buf) \<and> length buf = sz \<and>
    restore_ckpt_cpuinfo fxrstor (take n buf) n c' = Ok (regs, eip, c'\<lparr>seg_fs := seg_fs c, seg_gs := seg_gs c, fpu := fpu c\<rparr>)"
proof -
  let ?pad = "take 12 (drop 84 buffer)"
  have pad: "length ?pad = 12" using assms(3,4) by (simp add: sizeof_cpuinfo_def)
  note len = length_cpuinfo_image [of ?pad fxsave c regs eip, OF pad assms(1)]
  then have "take sizeof_cpuinfo (cpuinfo_image fxsave c ?pad regs eip @ drop sizeof_cpuinfo buffer) = cpuinfo_image fxsave c ?pad regs eip"
    by simp
  then show ?thesis
    using get_cpuinfo_image [OF assms(4), of fxsave c buffer regs eip] len assms(3,4)
      restore_cpuinfo_image [of ?pad fxsave c fxrstor regs eip c', OF pad assms(1,2)] by simp
qed

text \<open>
  The thread areas of the kernel: the entries from \<open>gmin\<close> on can be read and written, the others are refused.
  A descriptor that was read can be written, and is then read again.
\<close>

definition area_entry :: "nat \<Rightarrow> user_desc \<Rightarrow> bool" where
  "area_entry gmin d \<longleftrightarrow> gmin \<le> unat (entry_number d) \<and> unat (entry_number d) < gmin + GDT_ENTRY_TLS_ENTRIES"

definition areas_spec :: "('g \<Rightarrow> user_desc \<Rightarrow> int \<times> user_desc) \<Rightarrow> (user_desc \<Rightarrow> 'g \<Rightarrow> int \<times> 'g) \<Rightarrow> nat \<Rightarrow> bool" where
  "areas_spec get_area put_area gmin \<longleftrightarrow> gmin < 64 - GDT_ENTRY_TLS_ENTRIES \<and>
    (\<forall>g d. \<not> area_entry gmin d \<longrightarrow> fst (get_area g d) = - EINVAL) \<and>
    (\<forall>g d. area_entry gmin d \<longrightarrow> fst (get_area g d) = 0 \<and> entry_number (snd (get_area g d)) = entry_number d) \<and>
    (\<forall>g d d'. entry_number d = entry_number d' \<longrightarrow> area_entry gmin d \<longrightarrow> get_area g d = get_area g d') \<and>
    (\<forall>g g' d. area_entry gmin d \<longrightarrow> (case put_area (snd (get_area g' d)) g of (err, h) \<Rightarrow>
      err = 0 \<and> (\<forall>d'. get_area h d' = (if entry_number d' = entry_number d then get_area g' d else get_area g d'))))"

lemma areas_specD:
  assumes "areas_spec get_area put_area gmin"
  shows "gmin < 64 - GDT_ENTRY_TLS_ENTRIES" "\<not> area_entry gmin d \<Longrightarrow> fst (get_area g d) = - EINVAL"
    "area_entry gmin d \<Longrightarrow> get_area g d = (0, snd (get_area g d))"
    "area_entry gmin d \<Longrightarrow> entry_number (snd (get_area g d)) = entry_number d"
    "entry_number d = entry_number d' \<Longrightarrow> area_entry gmin d \<Longrightarrow> get_area g d = get_area g d'"
    "area_entry gmin d \<Longrightarrow> \<exists>h. put_area (snd (get_area g' d)) g = (0, h) \<and>
      (\<forall>d'. get_area h d' = (if entry_number d' = entry_number d then get_area g' d else get_area g d'))"
proof -
  note u = assms [unfolded areas_spec_def]
  show "gmin < 64 - GDT_ENTRY_TLS_ENTRIES" by (rule u [THEN conjunct1])
  show "\<not> area_entry gmin d \<Longrightarrow> fst (get_area g d) = - EINVAL" using u by blast
  show "area_entry gmin d \<Longrightarrow> get_area g d = (0, snd (get_area g d))" using u by (metis prod.collapse)
  show "area_entry gmin d \<Longrightarrow> entry_number (snd (get_area g d)) = entry_number d" using u by blast
  show "entry_number d = entry_number d' \<Longrightarrow> area_entry gmin d \<Longrightarrow> get_area g d = get_area g d'" using u by blast
  show "\<exists>h. put_area (snd (get_area g' d)) g = (0, h) \<and>
      (\<forall>d'. get_area h d' = (if entry_number d' = entry_number d then get_area g' d else get_area g d'))" if "area_entry gmin d"
    using u [THEN conjunct2, THEN conjunct2, THEN conjunct2, THEN conjunct2, rule_format, OF that, of g' g] by (auto split: prod.splits)
qed

definition at_entry :: "nat \<Rightarrow> user_desc" where
  "at_entry n = empty_desc\<lparr>entry_number := word_of_nat n\<rparr>"

lemma area_entry_at: "n < 64 \<Longrightarrow> area_entry gmin (at_entry n) \<longleftrightarrow> gmin \<le> n \<and> n < gmin + 3"
  by (simp add: area_entry_def at_entry_def GDT_ENTRY_TLS_ENTRIES_def unat_word_of_nat_32)

lemma gdt_min_found:
  assumes "areas_spec get_area put_area gmin" "n \<le> gmin"
  shows "gdt_min_loop (get_area g) n d = Ok (gmin, snd (get_area g (at_entry gmin)))"
  using assms(2)
proof (induction "gmin - n" arbitrary: n d)
  case 0
  then have "n = gmin" by simp
  have "get_area g (at_entry gmin) = (0, snd (get_area g (at_entry gmin)))"
    by (rule areas_specD(3) [OF assms(1)]) (use areas_specD(1) [OF assms(1)] in \<open>simp add: area_entry_at GDT_ENTRY_TLS_ENTRIES_def\<close>)
  then show ?case using areas_specD(1) [OF assms(1)] \<open>n = gmin\<close>
    by (subst gdt_min_loop.simps) (simp add: at_entry_def [symmetric] split: prod.splits, metis Pair_inject)
next
  case (Suc k)
  then have n: "n < gmin" "k = gmin - (n + 1)" by simp_all
  have lt: "gmin < 61" using areas_specD(1) [OF assms(1)] by (simp add: GDT_ENTRY_TLS_ENTRIES_def)
  obtain d' where "get_area g (at_entry n) = (- EINVAL, d')"
    using areas_specD(2) [OF assms(1), of "at_entry n" g] area_entry_at [of n gmin] n lt by (cases "get_area g (at_entry n)") auto
  then show ?case using Suc(1) [OF n(2), of d'] n lt
    by (subst gdt_min_loop.simps) (simp add: at_entry_def [symmetric] EINVAL_def GDT_ENTRY_TLS_ENTRIES_def)
qed

lemma entry_number_at: "entry_number (at_entry n) = word_of_nat n"
  by (simp add: at_entry_def)

lemma area_index:
  assumes "area_entry gmin d" "gmin < 61"
  shows "\<exists>i\<in>{0, 1, 2}. entry_number d = entry_number (at_entry (gmin + i))"
proof -
  define i where "i = unat (entry_number d) - gmin"
  have "i \<in> {0, 1, 2}" "unat (entry_number d) = gmin + i" using assms(1) by (auto simp: i_def area_entry_def GDT_ENTRY_TLS_ENTRIES_def)
  moreover have "entry_number d = word_of_nat (unat (entry_number d))" by simp
  ultimately show ?thesis by (intro bexI [of _ i]) (simp_all only: entry_number_at)
qed

definition tls_image :: "('g \<Rightarrow> user_desc \<Rightarrow> int \<times> user_desc) \<Rightarrow> nat \<Rightarrow> 'g \<Rightarrow> byte list" where
  "tls_image get_area gmin g = concat (map (\<lambda>i. desc_bytes (snd (get_area g (at_entry (gmin + i))))) [0, 1, 2])"

lemma length_tls_image: "length (tls_image get_area gmin g) = TLS_INFO_SZ"
  by (simp add: tls_image_def TLS_INFO_SZ_def GDT_ENTRY_TLS_ENTRIES_def)

lemma areas_at:
  assumes "areas_spec get_area put_area gmin" "i \<in> {0, 1, 2}"
  shows "area_entry gmin (at_entry (gmin + i))"
  using assms(2) areas_specD(1) [OF assms(1)] area_entry_at [of "gmin + i" gmin] by (auto simp: GDT_ENTRY_TLS_ENTRIES_def)

lemma area_read:
  assumes "areas_spec get_area put_area gmin" "i \<in> {0, 1, 2}" "entry_number d = word_of_nat (gmin + i)"
  shows "get_area g d = (0, snd (get_area g (at_entry (gmin + i))))"
  using areas_specD(3) [OF assms(1) areas_at [OF assms(1,2)], of g] areas_specD(5) [OF assms(1) _ areas_at [OF assms(1,2)], of d g] assms(3)
  unfolding entry_number_at by simp

lemma gdt_min_spec:
  "areas_spec get_area put_area gmin \<Longrightarrow> check_arch_gdt_min (get_area g) = Ok (gmin, snd (get_area g (at_entry gmin)))"
  using gdt_min_found [of get_area put_area gmin 0 g empty_desc] areas_specD(1) [of get_area put_area gmin]
  by (simp add: check_arch_gdt_min_def)

lemma entry_lists: "[1..<GDT_ENTRY_TLS_ENTRIES] = [1, 2]" "[0..<GDT_ENTRY_TLS_ENTRIES] = [0, 1, 2]"
  by (simp_all add: GDT_ENTRY_TLS_ENTRIES_def upt_rec)

lemma get_tls_image:
  assumes spec: "areas_spec get_area put_area gmin" and "TLS_INFO_SZ \<le> sz"
  shows "get_tls_info (get_area g) buffer sz = Ok (TLS_INFO_SZ, tls_image get_area gmin g @ drop TLS_INFO_SZ buffer)"
proof -
  have "get_areas (get_area g) gmin [1, 2] buffer = Ok [snd (get_area g (at_entry (gmin + 1))), snd (get_area g (at_entry (gmin + 2)))]"
    by (simp add: area_read [OF spec, of 1] area_read [OF spec, of 2])
  then show ?thesis using assms(2) unfolding get_tls_info_def gdt_min_spec [OF spec] split_conv entry_lists by (simp add: tls_image_def)
qed

lemma restore_tls_image:
  assumes spec: "areas_spec get_area put_area gmin"
  shows "\<exists>h. restore_tls_info get_area put_area (tls_image get_area gmin g) TLS_INFO_SZ g' = Ok h \<and>
    (\<forall>d. area_entry gmin d \<longrightarrow> get_area h d = get_area g d)"
proof -
  note num = entry_number_at
  define D where "D i = snd (get_area g (at_entry (gmin + i)))" for i
  have lt: "gmin < 61" using areas_specD(1) [OF spec] by (simp add: GDT_ENTRY_TLS_ENTRIES_def)
  have D: "get_area g d = (0, D i)" if "i \<in> {0, 1, 2}" "entry_number d = word_of_nat (gmin + i)" for d i
    unfolding D_def by (rule area_read [OF spec that])
  have nD: "entry_number (D i) = word_of_nat (gmin + i)" if "i \<in> {0, 1, 2}" for i
    using areas_specD(4) [OF spec areas_at [OF spec that]] unfolding D_def num by blast
  have put: "\<exists>h. put_area (D i) x = (0, h) \<and> (\<forall>d'. get_area h d' = (if entry_number d' = word_of_nat (gmin + i) then (0, D i) else get_area x d'))"
    if "i \<in> {0, 1, 2}" for i x
    using areas_specD(6) [OF spec areas_at [OF spec that], of g x] unfolding D [OF that num] num snd_conv .
  have i: "(0 :: nat) \<in> {0, 1, 2}" "(1 :: nat) \<in> {0, 1, 2}" "(2 :: nat) \<in> {0, 1, 2}" by simp_all
  from put [OF i(1), of g'] obtain h0 where h0: "put_area (D 0) g' = (0, h0)"
    "\<forall>d. get_area h0 d = (if entry_number d = word_of_nat (gmin + 0) then (0, D 0) else get_area g' d)" by (elim exE conjE) (rule that)
  from put [OF i(2), of h0] obtain h1 where h1: "put_area (D 1) h0 = (0, h1)"
    "\<forall>d. get_area h1 d = (if entry_number d = word_of_nat (gmin + 1) then (0, D 1) else get_area h0 d)" by (elim exE conjE) (rule that)
  from put [OF i(3), of h1] obtain h2 where h2: "put_area (D 2) h1 = (0, h2)"
    "\<forall>d. get_area h2 d = (if entry_number d = word_of_nat (gmin + 2) then (0, D 2) else get_area h1 d)" by (elim exE conjE) (rule that)
  let ?ds = "desc_bytes (D 0) @ desc_bytes (D 1) @ desc_bytes (D 2)"
  have img: "tls_image get_area gmin g = ?ds" by (simp add: tls_image_def D_def)
  have "desc_of (drop 16 ?ds) = D 1" "desc_of (drop 32 ?ds) = D 2" "desc_of ?ds = D 0"
    using desc_of_bytes [of "D 2" "[]"] by (simp_all add: desc_of_bytes)
  then have "restore_tls_info get_area put_area ?ds TLS_INFO_SZ g' = Ok h2"
    using h0(1) h1(1) h2(1) nD [of 0] nD [of 1] nD [of 2] unfolding restore_tls_info_def gdt_min_spec [OF spec] entry_lists by simp
  moreover have "get_area h2 d = get_area g d" if d: "area_entry gmin d" for d
  proof -
    obtain j where j: "j \<in> {0, 1, 2}" "entry_number d = word_of_nat (gmin + j)" using area_index [OF d lt] unfolding num by blast
    have "get_area h2 d = (0, D j)"
      using j h2(2) [rule_format, of d] h1(2) [rule_format, of d] h0(2) [rule_format, of d] by (elim insertE) (simp_all split: if_splits)
    then show ?thesis using D [OF j] by simp
  qed
  ultimately show ?thesis unfolding img by blast
qed

text \<open>
  C38.  The descriptors that \<open>get_tls_info\<close> stores, \<open>restore_tls_info\<close> installs: afterwards every thread
  area is read as it was when the information was taken, whatever it held in between.
\<close>

theorem tls_info_roundtrip:
  assumes spec: "areas_spec get_area put_area gmin" and "TLS_INFO_SZ \<le> sz"
  shows "\<exists>n buf. get_tls_info (get_area g) buffer sz = Ok (n, buf) \<and>
    (\<exists>h. restore_tls_info get_area put_area (take n buf) n g' = Ok h \<and> (\<forall>d. area_entry gmin d \<longrightarrow> get_area h d = get_area g d))"
proof -
  have tk: "take TLS_INFO_SZ (tls_image get_area gmin g @ drop TLS_INFO_SZ buffer) = tls_image get_area gmin g"
    using length_tls_image [of get_area gmin g] by simp
  show ?thesis
    by (rule exI [of _ TLS_INFO_SZ], rule exI, rule conjI [OF get_tls_image [OF assms]]) (unfold tk, rule restore_tls_image [OF spec])
qed

text \<open>
  C39.  The search for the first thread area ends at 61, but a failed search is reported only from 64 on: on a
  kernel without one it returns 61, an entry that was never asked for.
\<close>

theorem gdt_min_not_found:
  assumes "\<And>d. fst (get_area d) = - EINVAL"
  shows "\<exists>d. check_arch_gdt_min get_area = Ok (61, d)"
proof -
  have "\<exists>d'. gdt_min_loop get_area n d = Ok (61, d')" if "n \<le> 61" for n d
    using that
  proof (induction "61 - n" arbitrary: n d)
    case 0
    then show ?case by (subst gdt_min_loop.simps) (simp add: GDT_ENTRY_TLS_ENTRIES_def)
  next
    case (Suc k)
    obtain d' where "get_area (empty_desc\<lparr>entry_number := word_of_nat n\<rparr>) = (- EINVAL, d')"
      using assms [of "empty_desc\<lparr>entry_number := word_of_nat n\<rparr>"] by (cases "get_area (empty_desc\<lparr>entry_number := word_of_nat n\<rparr>)") simp
    then show ?case using Suc.hyps(1) [of "n + 1" d'] Suc.hyps(2) Suc.prems
      by (subst gdt_min_loop.simps) (simp add: GDT_ENTRY_TLS_ENTRIES_def EINVAL_def)
  qed
  from this [of 0 empty_desc] show ?thesis by (auto simp: check_arch_gdt_min_def)
qed

text \<open>A processor whose floating point state is its 512 bytes, and three thread areas from 6 on.\<close>

definition demo_get :: "(nat \<Rightarrow> user_desc) \<Rightarrow> user_desc \<Rightarrow> int \<times> user_desc" where
  "demo_get g d = (if area_entry 6 d then (0, (g (unat (entry_number d)))\<lparr>entry_number := entry_number d\<rparr>) else (- EINVAL, d))"

definition demo_put :: "user_desc \<Rightarrow> (nat \<Rightarrow> user_desc) \<Rightarrow> int \<times> (nat \<Rightarrow> user_desc)" where
  "demo_put d g = (if area_entry 6 d then (0, g(unat (entry_number d) := d)) else (- EINVAL, g))"

lemma demo_areas: "areas_spec demo_get demo_put 6"
  by (auto simp: areas_spec_def demo_get_def demo_put_def GDT_ENTRY_TLS_ENTRIES_def area_entry_def simp flip: word_unat_eq_iff)

definition demo_fx :: "byte \<Rightarrow> byte list" where "demo_fx f = replicate 512 f"

theorem cpuinfo_roundtrip_witness:
  "\<exists>n buf. get_ckpt_cpuinfo demo_fx \<lparr>seg_cs = 0x73, seg_ds = 0x7b, seg_es = 0x7b, seg_fs = 0, seg_gs = 0x33, seg_ss = 0x7b, fpu = 7\<rparr>
      (replicate 1024 0) 1024 \<lparr>eflags = 0x246, edi = 1, esi = 2, ebp = 3, esp = 4, ebx = 5, edx = 6, ecx = 7, eax = 8\<rparr> 0x8048000 = Ok (n, buf) \<and>
    length buf = 1024 \<and>
    restore_ckpt_cpuinfo hd (take n buf) n \<lparr>seg_cs = 0x73, seg_ds = 0x7b, seg_es = 0x7b, seg_fs = 1, seg_gs = 2, seg_ss = 0x7b, fpu = 9\<rparr> =
      Ok (\<lparr>eflags = 0x246, edi = 1, esi = 2, ebp = 3, esp = 4, ebx = 5, edx = 6, ecx = 7, eax = 8\<rparr>, 0x8048000,
        \<lparr>seg_cs = 0x73, seg_ds = 0x7b, seg_es = 0x7b, seg_fs = 0, seg_gs = 0x33, seg_ss = 0x7b, fpu = 7\<rparr>)"
  using cpuinfo_roundtrip [of demo_fx hd "replicate 1024 0" 1024
      "\<lparr>seg_cs = 0x73, seg_ds = 0x7b, seg_es = 0x7b, seg_fs = 0, seg_gs = 0x33, seg_ss = 0x7b, fpu = 7\<rparr>"
      "\<lparr>eflags = 0x246, edi = 1, esi = 2, ebp = 3, esp = 4, ebx = 5, edx = 6, ecx = 7, eax = 8\<rparr>" "0x8048000"
      "\<lparr>seg_cs = 0x73, seg_ds = 0x7b, seg_es = 0x7b, seg_fs = 1, seg_gs = 2, seg_ss = 0x7b, fpu = 9\<rparr>"]
  by (simp add: demo_fx_def sizeof_fxsave_def sizeof_cpuinfo_def)

theorem tls_info_roundtrip_witness:
  "\<exists>n buf. get_tls_info (demo_get (\<lambda>n. \<lparr>entry_number = 0, base_addr = word_of_nat n, limit = 9, desc_flags = 0x51\<rparr>)) (replicate 1024 0) 1024 = Ok (n, buf) \<and>
    (\<exists>h. restore_tls_info demo_get demo_put (take n buf) n (\<lambda>n. empty_desc) = Ok h \<and>
      demo_get h (at_entry 7) = (0, \<lparr>entry_number = 7, base_addr = 7, limit = 9, desc_flags = 0x51\<rparr>))"
proof -
  let ?g = "\<lambda>n. \<lparr>entry_number = 0, base_addr = word_of_nat n, limit = 9, desc_flags = 0x51\<rparr>"
  have "area_entry 6 (at_entry 7)" by (simp add: area_entry_at)
  moreover from this have "demo_get ?g (at_entry 7) = (0, \<lparr>entry_number = 7, base_addr = 7, limit = 9, desc_flags = 0x51\<rparr>)"
    by (simp add: demo_get_def at_entry_def)
  moreover have "TLS_INFO_SZ \<le> 1024" by (simp add: TLS_INFO_SZ_def GDT_ENTRY_TLS_ENTRIES_def)
  ultimately show ?thesis
    using tls_info_roundtrip [OF demo_areas, of 1024 ?g "replicate 1024 0" "\<lambda>n. empty_desc"] by metis
qed

theorem gdt_min_not_found_witness: "\<exists>d. check_arch_gdt_min (\<lambda>d. (- EINVAL, d)) = Ok (61, d)"
  by (rule gdt_min_not_found) simp

end
