(* ===== verification/Checkpoint.thy ===== *)
theory Checkpoint
  imports Arch_Checkpoint Big_Buffer User_Entry Startup_Stack
begin

text \<open>
  Checkpoints (\<^verbatim>\<open>src/core/loader/checkpoint.c\<close>, \<^verbatim>\<open>checkpoint.h\<close>): a file with a
  head, the strings the process was started with, the state of the processor and every area of the memory
  map, as marked sections.  The model is of the build without \<^verbatim>\<open>COMPRESS_CKPT\<close>, which the
  build files never define: every piece is one \<^verbatim>\<open>write\<close>.

  A process has its memory, the protection of every byte and the mapped addresses; a
  \<^verbatim>\<open>write\<close> from an address that cannot be read returns \<^verbatim>\<open>-EFAULT\<close>.  What
  lies in the stack frames of the functions themselves is passed as bytes.  The kernel calls are
  parameters, those on files as in \<open>Kernel_Io\<close>.
\<close>

subsection \<open>Sections\<close>

definition CKPT_SECT_END_MARK :: u32 where "CKPT_SECT_END_MARK = 0"
definition CKPT_SECT_EXEC_MARK :: u32 where "CKPT_SECT_EXEC_MARK = 1"
definition CKPT_SECT_ARGS_MARK :: u32 where "CKPT_SECT_ARGS_MARK = 2"
definition CKPT_SECT_ENVS_MARK :: u32 where "CKPT_SECT_ENVS_MARK = 3"
definition CKPT_SECT_CPU_MARK :: u32 where "CKPT_SECT_CPU_MARK = 4"
definition CKPT_SECT_TLS_MARK :: u32 where "CKPT_SECT_TLS_MARK = 5"
definition CKPT_SECT_MEMSEG_MARK :: u32 where "CKPT_SECT_MEMSEG_MARK = 6"
definition CKPT_SUBSECT_FN_MARK :: u32 where "CKPT_SUBSECT_FN_MARK = 7"
definition CKPT_SUBSECT_FINFO_MARK :: u32 where "CKPT_SUBSECT_FINFO_MARK = 8"
definition CKPT_SUBSECT_FDATA_MARK :: u32 where "CKPT_SUBSECT_FDATA_MARK = 9"

record ckpt_proc =
  cp_mem :: mem
  cp_prot :: "nat \<Rightarrow> u32"
  cp_vm :: vm

text \<open>A pointer is to an object of the writing function, or to a place in memory.\<close>

datatype source = Own "byte list" | At u32

definition fetch :: "ckpt_proc \<Rightarrow> source \<Rightarrow> nat \<Rightarrow> byte list option" where
  "fetch p ptr n = (case ptr of
      Own bs \<Rightarrow> Some (take n bs)
    | At a \<Rightarrow> if list_all (\<lambda>x. x \<in> cp_vm p \<and> cp_prot p x AND Proc_Maps.PROT_READ \<noteq> 0) [unat a..<unat a + n]
             then Some (bytes_at (cp_mem p) (unat a) n) else None)"

definition EFAULT :: int where "EFAULT = 14"

definition writeto :: "io_calls \<Rightarrow> int \<Rightarrow> ckpt_proc \<Rightarrow> source \<Rightarrow> nat \<Rightarrow> io_state \<Rightarrow> io_state run" where
  "writeto k fd p ptr sz io =
    (if sz = 0 then Ok io
     else bindR (assert_that (ptr \<noteq> At 0)) (\<lambda>_.
       let (err, io) = (case fetch p ptr sz of None \<Rightarrow> (- EFAULT, io) | Some bs \<Rightarrow> sys_write k fd bs io)
       in if (word_of_int err :: u32) \<noteq> word_of_nat sz then Stop Fatal else Ok io))"

record sg =
  have_imark :: bool
  imark :: u32
  sg_ptr :: source
  sg_length :: nat

definition setup_sglist :: "bool \<Rightarrow> u32 \<Rightarrow> source \<Rightarrow> nat \<Rightarrow> sg" where
  "setup_sglist haveim im ptr len = \<lparr>have_imark = haveim, imark = im, sg_ptr = ptr, sg_length = len\<rparr>"

fun sg_total :: "sg list \<Rightarrow> u32" where
  "sg_total [] = 0"
| "sg_total (g # gs) = (if have_imark g then 4 + 4 else 0) + word_of_nat (sg_length g) + sg_total gs"

fun write_sgs :: "io_calls \<Rightarrow> int \<Rightarrow> ckpt_proc \<Rightarrow> sg list \<Rightarrow> io_state \<Rightarrow> io_state run" where
  "write_sgs k fd p [] io = Ok io"
| "write_sgs k fd p (g # gs) io =
    bindR (if have_imark g then
        bindR (writeto k fd p (Own (le32 (imark g))) 4 io) (\<lambda>io. writeto k fd p (Own (le32 (word_of_nat (sg_length g)))) 4 io)
      else Ok io) (\<lambda>io.
    bindR (writeto k fd p (sg_ptr g) (sg_length g) io) (\<lambda>io. write_sgs k fd p gs io))"

definition write_section_sg :: "io_calls \<Rightarrow> int \<Rightarrow> ckpt_proc \<Rightarrow> u32 \<Rightarrow> sg list \<Rightarrow> io_state \<Rightarrow> io_state run" where
  "write_section_sg k fd p mark sglist io =
    bindR (writeto k fd p (Own (le32 mark)) 4 io) (\<lambda>io.
    bindR (writeto k fd p (Own (le32 (sg_total sglist))) 4 io) (\<lambda>io. write_sgs k fd p sglist io))"

definition write_section :: "io_calls \<Rightarrow> int \<Rightarrow> ckpt_proc \<Rightarrow> u32 \<Rightarrow> source \<Rightarrow> nat \<Rightarrow> io_state \<Rightarrow> io_state run" where
  "write_section k fd p mark ptr len io = write_section_sg k fd p mark [setup_sglist False 0 ptr len] io"

subsection \<open>What is written\<close>

record ckpt_calls =
  ck_io :: io_calls
  ck_mmap :: mmap
  ck_munmap :: munmap
  ck_mprotect :: mprotect
  ck_proc :: proc_calls
  ck_stat64 :: "byte list \<Rightarrow> int \<times> u64"
  ck_brk :: u32

definition ckpt_baseinfo :: "io_calls \<Rightarrow> int \<Rightarrow> ckpt_proc \<Rightarrow> startup_stack_info \<Rightarrow> io_state \<Rightarrow> io_state run option" where
  "ckpt_baseinfo k fd p info io =
    bindO (Some (assert_that (bottom_exec_fn info \<noteq> 0))) (\<lambda>_.
    bindO (strlen_ptr (cp_mem p) (bottom_exec_fn info)) (\<lambda>n.
    Some (
      bindR (write_section k fd p CKPT_SECT_EXEC_MARK (At (word_of_nat (bottom_exec_fn info))) (n + 1) io) (\<lambda>io.
      bindR (assert_that (cmdline_argbegin info \<noteq> 0)) (\<lambda>_.
      bindR (assert_that (cmdline_argend info \<noteq> 0)) (\<lambda>_.
      bindR (assert_that (cmdline_argend info > cmdline_argbegin info)) (\<lambda>_.
      bindR (write_section k fd p CKPT_SECT_ARGS_MARK (At (word_of_nat (cmdline_argbegin info)))
        (cmdline_argend info - cmdline_argbegin info) io) (\<lambda>io.
      bindR (assert_that (envbegin info \<noteq> 0)) (\<lambda>_.
      bindR (assert_that (envend info \<noteq> 0)) (\<lambda>_.
      bindR (assert_that (envend info > envbegin info)) (\<lambda>_.
        write_section k fd p CKPT_SECT_ENVS_MARK (At (word_of_nat (envbegin info))) (envend info - envbegin info) io)))))))))))"

definition ckpt_archinfo ::
  "('f \<Rightarrow> byte list) \<Rightarrow> (user_desc \<Rightarrow> int \<times> user_desc) \<Rightarrow> 'f cpu_state \<Rightarrow> byte list \<Rightarrow>
    io_calls \<Rightarrow> int \<Rightarrow> ckpt_proc \<Rightarrow> pusha_regs \<Rightarrow> u32 \<Rightarrow> io_state \<Rightarrow> io_state run" where
  "ckpt_archinfo fxsave get_area c buf k fd p regs pc io =
    bindR (get_ckpt_cpuinfo fxsave c buf 1024 regs pc) (\<lambda>(sz, buf).
    bindR (write_section k fd p CKPT_SECT_CPU_MARK (Own buf) sz io) (\<lambda>io.
    bindR (get_tls_info get_area buf 1024) (\<lambda>(sz, buf).
      write_section k fd p CKPT_SECT_TLS_MARK (Own buf) sz io)))"

definition get_aval_size :: "(byte list \<Rightarrow> int \<times> u64) \<Rightarrow> byte list \<Rightarrow> u64 \<Rightarrow> u32 \<Rightarrow> u32" where
  "get_aval_size stat64 fn offset desire_size =
    (let desire_size = ALIGN_UP desire_size PAGE_SIZE
     in if ch fn 0 = 0 then desire_size
        else if ch fn 0 = chr CHR ''['' then desire_size
        else
          let (err, st_size) = stat64 fn
          in if err \<noteq> 0 then desire_size
             else
               let retval = (if offset + ucast desire_size > st_size then ALIGN_UP (ucast (st_size - offset)) PAGE_SIZE else desire_size)
               in desire_size)"

record map_file_info =
  mf_prot :: u32
  mf_offset :: u64
  mf_space_sz :: u32
  mf_ckpt_sz :: u32
  mf_start :: u32
  mf_end :: u32

definition finfo_bytes :: "map_file_info \<Rightarrow> byte list" where
  "finfo_bytes f = le32 (mf_prot f) @ le32 (ucast (mf_offset f)) @ le32 (ucast (drop_bit 32 (mf_offset f))) @ le32 (mf_space_sz f) @
    le32 (mf_ckpt_sz f) @ le32 (mf_start f) @ le32 (mf_end f)"

definition sizeof_finfo :: nat where "sizeof_finfo = 28"

definition reprotect :: "mprotect \<Rightarrow> u32 \<Rightarrow> u32 \<Rightarrow> u32 \<Rightarrow> ckpt_proc \<Rightarrow> ckpt_proc run" where
  "reprotect mprotect a len prot p =
    (let (err, pr) = mprotect a len prot (cp_vm p) (cp_prot p)
     in bindR (assert_that (err = 0)) (\<lambda>_. Ok (p\<lparr>cp_prot := pr\<rparr>)))"

definition is_dev :: "byte list \<Rightarrow> proc_maps_entry_t \<Rightarrow> bool" where
  "is_dev data r \<longleftrightarrow> (case pm_fn r of None \<Rightarrow> False | Some f \<Rightarrow> map (\<lambda>i. ch data (f + i)) [0, 1, 2, 3] = lit ''/dev'')"

definition is_internal :: "byte list \<Rightarrow> proc_maps_entry_t \<Rightarrow> bool" where
  "is_internal data r \<longleftrightarrow> (case pm_fn r of None \<Rightarrow> True | Some f \<Rightarrow> ch data f = chr CHR ''['')"

text \<open>\<open>data\<close> is the text of the memory map, which the name of the entry points into.\<close>

definition ckpt_memseg :: "ckpt_calls \<Rightarrow> int \<Rightarrow> byte list \<Rightarrow> proc_maps_entry_t \<Rightarrow> ckpt_proc \<Rightarrow> io_state \<Rightarrow> (ckpt_proc \<times> io_state) run" where
  "ckpt_memseg ck fd data r p io =
    bindR (assert_that (pm_valid r)) (\<lambda>_.
      let fn_buffer = entry_name data r @ [0];
          len = pm_end r - pm_start r;
          l0 = setup_sglist True CKPT_SUBSECT_FN_MARK (Own fn_buffer) (pm_fn_len r + 1);
          finfo = \<lparr>mf_prot = pm_prot r, mf_offset = pm_offset r, mf_space_sz = len, mf_ckpt_sz = 0, mf_start = pm_start r, mf_end = pm_end r\<rparr>;
          l1 = (\<lambda>finfo. setup_sglist True CKPT_SUBSECT_FINFO_MARK (Own (finfo_bytes finfo)) sizeof_finfo)
      in if is_dev data r then
           bindR (write_section_sg (ck_io ck) fd p CKPT_SECT_MEMSEG_MARK
             [l0, l1 finfo, setup_sglist True CKPT_SUBSECT_FDATA_MARK (At 0) 0] io) (\<lambda>io. Ok (p, io))
         else
           bindR (if pm_prot r AND Proc_Maps.PROT_READ = 0
                  then reprotect (ck_mprotect ck) (pm_start r) len (pm_prot r OR Proc_Maps.PROT_READ) p else Ok p) (\<lambda>p.
           bindR (if is_internal data r
                  then Ok (finfo\<lparr>mf_ckpt_sz := mf_space_sz finfo\<rparr>, setup_sglist True CKPT_SUBSECT_FDATA_MARK (At (pm_start r)) (unat len))
                  else let aval_sz = get_aval_size (ck_stat64 ck) fn_buffer (mf_offset finfo) (mf_space_sz finfo)
                       in bindR (assert_that (aval_sz mod PAGE_SIZE = 0)) (\<lambda>_.
                            Ok (finfo\<lparr>mf_ckpt_sz := aval_sz\<rparr>, setup_sglist True CKPT_SUBSECT_FDATA_MARK (At (pm_start r)) (unat aval_sz)))) (\<lambda>(finfo, l2).
           bindR (write_section_sg (ck_io ck) fd p CKPT_SECT_MEMSEG_MARK [l0, l1 finfo, l2] io) (\<lambda>io.
           bindR (if pm_prot r AND Proc_Maps.PROT_READ = 0
                  then reprotect (ck_mprotect ck) (pm_start r) len (pm_prot r) p else Ok p) (\<lambda>p. Ok (p, io))))))"

function memseg_loop :: "ckpt_calls \<Rightarrow> int \<Rightarrow> mem \<Rightarrow> u32 \<Rightarrow> proc_mem_handler_t \<Rightarrow> ckpt_proc \<Rightarrow> io_state \<Rightarrow> (ckpt_proc \<times> io_state) run" where
  "memseg_loop ck fd frame procmap_ptr h p io =
    bindR (read_maps_line frame h) (\<lambda>(r, h).
      if pm_valid r then
        if pm_start r = procmap_ptr then memseg_loop ck fd frame procmap_ptr h p io
        else bindR (ckpt_memseg ck fd (map_data h) r p io) (\<lambda>(p, io). memseg_loop ck fd frame procmap_ptr h p io)
      else Ok (p, io))"
  by pat_completeness auto

termination
  by (relation "measure (\<lambda>(ck, fd, frame, q, h, p, io). map_end h - curr_ptr h)") (auto dest!: read_maps_line_measure)

declare memseg_loop.simps [simp del]

definition PROCMAP_GUARD :: u32 where "PROCMAP_GUARD = 1 * PAGE_SIZE"

definition on_vm :: "(vm \<Rightarrow> vm run) \<Rightarrow> ckpt_proc \<Rightarrow> ckpt_proc run" where
  "on_vm f p = bindR (f (cp_vm p)) (\<lambda>vm. Ok (p\<lparr>cp_vm := vm\<rparr>))"

text \<open>The text of the map is read into pages of its own, whose area is left out.\<close>

definition ckpt_meminfo :: "ckpt_calls \<Rightarrow> int \<Rightarrow> mem \<Rightarrow> ckpt_proc \<Rightarrow> io_state \<Rightarrow> (ckpt_proc \<times> io_state) run" where
  "ckpt_meminfo ck fd frame p io =
    bindR (xalloc_pages (ck_mmap ck) (word_of_nat MAX_PROC_MAPS_FILE_SIZE + 2 * PROCMAP_GUARD) False (cp_vm p)) (\<lambda>(g1, vm).
    bindR (assert_that (g1 \<noteq> 0)) (\<lambda>_.
      let p = p\<lparr>cp_vm := vm\<rparr>; procmap_ptr = g1 + PROCMAP_GUARD; g2 = procmap_ptr + word_of_nat MAX_PROC_MAPS_FILE_SIZE
      in bindR (on_vm (xdealloc_pages (ck_munmap ck) g1 PROCMAP_GUARD) p) (\<lambda>p.
         bindR (on_vm (xdealloc_pages (ck_munmap ck) g2 PROCMAP_GUARD) p) (\<lambda>p.
         bindR (read_self_procmap (ck_proc ck)) (\<lambda>h.
         bindR (memseg_loop ck fd frame procmap_ptr h p io) (\<lambda>(p, io).
         bindR (on_vm (xdealloc_pages (ck_munmap ck) procmap_ptr (word_of_nat MAX_PROC_MAPS_FILE_SIZE)) p) (\<lambda>p.
         bindR (writeto (ck_io ck) fd p (Own (le32 CKPT_SECT_END_MARK)) 4 io) (\<lambda>io.
         bindR (writeto (ck_io ck) fd p (Own (le32 0)) 4 io) (\<lambda>io. Ok (p, io))))))))))"

text \<open>The structure has two bytes of padding behind the 18 bytes of \<^verbatim>\<open>magic\<close>.\<close>

definition CKPT_VERSION_STRING :: "byte list" where "CKPT_VERSION_STRING = lit ''SNITCHASER-CKPT87''"

record checkpoint_head =
  ch_pid :: u32
  ch_tid :: u32
  ch_tls_start :: u32
  ch_tls_size :: u32
  ch_brk :: u32
  ch_stack_top :: u32

definition ckpt_head_bytes :: "checkpoint_head \<Rightarrow> byte list" where
  "ckpt_head_bytes h = CKPT_VERSION_STRING @ [0, 0, 0] @ le32 (ch_pid h) @ le32 (ch_tid h) @ le32 (ch_tls_start h) @
    le32 (ch_tls_size h) @ le32 (ch_brk h) @ le32 (ch_stack_top h)"

definition sizeof_ckpt_head :: nat where "sizeof_ckpt_head = 44"

text \<open>\<open>tls\<close> is the address and the size of the thread area of the caller.\<close>

definition do_checkpoint ::
  "ckpt_calls \<Rightarrow> ('f \<Rightarrow> byte list) \<Rightarrow> (user_desc \<Rightarrow> int \<times> user_desc) \<Rightarrow> 'f cpu_state \<Rightarrow> byte list \<Rightarrow> wrkmem \<Rightarrow> startup_stack_info \<Rightarrow>
    u32 \<times> u32 \<Rightarrow> mem \<Rightarrow> pusha_regs \<Rightarrow> u32 \<Rightarrow> u32 \<Rightarrow> string \<Rightarrow> u32 \<Rightarrow> u32 \<Rightarrow> ckpt_proc \<Rightarrow> bigbuffer \<Rightarrow> io_state \<Rightarrow>
    (ckpt_proc \<times> bigbuffer \<times> io_state) run option" where
  "do_checkpoint ck fxsave get_area c buf wrkmem info tls frame regs pc stack_top fn pid tid p bb io =
    (let bb = init_bigbuffer bb; (fd, io) = sys_open (ck_io ck) fn Truncate io
     in bindO (Some (CASSERT (fd \<ge> 0))) (\<lambda>_.
        let head = \<lparr>ch_pid = pid, ch_tid = tid, ch_tls_start = fst tls, ch_tls_size = snd tls, ch_brk = ck_brk ck, ch_stack_top = stack_top\<rparr>
        in bindO (Some (writeto (ck_io ck) fd p (Own (ckpt_head_bytes head)) sizeof_ckpt_head io)) (\<lambda>io.
           bindO (ckpt_baseinfo (ck_io ck) fd p info io) (\<lambda>io.
           bindO (Some (ckpt_archinfo fxsave get_area c buf (ck_io ck) fd p regs pc io)) (\<lambda>io.
           bindO (Some (ckpt_meminfo ck fd frame p io)) (\<lambda>(p, io).
           bindO (Some (flush_bigbuffer (ck_io ck) wrkmem fd bb io)) (\<lambda>(bb, io).
             let (err, io) = sys_close (ck_io ck) fd io in Some (Ok (p, bb, io)))))))))"

subsection \<open>The calls that take a checkpoint\<close>

text \<open>\<open>clear_all_thread_mem\<close> frees the objects of every thread, in the order of the list.\<close>

definition free_aux_mem :: "munmap \<Rightarrow> obj_mm_tpd_stub \<Rightarrow> vm \<Rightarrow> (obj_mm_tpd_stub \<times> vm) run" where
  "free_aux_mem munmap stub vm = clean_mm_obj munmap stub vm"

fun clear_all_thread_mem :: "munmap \<Rightarrow> obj_mm_tpd_stub list \<Rightarrow> vm \<Rightarrow> (obj_mm_tpd_stub list \<times> vm) run" where
  "clear_all_thread_mem munmap [] vm = Ok ([], vm)"
| "clear_all_thread_mem munmap (s # ss) vm =
    bindR (free_aux_mem munmap s vm) (\<lambda>(s, vm).
    bindR (clear_all_thread_mem munmap ss vm) (\<lambda>(ss, vm). Ok (s # ss, vm)))"

definition MAX_OUTPUT_FN_LEN :: nat where "MAX_OUTPUT_FN_LEN = 128"

text \<open>
  A fork has two outcomes.  \<open>tmppid\<close> and \<open>tmppid2\<close> are what the two \<^verbatim>\<open>clone\<close> calls return in
  the process that is followed, \<open>wait4\<close> what waiting for a process returns.  The flag of the result says
  that the process has ended with \<^verbatim>\<open>exit(0)\<close>.  \<open>name\<close> is the formatted name of the file and
  \<open>ckpt\<close> the call of \<open>do_checkpoint\<close> with its remaining arguments.
\<close>

definition fork_checkpoint ::
  "munmap \<Rightarrow> int \<Rightarrow> int \<Rightarrow> (int \<Rightarrow> int) \<Rightarrow> string \<Rightarrow> (string \<Rightarrow> ckpt_proc \<Rightarrow> io_state \<Rightarrow> (ckpt_proc \<times> bigbuffer \<times> io_state) run option) \<Rightarrow>
    obj_mm_tpd_stub list \<Rightarrow> ckpt_proc \<Rightarrow> io_state \<Rightarrow> (bool \<times> ckpt_proc \<times> io_state) run option" where
  "fork_checkpoint munmap tmppid tmppid2 wait4 name ckpt stubs p io =
    bindO (Some (assert_that (tmppid \<ge> 0))) (\<lambda>_.
      if tmppid = 0 then
        bindO (Some (assert_that (tmppid2 \<ge> 0))) (\<lambda>_.
          if tmppid2 = 0 then
            bindO (Some (clear_all_thread_mem munmap stubs (cp_vm p))) (\<lambda>(stubs, vm).
            bindO (Some (assert_that (length name < MAX_OUTPUT_FN_LEN))) (\<lambda>_.
            bindO (ckpt (take (MAX_OUTPUT_FN_LEN - 1 - 1) name) (p\<lparr>cp_vm := vm\<rparr>) io) (\<lambda>(p, bb, io). Some (Ok (True, p, io)))))
          else Some (Ok (True, p, io)))
      else bindO (Some (assert_that (wait4 tmppid = tmppid))) (\<lambda>_. Some (Ok (False, p, io))))"

definition dead_checkpoint ::
  "munmap \<Rightarrow> int \<Rightarrow> int \<Rightarrow> (int \<Rightarrow> int) \<Rightarrow> string \<Rightarrow> (string \<Rightarrow> ckpt_proc \<Rightarrow> io_state \<Rightarrow> (ckpt_proc \<times> bigbuffer \<times> io_state) run option) \<Rightarrow>
    obj_mm_tpd_stub list \<Rightarrow> ckpt_proc \<Rightarrow> io_state \<Rightarrow> (bool \<times> ckpt_proc \<times> io_state) run option" where
  "dead_checkpoint munmap gettimeofday chld wait4 name ckpt stubs p io =
    bindO (Some (assert_that (gettimeofday = 0))) (\<lambda>_.
    bindO (Some (assert_that (chld \<ge> 0))) (\<lambda>_.
      if chld = 0 then
        bindO (Some (clear_all_thread_mem munmap stubs (cp_vm p))) (\<lambda>(stubs, vm).
        bindO (ckpt (take (MAX_OUTPUT_FN_LEN - 1 - 1) name) (p\<lparr>cp_vm := vm\<rparr>) io) (\<lambda>(p, bb, io). Some (Ok (True, p, io))))
      else bindO (Some (assert_that (wait4 chld = chld))) (\<lambda>_. Some (Ok (False, p, io)))))"

subsection \<open>Reading a checkpoint\<close>

text \<open>What a reader of the format gets: the marked sections up to the end mark.\<close>

function read_sections :: "byte list \<Rightarrow> (u32 \<times> byte list) list option" where
  "read_sections bs =
    (if length bs < 8 then None
     else
       let mark = of_le32 bs; n = unat (of_le32 (drop 4 bs))
       in if mark = CKPT_SECT_END_MARK then (if n = 0 \<and> length bs = 8 then Some [] else None)
          else if length bs < 8 + n then None
          else map_option ((#) (mark, take n (drop 8 bs))) (read_sections (drop (8 + n) bs)))"
  by pat_completeness auto

termination
  by (relation "measure length") auto

declare read_sections.simps [simp del]

text \<open>The pieces of a memory section.\<close>

function read_subsections :: "byte list \<Rightarrow> (u32 \<times> byte list) list option" where
  "read_subsections bs =
    (if bs = [] then Some []
     else if length bs < 8 then None
     else
       let n = unat (of_le32 (drop 4 bs))
       in if length bs < 8 + n then None
          else map_option ((#) (of_le32 bs, take n (drop 8 bs))) (read_subsections (drop (8 + n) bs)))"
  by pat_completeness auto

termination
  by (relation "measure length") auto

declare read_subsections.simps [simp del]

definition sect :: "u32 \<times> byte list \<Rightarrow> byte list" where
  "sect s = le32 (fst s) @ le32 (word_of_nat (length (snd s))) @ snd s"

lemma length_sect [simp]: "length (sect s) = 8 + length (snd s)"
  by (simp add: sect_def)

lemma sect_parts:
  "of_le32 (sect s @ r) = fst s" "of_le32 (drop 4 (sect s @ r)) = word_of_nat (length (snd s))"
  "take (length (snd s)) (drop 8 (sect s @ r)) = snd s" "drop (8 + length (snd s)) (sect s @ r) = r"
  by (simp_all add: sect_def)

lemma read_sections_image:
  assumes "\<forall>s\<in>set ss. fst s \<noteq> CKPT_SECT_END_MARK \<and> length (snd s) < 2 ^ 32"
  shows "read_sections (concat (map sect ss) @ le32 CKPT_SECT_END_MARK @ le32 0) = Some ss"
  using assms
proof (induction ss)
  case Nil
  have "of_le32 (le32 0) = 0" using of_le32_le32 [of 0 "[]"] by simp
  then show ?case by (subst read_sections.simps) simp
next
  case (Cons s ss)
  let ?r = "concat (map sect ss) @ le32 CKPT_SECT_END_MARK @ le32 0"
  have n: "unat (word_of_nat (length (snd s)) :: u32) = length (snd s)" using Cons.prems by (intro unat_word_of_nat_32) simp
  have "read_sections (sect s @ ?r) = map_option ((#) s) (read_sections ?r)"
    using Cons.prems by (subst read_sections.simps) (simp only: Let_def sect_parts n, simp)
  then show ?case using Cons by simp
qed

lemma read_subsections_image:
  assumes "\<forall>s\<in>set ss. length (snd s) < 2 ^ 32"
  shows "read_subsections (concat (map sect ss)) = Some ss"
  using assms
proof (induction ss)
  case Nil
  then show ?case by (subst read_subsections.simps) simp
next
  case (Cons s ss)
  let ?r = "concat (map sect ss)"
  have n: "unat (word_of_nat (length (snd s)) :: u32) = length (snd s)" using Cons.prems by (intro unat_word_of_nat_32) simp
  have ne: "sect s @ ?r \<noteq> []" by (simp flip: length_0_conv)
  have "read_subsections (sect s @ ?r) = map_option ((#) s) (read_subsections ?r)"
    by (subst read_subsections.simps) (simp only: Let_def sect_parts n ne if_False, simp)
  then show ?case using Cons by simp
qed

subsection \<open>Writing\<close>

text \<open>The file is open and has contents, the kernel writes.\<close>

definition ckpt_file :: "io_calls \<Rightarrow> int \<Rightarrow> string \<Rightarrow> io_state \<Rightarrow> bool" where
  "ckpt_file k fd fn io \<longleftrightarrow> io_reliable k \<and> fds io fd = Some fn \<and> disk io fn \<noteq> None"

lemma ckpt_file_next: "ckpt_file k fd fn io \<Longrightarrow> ckpt_file k fd fn (written fn bs io)"
  by (simp add: ckpt_file_def written_def)

lemma sys_write_file:
  assumes "ckpt_file k fd fn io"
  shows "sys_write k fd bs io = (int (length bs), written fn bs io)"
proof -
  obtain n io' where w: "sys_write k fd bs io = (n, io')" by (cases "sys_write k fd bs io")
  have f: "io_reliable k" "fds io fd = Some fn" using assms by (simp_all add: ckpt_file_def)
  have "n = int (length bs)" using reliable_calls(3) [OF f, of bs] w by simp
  with write_Ok [OF reliable_calls(1) [OF f(1)] w f(2)] w show ?thesis by simp
qed

lemma writeto_Ok:
  assumes "ckpt_file k fd fn io" "fetch p ptr n = Some bs" "length bs = n" "n \<noteq> 0 \<Longrightarrow> ptr \<noteq> At 0"
  shows "writeto k fd p ptr n io = Ok (written fn bs io)"
proof (cases "n = 0")
  case True
  then show ?thesis using assms by (auto simp: writeto_def ckpt_file_def written_nil)
next
  case False
  then show ?thesis using assms sys_write_file [OF assms(1), of bs] by (auto simp: writeto_def)
qed

lemma writeto_own:
  "ckpt_file k fd fn io \<Longrightarrow> n \<le> length bs \<Longrightarrow> writeto k fd p (Own bs) n io = Ok (written fn (take n bs) io)"
  by (rule writeto_Ok) (simp_all add: fetch_def)

definition sg_ok :: "ckpt_proc \<Rightarrow> sg \<Rightarrow> byte list \<Rightarrow> bool" where
  "sg_ok p g bs \<longleftrightarrow> fetch p (sg_ptr g) (sg_length g) = Some bs \<and> length bs = sg_length g \<and> (sg_length g \<noteq> 0 \<longrightarrow> sg_ptr g \<noteq> At 0)"

definition sg_piece :: "sg \<Rightarrow> byte list \<Rightarrow> byte list" where
  "sg_piece g bs = (if have_imark g then sect (imark g, bs) else bs)"

lemma write_sgs_Ok:
  assumes "ckpt_file k fd fn io" "list_all2 (sg_ok p) gs bss"
  shows "write_sgs k fd p gs io = Ok (written fn (concat (map2 sg_piece gs bss)) io)"
  using assms(2,1)
proof (induction arbitrary: io rule: list_all2_induct)
  case Nil
  then show ?case by (auto simp: ckpt_file_def written_nil)
next
  case (Cons g gs bs bss)
  have data: "writeto k fd p (sg_ptr g) (sg_length g) io' = Ok (written fn bs io')" if "ckpt_file k fd fn io'" for io'
    using Cons.hyps(1) that by (intro writeto_Ok) (auto simp: sg_ok_def)
  have len: "length bs = sg_length g" using Cons.hyps(1) by (simp add: sg_ok_def)
  note f = ckpt_file_next [where fn = fn]
  show ?case
  proof (cases "have_imark g")
    case True
    have "write_sgs k fd p (g # gs) io =
        write_sgs k fd p gs (written fn bs (written fn (le32 (word_of_nat (length bs))) (written fn (le32 (imark g)) io)))"
      using True Cons.prems f data len by (simp add: writeto_own [where fn = fn])
    also have "\<dots> = Ok (written fn (concat (map2 sg_piece (g # gs) (bs # bss))) io)"
      using Cons.IH f Cons.prems True by (simp add: sg_piece_def sect_def written_twice)
    finally show ?thesis .
  next
    case False
    then show ?thesis using Cons.IH f Cons.prems data by (simp add: sg_piece_def written_twice)
  qed
qed

lemma sg_total_length:
  "list_all2 (sg_ok p) gs bss \<Longrightarrow> sg_total gs = word_of_nat (length (concat (map2 sg_piece gs bss)))"
  by (induction rule: list_all2_induct) (simp_all add: sg_piece_def sg_ok_def)

lemma write_section_sg_Ok:
  assumes "ckpt_file k fd fn io" "list_all2 (sg_ok p) gs bss"
  shows "write_section_sg k fd p mark gs io = Ok (written fn (sect (mark, concat (map2 sg_piece gs bss))) io)"
proof -
  note f = assms(1) ckpt_file_next [OF assms(1)] ckpt_file_next [OF ckpt_file_next [OF assms(1)]]
  show ?thesis
    unfolding write_section_sg_def sg_total_length [OF assms(2)]
    by (simp add: writeto_own [where fn = fn] f write_sgs_Ok [where fn = fn, OF _ assms(2)] written_twice sect_def)
qed

lemma write_section_Ok:
  assumes "ckpt_file k fd fn io" "fetch p ptr n = Some bs" "length bs = n" "ptr \<noteq> At 0"
  shows "write_section k fd p mark ptr n io = Ok (written fn (sect (mark, bs)) io)"
proof -
  have "list_all2 (sg_ok p) [setup_sglist False 0 ptr n] [bs]" using assms by (simp add: sg_ok_def setup_sglist_def)
  from write_section_sg_Ok [OF assms(1) this, of mark] show ?thesis
    by (simp add: write_section_def sg_piece_def setup_sglist_def)
qed

definition readable :: "ckpt_proc \<Rightarrow> nat \<Rightarrow> nat \<Rightarrow> bool" where
  "readable p a n \<longleftrightarrow> (\<forall>x. a \<le> x \<and> x < a + n \<longrightarrow> x \<in> cp_vm p \<and> cp_prot p x AND Proc_Maps.PROT_READ \<noteq> 0)"

lemma fetch_readable: "readable p (unat a) n \<Longrightarrow> fetch p (At a) n = Some (bytes_at (cp_mem p) (unat a) n)"
  by (simp add: fetch_def readable_def list_all_iff)

lemma length_bytes_at [simp]: "length (bytes_at m a n) = n"
  by (simp add: bytes_at_def)

lemma write_section_at:
  assumes "ckpt_file k fd fn io" "readable p a n" "0 < a" "a < 2 ^ 32"
  shows "write_section k fd p mark (At (word_of_nat a)) n io = Ok (written fn (sect (mark, bytes_at (cp_mem p) a n)) io)"
proof (rule write_section_Ok [OF assms(1)])
  have a: "unat (word_of_nat a :: u32) = a" using assms(4) by (rule unat_word_of_nat_32)
  show "fetch p (At (word_of_nat a)) n = Some (bytes_at (cp_mem p) a n)" using fetch_readable [of p "word_of_nat a" n] assms(2) a by simp
  show "At (word_of_nat a) \<noteq> At 0" using a assms(3) by auto
qed simp

subsection \<open>One area\<close>

lemma get_aval_size_all: "get_aval_size stat64 fn offset n = ALIGN_UP n PAGE_SIZE"
  by (simp add: get_aval_size_def Let_def split: prod.splits)

lemma align_page: "is_valid_page n \<Longrightarrow> ALIGN_UP n PAGE_SIZE = n"
proof -
  assume "is_valid_page n"
  then obtain q where q: "unat n = 4096 * q" by (auto simp: is_valid_page_dvd)
  then have "unat n + 4096 \<le> 2 ^ 32" using unat_less_32 [of n] by simp
  then have "unat (ALIGN_UP n (2 ^ 12)) = (unat n + 2 ^ 12 - 1) div 2 ^ 12 * 2 ^ 12" by (intro unat_ALIGN_UP) simp_all
  also have "\<dots> = unat n" using q by simp
  finally show ?thesis by (simp add: word_unat_eq_iff PAGE_SIZE_def)
qed

lemma page_mod: "is_valid_page n \<Longrightarrow> n mod PAGE_SIZE = 0"
  by (simp add: is_valid_page_dvd word_unat_eq_iff unat_mod PAGE_SIZE_def dvd_eq_mod_eq_0)

text \<open>An area of the memory map that the process can read, or a device.\<close>

definition ckpt_area :: "byte list \<Rightarrow> ckpt_proc \<Rightarrow> proc_maps_entry_t \<Rightarrow> bool" where
  "ckpt_area data p r \<longleftrightarrow> pm_valid r \<and> length (entry_name data r) = pm_fn_len r \<and>
    (\<not> is_dev data r \<longrightarrow> is_valid_page (pm_start r) \<and> is_valid_page (pm_end r) \<and> 0 < pm_start r \<and> pm_start r \<le> pm_end r \<and>
      (\<forall>x. in_area (pm_start r) (pm_end r - pm_start r) x \<longrightarrow> x \<in> cp_vm p \<and> cp_prot p x = pm_prot r)) \<and>
    pm_fn_len r + unat (pm_end r - pm_start r) + 53 < 2 ^ 32"

definition seg_data :: "byte list \<Rightarrow> mem \<Rightarrow> proc_maps_entry_t \<Rightarrow> byte list" where
  "seg_data data m r = (if is_dev data r then [] else bytes_at m (unat (pm_start r)) (unat (pm_end r - pm_start r)))"

definition seg_info :: "byte list \<Rightarrow> proc_maps_entry_t \<Rightarrow> map_file_info" where
  "seg_info data r = \<lparr>mf_prot = pm_prot r, mf_offset = pm_offset r, mf_space_sz = pm_end r - pm_start r,
    mf_ckpt_sz = (if is_dev data r then 0 else pm_end r - pm_start r), mf_start = pm_start r, mf_end = pm_end r\<rparr>"

definition seg_pieces :: "byte list \<Rightarrow> mem \<Rightarrow> proc_maps_entry_t \<Rightarrow> (u32 \<times> byte list) list" where
  "seg_pieces data m r = [(CKPT_SUBSECT_FN_MARK, entry_name data r @ [0]), (CKPT_SUBSECT_FINFO_MARK, finfo_bytes (seg_info data r)),
    (CKPT_SUBSECT_FDATA_MARK, seg_data data m r)]"

definition seg_section :: "byte list \<Rightarrow> mem \<Rightarrow> proc_maps_entry_t \<Rightarrow> u32 \<times> byte list" where
  "seg_section data m r = (CKPT_SECT_MEMSEG_MARK, concat (map sect (seg_pieces data m r)))"

lemma sg_ok_own: "length bs = n \<Longrightarrow> sg_ok p (setup_sglist h im (Own bs) n) bs"
  by (simp add: sg_ok_def setup_sglist_def fetch_def)

lemma write_memseg:
  assumes "ckpt_file k fd fn io" "length (entry_name data r) = pm_fn_len r" "sg_ok p l2 (seg_data data (cp_mem p) r)"
    "have_imark l2" "imark l2 = CKPT_SUBSECT_FDATA_MARK"
  shows "write_section_sg k fd p CKPT_SECT_MEMSEG_MARK
      [setup_sglist True CKPT_SUBSECT_FN_MARK (Own (entry_name data r @ [0])) (pm_fn_len r + 1),
       setup_sglist True CKPT_SUBSECT_FINFO_MARK (Own (finfo_bytes (seg_info data r))) sizeof_finfo, l2] io =
    Ok (written fn (sect (seg_section data (cp_mem p) r)) io)"
proof -
  let ?gs = "[setup_sglist True CKPT_SUBSECT_FN_MARK (Own (entry_name data r @ [0])) (pm_fn_len r + 1),
       setup_sglist True CKPT_SUBSECT_FINFO_MARK (Own (finfo_bytes (seg_info data r))) sizeof_finfo, l2]"
  have l: "length (finfo_bytes f) = sizeof_finfo" for f by (simp add: finfo_bytes_def sizeof_finfo_def)
  have "list_all2 (sg_ok p) ?gs [entry_name data r @ [0], finfo_bytes (seg_info data r), seg_data data (cp_mem p) r]"
    using assms(2,3) by (simp add: sg_ok_own l)
  from write_section_sg_Ok [OF assms(1) this, of CKPT_SECT_MEMSEG_MARK] show ?thesis
    using assms(4,5) by (simp add: sg_piece_def setup_sglist_def seg_section_def seg_pieces_def)
qed

lemma reprotect_Ok:
  assumes "mprotect_spec mp" "is_valid_page a" "is_valid_page n" "\<And>x. in_area a n x \<Longrightarrow> x \<in> cp_vm p"
  shows "reprotect mp a n prot p = Ok (p\<lparr>cp_prot := (\<lambda>x. if in_area a n x then prot else cp_prot p x)\<rparr>)"
  using assms by (simp add: reprotect_def mprotect_spec_def)

lemma or_read: "(w OR Proc_Maps.PROT_READ) AND Proc_Maps.PROT_READ \<noteq> 0"
proof -
  have "bit ((w OR Proc_Maps.PROT_READ) AND Proc_Maps.PROT_READ) 0" by (simp add: bit_simps Proc_Maps.PROT_READ_def)
  then show ?thesis by (metis bit_0_eq bot_apply bot_bool_def)
qed

lemma ckpt_memseg_dev:
  assumes "ckpt_file (ck_io ck) fd fn io" "ckpt_area data p r" "is_dev data r"
  shows "ckpt_memseg ck fd data r p io = Ok (p, written fn (sect (seg_section data (cp_mem p) r)) io)"
proof -
  have l2: "sg_ok p (setup_sglist True CKPT_SUBSECT_FDATA_MARK (At 0) 0) (seg_data data (cp_mem p) r)"
    using assms(3) by (simp add: sg_ok_def setup_sglist_def fetch_def seg_data_def bytes_at_def)
  have i: "seg_info data r = \<lparr>mf_prot = pm_prot r, mf_offset = pm_offset r, mf_space_sz = pm_end r - pm_start r, mf_ckpt_sz = 0,
    mf_start = pm_start r, mf_end = pm_end r\<rparr>" using assms(3) by (simp add: seg_info_def)
  have "length (entry_name data r) = pm_fn_len r" "pm_valid r" using assms(2) by (simp_all add: ckpt_area_def)
  with write_memseg [OF assms(1) _ l2] assms(3) show ?thesis
    by (simp add: ckpt_memseg_def Let_def i) (simp add: setup_sglist_def)
qed

lemma ckpt_memseg_mem:
  assumes k: "ckpt_file (ck_io ck) fd fn io" "mprotect_spec (ck_mprotect ck)" and area: "ckpt_area data p r" and dev: "\<not> is_dev data r"
  shows "ckpt_memseg ck fd data r p io = Ok (p, written fn (sect (seg_section data (cp_mem p) r)) io)"
proof -
  let ?len = "pm_end r - pm_start r" and ?un = "pm_prot r AND Proc_Maps.PROT_READ = 0"
  have v: "pm_valid r" "length (entry_name data r) = pm_fn_len r" "is_valid_page (pm_start r)" "0 < pm_start r" "is_valid_page ?len"
    and x: "\<And>x. in_area (pm_start r) ?len x \<Longrightarrow> x \<in> cp_vm p" "\<And>x. in_area (pm_start r) ?len x \<Longrightarrow> cp_prot p x = pm_prot r"
    using area dev valid_page_diff unfolding ckpt_area_def by blast+
  note prot = reprotect_Ok [OF k(2) v(3,5)]
  define p1 where "p1 = (if ?un then p\<lparr>cp_prot := (\<lambda>x. if in_area (pm_start r) ?len x then pm_prot r OR Proc_Maps.PROT_READ else cp_prot p x)\<rparr> else p)"
  have p1: "(if ?un then reprotect (ck_mprotect ck) (pm_start r) ?len (pm_prot r OR Proc_Maps.PROT_READ) p else Ok p) = Ok p1"
    "cp_mem p1 = cp_mem p" "cp_vm p1 = cp_vm p"
    using prot [OF x(1)] by (simp_all add: p1_def)
  have undo: "(if ?un then reprotect (ck_mprotect ck) (pm_start r) ?len (pm_prot r) p1 else Ok p1) = Ok p"
    using prot [of p1 "pm_prot r"] x by (auto simp: p1_def fun_eq_iff intro!: ckpt_proc.equality)
  have "readable p1 (unat (pm_start r)) (unat ?len)"
    using x or_read [of "pm_prot r"] by (auto simp: readable_def p1_def in_area_def)
  then have l2: "sg_ok p1 (setup_sglist True CKPT_SUBSECT_FDATA_MARK (At (pm_start r)) (unat ?len)) (seg_data data (cp_mem p1) r)"
    using v(4) dev by (auto simp: sg_ok_def setup_sglist_def fetch_readable seg_data_def)
  note mod = page_mod [OF v(5)]
  have i: "seg_info data r = \<lparr>mf_prot = pm_prot r, mf_offset = pm_offset r, mf_space_sz = ?len, mf_ckpt_sz = ?len,
    mf_start = pm_start r, mf_end = pm_end r\<rparr>" using dev by (simp add: seg_info_def)
  note w = write_memseg [OF k(1) v(2) l2]
  show ?thesis
    using dev v(1) p1 undo w mod unfolding ckpt_memseg_def Let_def get_aval_size_all align_page [OF v(5)]
    by (cases "is_internal data r") (simp_all add: i setup_sglist_def align_page [OF v(5)])
qed

lemma ckpt_memseg_Ok:
  assumes "ckpt_file (ck_io ck) fd fn io" "mprotect_spec (ck_mprotect ck)" "ckpt_area data p r"
  shows "ckpt_memseg ck fd data r p io = Ok (p, written fn (sect (seg_section data (cp_mem p) r)) io)"
  using ckpt_memseg_dev [OF assms(1,3)] ckpt_memseg_mem [OF assms] by blast

lemma memseg_loop_Ok:
  assumes "maps_ok ls" "drop ptr data = maps_text ls" "ptr \<le> length data" "length data < 2 ^ 32" "data \<noteq> []"
    and k: "ckpt_file (ck_io ck) fd fn io" "mprotect_spec (ck_mprotect ck)"
    and "\<forall>r\<in>set (entries ptr ls). pm_start r \<noteq> q \<longrightarrow> ckpt_area data p r"
  shows "memseg_loop ck fd frame q (handler_at data ptr) p io =
    Ok (p, written fn (concat (map (\<lambda>r. sect (seg_section data (cp_mem p) r)) (filter (\<lambda>r. pm_start r \<noteq> q) (entries ptr ls)))) io)"
  using assms(1-3,8) k(1)
proof (induction ls arbitrary: ptr io)
  case Nil
  then have "ptr = length data" by simp
  then show ?case using assms(5) Nil.prems(5)
    by (subst memseg_loop.simps) (auto simp: read_maps_line_end null_entry_def ckpt_file_def written_nil)
next
  case (Cons l ls)
  note r = read_maps_line_entry [OF Cons.prems(1,2) assms(4), of frame]
  have v: "pm_valid (line_entry l ptr)" by (simp add: line_entry_def)
  have "length (drop ptr data) = length (maps_text (l # ls))" using Cons.prems(2) by simp
  then have le: "ptr + length (line_text l) + 1 \<le> length data" by simp
  note IH = Cons.IH [OF conjunct2 [OF maps_ok_Cons [OF Cons.prems(1)]] drop_next_line [OF Cons.prems(2)] le]
  have h: "map_data (handler_at data n) = data" for n by (simp add: handler_at_def)
  show ?case
  proof (cases "pm_start (line_entry l ptr) = q")
    case True
    then show ?thesis using IH Cons.prems(4,5) by (subst memseg_loop.simps) (simp add: r v)
  next
    case False
    then have "ckpt_area data p (line_entry l ptr)" using Cons.prems(4) by simp
    note seg = ckpt_memseg_Ok [OF Cons.prems(5) k(2) this]
    show ?thesis using False IH [OF _ ckpt_file_next [OF Cons.prems(5)]] Cons.prems(4)
      by (subst memseg_loop.simps) (simp add: r v h seg written_twice)
  qed
qed

subsection \<open>The whole checkpoint\<close>

text \<open>The pages of the map text: guard pages around it are given back at once, the rest at the end.\<close>

lemma procmap_pages:
  assumes spec: "mmap_spec mp" "munmap_spec mu"
    and g: "xalloc_pages mp (word_of_nat MAX_PROC_MAPS_FILE_SIZE + 2 * PROCMAP_GUARD) False vm = Ok (g1, vm1)"
  obtains vm2 vm3 where "xdealloc_pages mu g1 PROCMAP_GUARD vm1 = Ok vm2"
    "xdealloc_pages mu (g1 + PROCMAP_GUARD + word_of_nat MAX_PROC_MAPS_FILE_SIZE) PROCMAP_GUARD vm2 = Ok vm3"
    "vm \<subseteq> vm3" "xdealloc_pages mu (g1 + PROCMAP_GUARD) (word_of_nat MAX_PROC_MAPS_FILE_SIZE) vm3 = Ok vm"
proof -
  note c = PROCMAP_GUARD_def PAGE_SIZE_def MAX_PROC_MAPS_FILE_SIZE_def
  have al: "ALIGN_UP (word_of_nat MAX_PROC_MAPS_FILE_SIZE + 2 * PROCMAP_GUARD) PAGE_SIZE = 1056768"
    "ALIGN_UP PROCMAP_GUARD PAGE_SIZE = 4096" "ALIGN_UP (word_of_nat MAX_PROC_MAPS_FILE_SIZE) PAGE_SIZE = 1048576"
    by (simp_all add: c ALIGN_UP_def ALIGN_DOWN_def)
  from g obtain prot where m: "mp vm 1056768 prot = (g1, vm1)" and pg: "is_valid_page g1"
    by (auto simp: xalloc_pages_def al run_simps Let_def split: prod.splits)
  then have sp: "unat g1 + 1056768 < 2 ^ 32" "bytes g1 1056768 \<inter> vm = {}" "vm1 = vm \<union> bytes g1 1056768"
    using spec(1) unfolding mmap_spec_def by fastforce+
  have u: "unat (g1 + 4096) = unat g1 + 4096" "unat (g1 + 1052672) = unat g1 + 1052672"
    using sp(1) by (simp_all add: unat_add_32)
  have g: "g1 + PROCMAP_GUARD = g1 + 4096" "g1 + 4096 + word_of_nat MAX_PROC_MAPS_FILE_SIZE = g1 + 1052672"
    by (simp_all add: c)
  have pgs: "is_valid_page (g1 + 4096)" "is_valid_page (g1 + 1052672)"
    using pg by (simp_all add: is_valid_page_dvd u)
  note mu = spec(2) [unfolded munmap_spec_def, rule_format]
  let ?vm2 = "vm1 - bytes g1 4096" and ?vm3 = "vm1 - bytes g1 4096 - bytes (g1 + 1052672) 4096"
  have d: "xdealloc_pages mu g1 PROCMAP_GUARD vm1 = Ok ?vm2" "xdealloc_pages mu (g1 + 1052672) PROCMAP_GUARD ?vm2 = Ok ?vm3"
    "xdealloc_pages mu (g1 + 4096) (word_of_nat MAX_PROC_MAPS_FILE_SIZE) ?vm3 = Ok (?vm3 - bytes (g1 + 4096) 1048576)"
    using pg pgs mu by (simp_all add: xdealloc_pages_def al)
  have dj: "x < unat g1 \<or> unat g1 + 1056768 \<le> x" if "x \<in> vm" for x
  proof -
    have "x \<notin> bytes g1 1056768" using sp(2) that by blast
    then show ?thesis by (simp add: bytes_def) linarith
  qed
  have "vm \<subseteq> ?vm3" using sp(3) u dj by (force simp: bytes_def)
  moreover have "?vm3 - bytes (g1 + 4096) 1048576 = vm" using sp(3) u dj by (force simp: bytes_def)
  ultimately show ?thesis using d by (intro that [of ?vm2 ?vm3]) (simp_all only: g)
qed

lemma ckpt_area_mono: "ckpt_area data p r \<Longrightarrow> cp_vm p \<subseteq> vm \<Longrightarrow> ckpt_area data (p\<lparr>cp_vm := vm\<rparr>) r"
  by (auto simp: ckpt_area_def)

definition mem_sections :: "byte list \<Rightarrow> mem \<Rightarrow> u32 \<Rightarrow> map_line list \<Rightarrow> (u32 \<times> byte list) list" where
  "mem_sections data m q ls = map (seg_section data m) (filter (\<lambda>r. pm_start r \<noteq> q) (entries 0 ls))"

lemma ckpt_meminfo_Ok:
  assumes k: "ckpt_file (ck_io ck) fd fn io" "mprotect_spec (ck_mprotect ck)" "mmap_spec (ck_mmap ck)" "munmap_spec (ck_munmap ck)"
    and g: "xalloc_pages (ck_mmap ck) (word_of_nat MAX_PROC_MAPS_FILE_SIZE + 2 * PROCMAP_GUARD) False (cp_vm p) = Ok (g1, vm1)" "g1 \<noteq> 0"
    and maps: "maps_agree (ck_proc ck) ls"
    and areas: "\<forall>r\<in>set (entries 0 ls). pm_start r \<noteq> g1 + PROCMAP_GUARD \<longrightarrow> ckpt_area (maps_text ls) p r"
  shows "ckpt_meminfo ck fd frame p io = Ok (p, written fn (concat (map sect (mem_sections (maps_text ls) (cp_mem p) (g1 + PROCMAP_GUARD) ls)) @
    le32 CKPT_SECT_END_MARK @ le32 0) io)"
proof -
  note m = maps [unfolded maps_agree_def]
  have ne: "maps_text ls \<noteq> []" using m by (cases ls) auto
  have len: "length (maps_text ls) < 2 ^ 32" using m by (simp add: MAX_PROC_MAPS_FILE_SIZE_def)
  have h: "read_self_procmap (ck_proc ck) = Ok (handler_at (maps_text ls) 0)"
    using m ne by (simp add: read_self_procmap_def read_procmap_def CASSERT_def init_map_handler_def handler_at_def)
  obtain vm2 vm3 where vm: "xdealloc_pages (ck_munmap ck) g1 PROCMAP_GUARD vm1 = Ok vm2"
    "xdealloc_pages (ck_munmap ck) (g1 + PROCMAP_GUARD + word_of_nat MAX_PROC_MAPS_FILE_SIZE) PROCMAP_GUARD vm2 = Ok vm3"
    "cp_vm p \<subseteq> vm3" "xdealloc_pages (ck_munmap ck) (g1 + PROCMAP_GUARD) (word_of_nat MAX_PROC_MAPS_FILE_SIZE) vm3 = Ok (cp_vm p)"
    by (rule procmap_pages [OF k(3,4) g(1)])
  let ?p = "p\<lparr>cp_vm := vm3\<rparr>"
  let ?s = "concat (map sect (mem_sections (maps_text ls) (cp_mem p) (g1 + PROCMAP_GUARD) ls))"
  have "\<forall>r\<in>set (entries 0 ls). pm_start r \<noteq> g1 + PROCMAP_GUARD \<longrightarrow> ckpt_area (maps_text ls) ?p r"
    using areas ckpt_area_mono [OF _ vm(3)] by blast
  from memseg_loop_Ok [of ls 0 "maps_text ls" ck fd fn io "g1 + PROCMAP_GUARD" ?p frame, OF _ _ _ len ne k(1,2) this] m
  have loop: "memseg_loop ck fd frame (g1 + PROCMAP_GUARD) (handler_at (maps_text ls) 0) ?p io = Ok (?p, written fn ?s io)"
    by (simp add: mem_sections_def comp_def)
  have "on_vm (xdealloc_pages (ck_munmap ck) g1 PROCMAP_GUARD) (p\<lparr>cp_vm := vm1\<rparr>) = Ok (p\<lparr>cp_vm := vm2\<rparr>)"
    "on_vm (xdealloc_pages (ck_munmap ck) (g1 + PROCMAP_GUARD + word_of_nat MAX_PROC_MAPS_FILE_SIZE) PROCMAP_GUARD) (p\<lparr>cp_vm := vm2\<rparr>) = Ok ?p"
    "on_vm (xdealloc_pages (ck_munmap ck) (g1 + PROCMAP_GUARD) (word_of_nat MAX_PROC_MAPS_FILE_SIZE)) ?p = Ok p"
    using vm by (simp_all add: on_vm_def)
  then show ?thesis
    using g(2) k(1) unfolding ckpt_meminfo_def g(1) by (simp add: h loop writeto_own [where fn = fn] ckpt_file_next written_twice)
qed

text \<open>The strings the process was started with, where the scan of the start-up stack found them.\<close>

definition base_ok :: "ckpt_proc \<Rightarrow> startup_stack_info \<Rightarrow> byte list \<Rightarrow> bool" where
  "base_ok p info exe \<longleftrightarrow>
    0 < bottom_exec_fn info \<and> bottom_exec_fn info < 2 ^ 32 \<and> length exe + 1 < 2 ^ 32 \<and>
    cstr (cp_mem p) (bottom_exec_fn info) exe \<and> readable p (bottom_exec_fn info) (length exe + 1) \<and>
    0 < cmdline_argbegin info \<and> cmdline_argbegin info < cmdline_argend info \<and> cmdline_argend info < 2 ^ 32 \<and>
    readable p (cmdline_argbegin info) (cmdline_argend info - cmdline_argbegin info) \<and>
    0 < envbegin info \<and> envbegin info < envend info \<and> envend info < 2 ^ 32 \<and>
    readable p (envbegin info) (envend info - envbegin info)"

definition base_sections :: "mem \<Rightarrow> startup_stack_info \<Rightarrow> byte list \<Rightarrow> (u32 \<times> byte list) list" where
  "base_sections m info exe =
    [(CKPT_SECT_EXEC_MARK, exe @ [0]),
     (CKPT_SECT_ARGS_MARK, bytes_at m (cmdline_argbegin info) (cmdline_argend info - cmdline_argbegin info)),
     (CKPT_SECT_ENVS_MARK, bytes_at m (envbegin info) (envend info - envbegin info))]"

lemma exec_name_bytes: "cstr m a s \<Longrightarrow> bytes_at m a (length s + 1) = s @ [0]"
  by (auto simp: cstr_def bytes_at_def intro!: nth_equalityI simp: nth_append less_Suc_eq)

lemma ckpt_baseinfo_Ok:
  assumes "ckpt_file k fd fn io" "base_ok p info exe"
  shows "ckpt_baseinfo k fd p info io = Some (Ok (written fn (concat (map sect (base_sections (cp_mem p) info exe))) io))"
proof -
  note b = assms(2) [unfolded base_ok_def]
  have n: "strlen_ptr (cp_mem p) (bottom_exec_fn info) = Some (Ok (length exe))" using b by (simp add: strlen_ptr_def)
  have s: "write_section k fd p mark (At (word_of_nat a)) m io' = Ok (written fn (sect (mark, bytes_at (cp_mem p) a m)) io')"
    if "ckpt_file k fd fn io'" "readable p a m" "0 < a" "a < 2 ^ 32" for mark a m io'
    by (rule write_section_at [OF that])
  have e: "bytes_at (cp_mem p) (bottom_exec_fn info) (Suc (length exe)) = exe @ [0]" using exec_name_bytes b by simp
  show ?thesis
    using b assms(1) ckpt_file_next [OF assms(1)] ckpt_file_next [OF ckpt_file_next [OF assms(1)]]
    by (simp add: ckpt_baseinfo_def n s e base_sections_def written_twice)
qed

lemma ckpt_archinfo_Ok:
  assumes f: "ckpt_file k fd fn io" and "length buf = 1024" "length (fxsave (fpu c)) = sizeof_fxsave"
    and spec: "areas_spec get_area put_area gmin"
  shows "ckpt_archinfo fxsave (get_area g) c buf k fd p regs pc io =
    Ok (written fn (sect (CKPT_SECT_CPU_MARK, cpuinfo_image fxsave c (take 12 (drop 84 buf)) regs pc) @
      sect (CKPT_SECT_TLS_MARK, tls_image get_area gmin g)) io)"
proof -
  let ?cpu = "cpuinfo_image fxsave c (take 12 (drop 84 buf)) regs pc"
  have pad: "length (take 12 (drop 84 buf)) = 12" using assms(2) by simp
  note len = length_cpuinfo_image [of _ fxsave c regs pc, OF pad assms(3)]
  have sz: "sizeof_cpuinfo \<le> 1024" "TLS_INFO_SZ \<le> 1024" by (simp_all add: sizeof_cpuinfo_def TLS_INFO_SZ_def GDT_ENTRY_TLS_ENTRIES_def)
  have cpu: "write_section k fd p CKPT_SECT_CPU_MARK (Own (?cpu @ r)) sizeof_cpuinfo io' = Ok (written fn (sect (CKPT_SECT_CPU_MARK, ?cpu)) io')"
    if "ckpt_file k fd fn io'" for r io'
    by (rule write_section_Ok [OF that]) (use len in \<open>simp_all add: fetch_def\<close>)
  have tls: "write_section k fd p CKPT_SECT_TLS_MARK (Own (tls_image get_area gmin g @ r)) TLS_INFO_SZ io' =
      Ok (written fn (sect (CKPT_SECT_TLS_MARK, tls_image get_area gmin g)) io')" if "ckpt_file k fd fn io'" for r io'
    by (rule write_section_Ok [OF that]) (use length_tls_image [of get_area gmin g] in \<open>simp_all add: fetch_def\<close>)
  show ?thesis
    unfolding ckpt_archinfo_def get_cpuinfo_image [OF sz(1)]
    by (simp add: cpu [OF f] get_tls_image [OF spec sz(2)] tls [OF ckpt_file_next [OF f]] written_twice)
qed

definition ckpt_image :: "checkpoint_head \<Rightarrow> (u32 \<times> byte list) list \<Rightarrow> byte list" where
  "ckpt_image head ss = ckpt_head_bytes head @ concat (map sect ss) @ le32 CKPT_SECT_END_MARK @ le32 0"

lemma length_head: "length (ckpt_head_bytes h) = sizeof_ckpt_head"
  by (simp add: ckpt_head_bytes_def CKPT_VERSION_STRING_def sizeof_ckpt_head_def lit_def)

lemma do_checkpoint_image:
  assumes k: "io_reliable (ck_io ck)" "fd_free io" "mprotect_spec (ck_mprotect ck)" "mmap_spec (ck_mmap ck)" "munmap_spec (ck_munmap ck)"
    and g: "xalloc_pages (ck_mmap ck) (word_of_nat MAX_PROC_MAPS_FILE_SIZE + 2 * PROCMAP_GUARD) False (cp_vm p) = Ok (g1, vm1)" "g1 \<noteq> 0"
    and maps: "maps_agree (ck_proc ck) ls"
    and areas: "\<forall>r\<in>set (entries 0 ls). pm_start r \<noteq> g1 + PROCMAP_GUARD \<longrightarrow> ckpt_area (maps_text ls) p r"
    and base: "base_ok p info exe"
    and cpu: "length buf = 1024" "length (fxsave (fpu c)) = sizeof_fxsave" and tls: "areas_spec get_area put_area gmin"
  shows "\<exists>io'. do_checkpoint ck fxsave (get_area g) c buf wrkmem info td frame regs pc stack_top fn pid tid p bb io =
      Some (Ok (p, init_bigbuffer bb, io')) \<and>
    content fn io' = ckpt_image \<lparr>ch_pid = pid, ch_tid = tid, ch_tls_start = fst td, ch_tls_size = snd td, ch_brk = ck_brk ck, ch_stack_top = stack_top\<rparr>
      (base_sections (cp_mem p) info exe @
       [(CKPT_SECT_CPU_MARK, cpuinfo_image fxsave c (take 12 (drop 84 buf)) regs pc), (CKPT_SECT_TLS_MARK, tls_image get_area gmin g)] @
       mem_sections (maps_text ls) (cp_mem p) (g1 + PROCMAP_GUARD) ls)"
proof -
  obtain fd io1 where o: "sys_open (ck_io ck) fn Truncate io = (fd, io1)" by (cases "sys_open (ck_io ck) fn Truncate io")
  have fd: "0 \<le> fd" using reliable_calls(2) [OF k(1,2), of fn Truncate] o by simp
  note io1 = open_Ok(2) [OF reliable_calls(1) [OF k(1)] o fd]
  have open1: "ckpt_file (ck_io ck) fd fn (written fn bs io1)" for bs
    using k(1) by (simp add: ckpt_file_def io1 opened_def written_def)
  have open0: "ckpt_file (ck_io ck) fd fn io1" using k(1) by (simp add: ckpt_file_def io1 opened_def)
  let ?h = "\<lparr>ch_pid = pid, ch_tid = tid, ch_tls_start = fst td, ch_tls_size = snd td, ch_brk = ck_brk ck, ch_stack_top = stack_top\<rparr>"
  have head: "writeto (ck_io ck) fd p (Own (ckpt_head_bytes ?h)) sizeof_ckpt_head io1 = Ok (written fn (ckpt_head_bytes ?h) io1)"
    using writeto_own [OF open0, of sizeof_ckpt_head "ckpt_head_bytes ?h" p] length_head [of ?h] by simp
  have flush: "flush_bigbuffer (ck_io ck) wrkmem fd (init_bigbuffer bb) io' = Ok (init_bigbuffer bb, io')" for io'
    using fd by (simp add: flush_bigbuffer_def init_bigbuffer_def reset_bigbuffer_ptr_def)
  have close: "sys_close (ck_io ck) fd (written fn bs io1) = (0, (written fn bs io1)\<lparr>fds := (fds io1)(fd := None)\<rparr>)" for bs
  proof -
    obtain e io2 where e: "sys_close (ck_io ck) fd (written fn bs io1) = (e, io2)" by (cases "sys_close (ck_io ck) fd (written fn bs io1)")
    then have "e = 0" using reliable_calls(4) [OF k(1), of "written fn bs io1" fd fn] open1 by (simp add: ckpt_file_def)
    then show ?thesis using close_Ok [OF reliable_calls(1) [OF k(1)], of fd "written fn bs io1" io2] e by simp
  qed
  have c0: "content fn io1 = []" by (simp add: io1)
  note steps = ckpt_baseinfo_Ok [OF open1 base] ckpt_archinfo_Ok [where fn = fn and fxsave = fxsave and c = c and get_area = get_area, OF open1 cpu tls]
    ckpt_meminfo_Ok [where fn = fn, OF open1 k(3,4,5) g maps areas]
  show ?thesis
    unfolding do_checkpoint_def Let_def o split_conv
    by (simp add: fd head steps written_twice flush close ckpt_image_def c0)
qed

lemma seg_section_reads:
  assumes "ckpt_area data p r"
  shows "fst (seg_section data (cp_mem p) r) \<noteq> CKPT_SECT_END_MARK" "length (snd (seg_section data (cp_mem p) r)) < 2 ^ 32"
    "read_subsections (snd (seg_section data (cp_mem p) r)) = Some (seg_pieces data (cp_mem p) r)"
proof -
  have a: "length (entry_name data r) = pm_fn_len r" "pm_fn_len r + unat (pm_end r - pm_start r) + 53 < 2 ^ 32"
    using assms by (simp_all add: ckpt_area_def)
  have f: "length (finfo_bytes f) = 28" for f by (simp add: finfo_bytes_def)
  have d: "length (seg_data data (cp_mem p) r) \<le> unat (pm_end r - pm_start r)" by (simp add: seg_data_def)
  show "fst (seg_section data (cp_mem p) r) \<noteq> CKPT_SECT_END_MARK"
    by (simp add: seg_section_def CKPT_SECT_MEMSEG_MARK_def CKPT_SECT_END_MARK_def)
  show "length (snd (seg_section data (cp_mem p) r)) < 2 ^ 32" using a d by (simp add: seg_section_def seg_pieces_def f)
  show "read_subsections (snd (seg_section data (cp_mem p) r)) = Some (seg_pieces data (cp_mem p) r)"
    unfolding seg_section_def snd_conv by (rule read_subsections_image) (use a d in \<open>simp add: seg_pieces_def f\<close>)
qed


text \<open>A process of one page, with its strings in it.\<close>

definition demo_ckpt_proc :: ckpt_proc where
  "demo_ckpt_proc = \<lparr>cp_mem = (\<lambda>x. if x = 0x08048102 then 0 else 0x61), cp_prot = (\<lambda>_. 5), cp_vm = bytes 0x08048000 0x1000\<rparr>"

definition demo_info :: startup_stack_info where
  "demo_info = \<lparr>p_argc = 0, p_args = 0, p_envs = 0, p_auxvs = 0, cmdline_argbegin = 0x08048200, cmdline_argend = 0x08048204,
    envbegin = 0x08048300, envend = 0x08048302, bottom_exec_fn = 0x08048100, auxv_info = startup_auxv_info\<rparr>"

definition demo_ckpt :: ckpt_calls where
  "demo_ckpt = \<lparr>ck_io = demo_io, ck_mmap = demo_mmap, ck_munmap = demo_munmap, ck_mprotect = demo_mprotect, ck_proc = demo_proc,
    ck_stat64 = (\<lambda>_. (0, 4096)), ck_brk = 0\<rparr>"

definition demo_ckpt_cpu :: "byte cpu_state" where
  "demo_ckpt_cpu = \<lparr>seg_cs = 0x73, seg_ds = 0x7b, seg_es = 0x7b, seg_fs = 0, seg_gs = 0x33, seg_ss = 0x7b, fpu = 7\<rparr>"

definition demo_regs :: pusha_regs where
  "demo_regs = \<lparr>eflags = 0x246, edi = 1, esi = 2, ebp = 3, esp = 4, ebx = 5, edx = 6, ecx = 7, eax = 8\<rparr>"




end
