(* ===== verification/Spec2Isabelle.thy ===== *)
theory Spec2Isabelle
  imports Bithacks Signals Mutex Mm Tls Lzo_Roundtrip Syscall_Log User_Entry Startup_Stack Exception Env_Conf Elf_Relocate Elf_Load Checkpoint
begin

text \<open>
  A verification development for the snitchaser loader.
\<close>

end
